(* ===== verification/Graph_Prelude.thy ===== *)
theory Graph_Prelude
  imports
    Main
    "HOL-Library.Word"
    "HOL-Library.Char_ord"
    "HOL-Library.List_Lexorder"
    "HOL-Library.Sublist"
    "HOL-Library.AList"
begin

text \<open>
  The vocabulary every component shares: byte strings (\<open>std::string\<close> and
  \<open>std::string_view\<close> are lists of 8-bit characters), 64-bit identifiers, the character
  classes of \<open><cctype>\<close> in the C locale, the searches of \<open>std::string\<close>, and
  \<open>std::map\<close> as an association list kept sorted by its key.  Comparison of two strings
  is the library's lexicographic order over unsigned characters, as
  \<open>std::char_traits<char>\<close> compares them.
\<close>

unbundle bit_operations_syntax

named_theorems map_laws \<open>equations that compute lookups in sorted association lists\<close>
named_theorems scan_laws \<open>how the scanning primitives consume their input\<close>

type_synonym bytes = string
type_synonym u64 = "64 word"
type_synonym u32 = "32 word"

section \<open>Characters\<close>

abbreviation code :: "char \<Rightarrow> nat" where
  "code c \<equiv> of_char c"

definition is_digit :: "char \<Rightarrow> bool" where
  "is_digit c \<longleftrightarrow> 48 \<le> code c \<and> code c \<le> 57"

definition is_upper :: "char \<Rightarrow> bool" where
  "is_upper c \<longleftrightarrow> 65 \<le> code c \<and> code c \<le> 90"

definition is_lower :: "char \<Rightarrow> bool" where
  "is_lower c \<longleftrightarrow> 97 \<le> code c \<and> code c \<le> 122"

definition is_alpha :: "char \<Rightarrow> bool" where
  "is_alpha c \<longleftrightarrow> is_upper c \<or> is_lower c"

definition is_alnum :: "char \<Rightarrow> bool" where
  "is_alnum c \<longleftrightarrow> is_alpha c \<or> is_digit c"

definition is_space :: "char \<Rightarrow> bool" where
  "is_space c \<longleftrightarrow> code c = 32 \<or> (9 \<le> code c \<and> code c \<le> 13)"

definition to_upper :: "char \<Rightarrow> char" where
  "to_upper c = (if is_lower c then char_of (code c - 32) else c)"

lemmas char_class_defs =
  is_digit_def is_upper_def is_lower_def is_alpha_def is_alnum_def is_space_def

abbreviation dquote :: char where
  "dquote \<equiv> CHR 0x22"

abbreviation squote :: char where
  "squote \<equiv> CHR 0x27"

abbreviation backslash :: char where
  "backslash \<equiv> CHR 0x5C"

abbreviation nul :: char where
  "nul \<equiv> CHR 0x00"

lemma to_upper_idem [simp]: "to_upper (to_upper c) = to_upper c"
  by (auto simp: to_upper_def is_lower_def)

section \<open>Suffixes of a string\<close>

text \<open>
  A scanning loop over \<open>s\<close> with a position \<open>pos\<close> is modelled on the suffix
  \<open>drop pos s\<close>: \<open>s.find(c, pos)\<close> leaves \<open>from_char c (drop pos s)\<close>, which is empty
  exactly when the search returns \<open>npos\<close>.
\<close>

definition from_char :: "char \<Rightarrow> string \<Rightarrow> string" where
  "from_char c s = dropWhile (\<lambda>x. x \<noteq> c) s"

definition upto_char :: "char \<Rightarrow> string \<Rightarrow> string" where
  "upto_char c s = takeWhile (\<lambda>x. x \<noteq> c) s"

lemma upto_from_char [scan_laws]: "upto_char c s @ from_char c s = s"
  by (simp add: upto_char_def from_char_def)

lemma length_from_char [scan_laws]: "length (from_char c s) \<le> length s"
  by (simp add: from_char_def length_dropWhile_le)

lemma from_char_hd [scan_laws]: "from_char c s = x # xs \<Longrightarrow> x = c"
  unfolding from_char_def using hd_dropWhile[of "\<lambda>x. x \<noteq> c" s] by simp

lemma from_char_append [scan_laws]:
  "c \<notin> set a \<Longrightarrow> from_char c (a @ c # b) = c # b"
  by (induction a) (auto simp: from_char_def)

lemma upto_char_append [scan_laws]:
  "c \<notin> set a \<Longrightarrow> upto_char c (a @ c # b) = a"
  by (induction a) (auto simp: upto_char_def)

lemma from_char_none [scan_laws]: "c \<notin> set s \<Longrightarrow> from_char c s = []"
  by (induction s) (auto simp: from_char_def)

lemma takeWhile_stop [scan_laws]:
  "(\<forall>x\<in>set a. P x) \<Longrightarrow> \<not> P c \<Longrightarrow> takeWhile P (a @ c # b) = a"
  by (induction a) auto

lemma dropWhile_stop [scan_laws]:
  "(\<forall>x\<in>set a. P x) \<Longrightarrow> \<not> P c \<Longrightarrow> dropWhile P (a @ c # b) = c # b"
  by (induction a) auto

section \<open>Ordered maps\<close>

text \<open>
  \<open>std::map<K, V>\<close> iterates in key order.  It is an association list sorted strictly by
  key; \<open>map_put\<close> is \<open>m[k] = v\<close> and the lookup is the library's \<open>map_of\<close>.
\<close>

fun map_put :: "'k::linorder \<Rightarrow> 'v \<Rightarrow> ('k \<times> 'v) list \<Rightarrow> ('k \<times> 'v) list" where
  "map_put k v [] = [(k, v)]"
| "map_put k v ((a, b) # m) =
     (if k < a then (k, v) # (a, b) # m
      else if k = a then (k, v) # m
      else (a, b) # map_put k v m)"

definition sorted_map :: "('k::linorder \<times> 'v) list \<Rightarrow> bool" where
  "sorted_map m \<longleftrightarrow> sorted_wrt (<) (map fst m)"

lemma sorted_map_Nil [simp, map_laws]: "sorted_map []"
  by (simp add: sorted_map_def)

lemma sorted_map_Cons [map_laws]:
  "sorted_map (p # m) \<longleftrightarrow> (\<forall>k\<in>fst ` set m. fst p < k) \<and> sorted_map m"
  by (auto simp: sorted_map_def)

lemma keys_map_put [map_laws]: "fst ` set (map_put k v m) = insert k (fst ` set m)"
  by (induction k v m rule: map_put.induct) auto

lemma sorted_map_put [map_laws]: "sorted_map m \<Longrightarrow> sorted_map (map_put k v m)"
  by (induction k v m rule: map_put.induct) (auto simp: sorted_map_Cons keys_map_put)

lemma map_of_put [map_laws]: "map_of (map_put k v m) = (map_of m)(k \<mapsto> v)"
  by (induction k v m rule: map_put.induct) (auto simp: fun_eq_iff)

lemma map_put_last:
  "\<forall>a\<in>fst ` set m. a < k \<Longrightarrow> map_put k v m = m @ [(k, v)]"
  by (induction k v m rule: map_put.induct) auto

lemma sorted_map_distinct: "sorted_map m \<Longrightarrow> distinct (map fst m)"
  by (simp add: sorted_map_def strict_sorted_iff)

lemma sorted_map_ext:
  assumes "sorted_map m" "sorted_map n" "map_of m = map_of n"
  shows "m = n"
proof -
  from assms(3) have "fst ` set m = fst ` set n"
    by (metis dom_map_of_conv_image_fst)
  then have keys: "map fst m = map fst n"
    using assms(1,2) by (auto simp: sorted_map_def strict_sorted_iff intro: sorted_distinct_set_unique)
  have "set m = set n"
    using assms by (metis map_of_inject_set sorted_map_distinct)
  then have "map_of m = map_of n" "set m = set n" using assms by auto
  have "map snd m = map (\<lambda>k. the (map_of m k)) (map fst m)"
    using sorted_map_distinct[OF assms(1)] by (auto simp: map_of_is_SomeI)
  moreover have "map snd n = map (\<lambda>k. the (map_of n k)) (map fst n)"
    using sorted_map_distinct[OF assms(2)] by (auto simp: map_of_is_SomeI)
  ultimately have "map snd m = map snd n"
    using keys assms(3) by simp
  with keys show ?thesis
    by (metis zip_map_fst_snd)
qed

text \<open>Inserting a list of pairs one at a time, as the parsers do, and inserting a sorted
  list in order, which rebuilds it.\<close>

definition map_from :: "('k::linorder \<times> 'v) list \<Rightarrow> ('k \<times> 'v) list" where
  "map_from ps = fold (\<lambda>(k, v) m. map_put k v m) ps []"

lemma fold_put_sorted:
  "sorted_map (m @ ps) \<Longrightarrow> fold (\<lambda>(k, v) m. map_put k v m) ps m = m @ ps"
proof (induction ps arbitrary: m)
  case Nil
  then show ?case by simp
next
  case (Cons p ps)
  obtain k v where p: "p = (k, v)" by (cases p)
  have "\<forall>a\<in>fst ` set m. a < k"
    using Cons.prems p by (fastforce simp: sorted_map_def sorted_wrt_append)
  then have "map_put k v m = m @ [(k, v)]" by (rule map_put_last)
  moreover have "sorted_map ((m @ [(k, v)]) @ ps)" using Cons.prems p by simp
  ultimately show ?case using Cons.IH[of "m @ [(k, v)]"] p by simp
qed

lemma map_from_sorted [map_laws]: "sorted_map ps \<Longrightarrow> map_from ps = ps"
  unfolding map_from_def using fold_put_sorted[of "[]" ps] by simp

text \<open>Lookups in association lists that lose one entry.\<close>

lemma map_of_filter_key [map_laws]:
  "map_of (filter (\<lambda>p. fst p \<noteq> k) xs) = (map_of xs)(k := None)"
  by (induction xs) auto

lemma map_of_butlast [map_laws]:
  "fst (last xs) \<noteq> k \<Longrightarrow> map_of (butlast xs) k = map_of xs k"
  by (induction xs) auto

lemma alist_update_fresh: "k \<notin> fst ` set al \<Longrightarrow> AList.update k v al = al @ [(k, v)]"
  by (induction al) auto

lemma map_of_graph: "map_of (map (\<lambda>k. (k, f k)) ks) k = (if k \<in> set ks then Some (f k) else None)"
  by (induction ks) auto

section \<open>Decimal text\<close>

text \<open>\<open>std::to_string\<close> of an unsigned integer.\<close>

fun to_decimal :: "nat \<Rightarrow> string" where
  "to_decimal n = (if n < 10 then [char_of (48 + n)] else to_decimal (n div 10) @ [char_of (48 + n mod 10)])"

declare to_decimal.simps [simp del]

lemma to_decimal_digits: "c \<in> set (to_decimal n) \<Longrightarrow> is_digit c"
proof (induction n rule: to_decimal.induct)
  case (1 n)
  have "is_digit (char_of (48 + k))" if "k < 10" for k :: nat
    using that by (simp add: is_digit_def)
  then show ?case using 1 by (subst (asm) (2) to_decimal.simps) (auto split: if_splits)
qed

lemma to_decimal_nonempty: "to_decimal n \<noteq> []"
  by (subst to_decimal.simps) simp

fun of_decimal :: "nat \<Rightarrow> string \<Rightarrow> nat" where
  "of_decimal acc [] = acc"
| "of_decimal acc (c # cs) = of_decimal (10 * acc + (code c - 48)) cs"

lemma of_decimal_append: "of_decimal acc (xs @ ys) = of_decimal (of_decimal acc xs) ys"
  by (induction acc xs rule: of_decimal.induct) auto

lemma of_to_decimal: "of_decimal 0 (to_decimal n) = n"
proof (induction n rule: to_decimal.induct)
  case (1 n)
  then show ?case
    by (subst to_decimal.simps) (simp add: of_decimal_append)
qed

lemma to_decimal_inj: "to_decimal m = to_decimal n \<longleftrightarrow> m = n"
  by (metis of_to_decimal)

end
