(* ===== verification/Ast.thy ===== *)
theory Ast
  imports Graph_Prelude
begin

text \<open>
  The syntax trees of \<open>core/ast.h\<close>.  A tree is held by shared pointers in the code; the only
  sharing that an operation can observe is the one between a WHERE clause's
  \<open>condition->right\<close> and its legacy \<open>value\<close> field, so that field is a reference
  (\<open>where_ref\<close>) and every other child is the subtree itself.
\<close>

datatype expression =
    Variable string
  | Literal string bool \<comment> \<open>value and \<open>is_string\<close>\<close>
  | Property_access string string
  | Binary expression string expression
  | List_literal "expression list"
  | Map_literal "(string \<times> expression) list" \<comment> \<open>a \<open>std::map\<close>, sorted by key\<close>

datatype node_type =
    Node_variable | Node_literal_string | Node_literal_number | Node_property_access
  | Node_binary | Node_list_literal | Node_map_literal

fun expr_type :: "expression \<Rightarrow> node_type" where
  "expr_type (Variable n) = Node_variable"
| "expr_type (Literal v is_str) = (if is_str then Node_literal_string else Node_literal_number)"
| "expr_type (Property_access v k) = Node_property_access"
| "expr_type (Binary l op r) = Node_binary"
| "expr_type (List_literal es) = Node_list_literal"
| "expr_type (Map_literal m) = Node_map_literal"

type_synonym property_map = "(string \<times> expression) list"

record pattern_node =
  node_variable :: string
  node_label :: string
  node_props :: property_map

record pattern_relationship =
  rel_variable :: string
  rel_type :: string
  rel_direction :: string
  rel_props :: property_map

record pattern_element =
  elem_node :: pattern_node
  elem_rel :: "pattern_relationship option"

type_synonym pattern_path = "pattern_element list"

record return_item =
  item_expr :: expression
  item_alias :: string

text \<open>
  \<open>where_clause::value\<close>: null, the very object that is \<open>condition->right\<close>, or an object
  of its own.
\<close>

datatype where_ref = No_value | Shared_right | Own_value expression

record where_clause =
  where_condition :: expression
  where_variable :: string
  where_property :: string
  where_op :: string
  where_val :: where_ref

record assignment =
  asgn_variable :: string
  asgn_property :: string
  asgn_value :: expression

datatype clause =
    Create_clause "pattern_path list"
  | Match_clause "pattern_path list"
  | Return_clause "return_item list"
  | Where_clause where_clause
  | Delete_clause "string list" bool \<comment> \<open>variables and \<open>detach\<close>\<close>
  | Set_clause "assignment list"
  | Unwind_clause expression string

datatype clause_type =
    Type_create | Type_match | Type_return | Type_where | Type_delete | Type_set | Type_unwind

fun type_of_clause :: "clause \<Rightarrow> clause_type" where
  "type_of_clause (Create_clause ps) = Type_create"
| "type_of_clause (Match_clause ps) = Type_match"
| "type_of_clause (Return_clause items) = Type_return"
| "type_of_clause (Where_clause w) = Type_where"
| "type_of_clause (Delete_clause vs d) = Type_delete"
| "type_of_clause (Set_clause as) = Type_set"
| "type_of_clause (Unwind_clause e a) = Type_unwind"

type_synonym statement = "clause list"

text \<open>Reading the \<open>value\<close> pointer of a WHERE clause: \<open>None\<close> is the null pointer.\<close>

fun binary_right :: "expression \<Rightarrow> expression option" where
  "binary_right (Binary l op r) = Some r"
| "binary_right _ = None"

fun deref_value :: "where_clause \<Rightarrow> expression option" where
  "deref_value w = (case where_val w of
     No_value \<Rightarrow> None
   | Shared_right \<Rightarrow> binary_right (where_condition w)
   | Own_value e \<Rightarrow> Some e)"

definition empty_node :: pattern_node where
  "empty_node = \<lparr>node_variable = [], node_label = [], node_props = []\<rparr>"

definition empty_rel :: pattern_relationship where
  "empty_rel = \<lparr>rel_variable = [], rel_type = [], rel_direction = [], rel_props = []\<rparr>"

text \<open>Every map in a tree is a \<open>std::map\<close>, so a tree the code can hold has sorted maps.\<close>

fun expr_ok :: "expression \<Rightarrow> bool" where
  "expr_ok (Variable n) = True"
| "expr_ok (Literal v b) = True"
| "expr_ok (Property_access v k) = True"
| "expr_ok (Binary l op r) = (expr_ok l \<and> expr_ok r)"
| "expr_ok (List_literal es) = (\<forall>e\<in>set es. expr_ok e)"
| "expr_ok (Map_literal m) = (sorted_map m \<and> (\<forall>p\<in>set m. expr_ok (snd p)))"

definition props_ok :: "property_map \<Rightarrow> bool" where
  "props_ok m \<longleftrightarrow> sorted_map m \<and> (\<forall>p\<in>set m. expr_ok (snd p))"

end
