(* ===== verification/Lexer.thy ===== *)
theory Lexer
  imports Graph_Prelude
begin

text \<open>
  The lexer of \<open>core/parser.cpp\<close>.  The object's \<open>input_\<close> and \<open>pos_\<close> are the pair of the
  unread suffix and the position, so \<open>peek\<close> reads the head of \<open>lex_rest\<close> and \<open>advance\<close>
  moves one character from it.  Characters outside ASCII belong to no class, as in the C
  locale.
\<close>

datatype token_type =
    Keyword_create | Keyword_match | Keyword_return | Keyword_where
  | Identifier | String_literal | Number_literal
  | Lparen | Rparen | Lbracket | Rbracket | Lbrace | Rbrace
  | Colon | Comma | Arrow_right | Arrow_left | Dash | Dot
  | Equals | Less_than | Greater_than
  | Keyword_as | Keyword_delete | Keyword_set | Keyword_unwind
  | Eof | Unknown

record token =
  tok_type :: token_type
  tok_text :: string
  tok_position :: nat

record lexer =
  lex_rest :: string
  lex_pos :: nat

abbreviation mk_token :: "token_type \<Rightarrow> string \<Rightarrow> nat \<Rightarrow> token" where
  "mk_token ty s p \<equiv> \<lparr>tok_type = ty, tok_text = s, tok_position = p\<rparr>"

definition lexer_init :: "string \<Rightarrow> lexer" where
  "lexer_init input = \<lparr>lex_rest = input, lex_pos = 0\<rparr>"

definition lex_eof :: "lexer \<Rightarrow> bool" where
  "lex_eof l \<longleftrightarrow> lex_rest l = []"

definition lex_peek :: "lexer \<Rightarrow> char" where
  "lex_peek l = (case lex_rest l of [] \<Rightarrow> nul | c # cs \<Rightarrow> c)"

definition lex_advance :: "lexer \<Rightarrow> char \<times> lexer" where
  "lex_advance l = (case lex_rest l of
     [] \<Rightarrow> (nul, l)
   | c # cs \<Rightarrow> (c, \<lparr>lex_rest = cs, lex_pos = Suc (lex_pos l)\<rparr>))"

abbreviation lex_skip :: "lexer \<Rightarrow> lexer" where
  "lex_skip l \<equiv> snd (lex_advance l)"

text \<open>\<open>s.substr(p, n)\<close> with \<open>size_t\<close> arguments; every call of the lexer has \<open>p \<le> s.size()\<close>.\<close>

definition substr :: "string \<Rightarrow> nat \<Rightarrow> nat \<Rightarrow> string" where
  "substr s p n = take n (drop p s)"

definition size_sub :: "nat \<Rightarrow> nat \<Rightarrow> nat" where
  \<comment> \<open>subtraction of two \<open>size_t\<close> values\<close>
  "size_sub a b = unat ((of_nat a :: u64) - of_nat b)"

lemma lex_advance_simps [simp]:
  "lex_advance \<lparr>lex_rest = [], lex_pos = p\<rparr> = (nul, \<lparr>lex_rest = [], lex_pos = p\<rparr>)"
  "lex_advance \<lparr>lex_rest = c # cs, lex_pos = p\<rparr> = (c, \<lparr>lex_rest = cs, lex_pos = Suc p\<rparr>)"
  by (simp_all add: lex_advance_def)

lemma lex_peek_simps [simp]:
  "lex_peek \<lparr>lex_rest = [], lex_pos = p\<rparr> = nul"
  "lex_peek \<lparr>lex_rest = c # cs, lex_pos = p\<rparr> = c"
  by (simp_all add: lex_peek_def)

lemma lex_eof_simps [simp]:
  "lex_eof \<lparr>lex_rest = [], lex_pos = p\<rparr>"
  "\<not> lex_eof \<lparr>lex_rest = c # cs, lex_pos = p\<rparr>"
  by (simp_all add: lex_eof_def)

lemma lex_advance_shorter:
  "\<not> lex_eof l \<Longrightarrow> length (lex_rest (lex_skip l)) < length (lex_rest l)"
  by (cases l) (auto simp: lex_eof_def lex_advance_def split: list.splits)

lemma lex_advance_le: "length (lex_rest (lex_skip l)) \<le> length (lex_rest l)"
  by (cases l) (auto simp: lex_advance_def split: list.splits)

section \<open>Scanning loops\<close>

text \<open>\<open>while (!is_eof() && P(peek())) advance();\<close>\<close>

function scan_while :: "(char \<Rightarrow> bool) \<Rightarrow> lexer \<Rightarrow> lexer" where
  "scan_while P l = (if \<not> lex_eof l \<and> P (lex_peek l) then scan_while P (lex_skip l) else l)"
  by pat_completeness auto
termination
  by (relation "measure (\<lambda>(P, l). length (lex_rest l))") (auto intro: lex_advance_shorter)

declare scan_while.simps [simp del]

definition skip_whitespace :: "lexer \<Rightarrow> lexer" where
  "skip_whitespace l = scan_while is_space l"

definition is_ident_char :: "char \<Rightarrow> bool" where
  "is_ident_char c \<longleftrightarrow> is_alnum c \<or> c = CHR ''_''"

definition is_number_char :: "char \<Rightarrow> bool" where
  "is_number_char c \<longleftrightarrow> is_digit c \<or> c = CHR ''.''"

text \<open>The loop of \<open>scan_string\<close>: an escape character takes the next one with it.\<close>

function scan_string_body :: "char \<Rightarrow> lexer \<Rightarrow> lexer" where
  "scan_string_body q l =
     (if \<not> lex_eof l \<and> lex_peek l \<noteq> q
      then scan_string_body q
             (lex_skip (if lex_peek l = backslash then lex_skip l else l))
      else l)"
  by pat_completeness auto
termination
  by (relation "measure (\<lambda>(q, l). length (lex_rest l))")
    (auto intro: lex_advance_shorter le_less_trans[OF lex_advance_le lex_advance_shorter])

declare scan_string_body.simps [simp del]

section \<open>Tokens\<close>

text \<open>\<open>ci_eq\<close> walks the word and then asks whether the keyword ends there.\<close>

fun ci_eq :: "string \<Rightarrow> string \<Rightarrow> bool" where
  "ci_eq [] kw = (kw = [])"
| "ci_eq (c # cs) [] = False"
| "ci_eq (c # cs) (k # ks) = (if to_upper c \<noteq> k then False else ci_eq cs ks)"

definition keyword_type :: "string \<Rightarrow> token_type" where
  "keyword_type w =
     (if length w = 2 then (if ci_eq w ''AS'' then Keyword_as else Identifier)
      else if length w = 3 then (if ci_eq w ''SET'' then Keyword_set else Identifier)
      else if length w = 5 then
        (if ci_eq w ''MATCH'' then Keyword_match
         else if ci_eq w ''WHERE'' then Keyword_where else Identifier)
      else if length w = 6 then
        (if ci_eq w ''CREATE'' then Keyword_create
         else if ci_eq w ''RETURN'' then Keyword_return
         else if ci_eq w ''DELETE'' then Keyword_delete
         else if ci_eq w ''DETACH'' then Keyword_delete
         else if ci_eq w ''UNWIND'' then Keyword_unwind else Identifier)
      else Identifier)"

definition scan_identifier_or_keyword :: "lexer \<Rightarrow> token \<times> lexer" where
  "scan_identifier_or_keyword l =
     (let l' = scan_while is_ident_char l;
          len = lex_pos l' - lex_pos l;
          txt = substr (lex_rest l) 0 len
      in (mk_token (keyword_type txt) txt (lex_pos l), l'))"

definition scan_string :: "lexer \<Rightarrow> token \<times> lexer" where
  "scan_string l =
     (let (quote, l1) = lex_advance l;
          l2 = scan_string_body quote l1;
          l3 = (if \<not> lex_eof l2 then lex_skip l2 else l2)
      in (mk_token String_literal
            (substr (lex_rest l) 1 (size_sub (size_sub (lex_pos l3) (lex_pos l)) 2))
            (lex_pos l), l3))"

definition scan_number :: "lexer \<Rightarrow> token \<times> lexer" where
  "scan_number l =
     (let l' = scan_while is_number_char l
      in (mk_token Number_literal (substr (lex_rest l) 0 (lex_pos l' - lex_pos l)) (lex_pos l), l'))"

definition scan_symbol :: "lexer \<Rightarrow> token \<times> lexer" where
  "scan_symbol l =
     (let start = lex_pos l; (c, l1) = lex_advance l in
      if c = CHR ''('' then (mk_token Lparen ''('' start, l1)
      else if c = CHR '')'' then (mk_token Rparen '')'' start, l1)
      else if c = CHR ''{'' then (mk_token Lbrace ''{'' start, l1)
      else if c = CHR ''}'' then (mk_token Rbrace ''}'' start, l1)
      else if c = CHR ''['' then (mk_token Lbracket ''['' start, l1)
      else if c = CHR '']'' then (mk_token Rbracket '']'' start, l1)
      else if c = CHR '':'' then (mk_token Colon '':'' start, l1)
      else if c = CHR '','' then (mk_token Comma '','' start, l1)
      else if c = CHR ''.'' then (mk_token Dot ''.'' start, l1)
      else if c = CHR ''='' then (mk_token Equals ''='' start, l1)
      else if c = CHR ''>'' then
        (if lex_peek l1 = CHR ''='' then (mk_token Greater_than ''>='' start, lex_skip l1)
         else (mk_token Greater_than ''>'' start, l1))
      else if c = CHR ''<'' then
        (if lex_peek l1 = CHR ''-'' then (mk_token Arrow_left ''<-'' start, lex_skip l1)
         else if lex_peek l1 = CHR ''>'' then (mk_token Greater_than ''<>'' start, lex_skip l1)
         else if lex_peek l1 = CHR ''='' then (mk_token Less_than ''<='' start, lex_skip l1)
         else (mk_token Less_than ''<'' start, l1))
      else if c = CHR ''-'' then
        (if lex_peek l1 = CHR ''>'' then (mk_token Arrow_right ''->'' start, lex_skip l1)
         else (mk_token Dash ''-'' start, l1))
      else (mk_token Unknown [c] start, l1))"

definition scan_token :: "lexer \<Rightarrow> token \<times> lexer" where
  \<comment> \<open>the dispatch in the loop of \<open>tokenize\<close>\<close>
  "scan_token l =
     (let c = lex_peek l in
      if is_alpha c \<or> c = CHR ''_'' then scan_identifier_or_keyword l
      else if is_digit c then scan_number l
      else if c = squote \<or> c = dquote then scan_string l
      else scan_symbol l)"

section \<open>How far each scanner reads\<close>

text \<open>
  A lexer state \<open>l'\<close> is \<open>reached\<close> from \<open>l\<close> when some characters were read and the
  position moved by as many.
\<close>

definition reached :: "lexer \<Rightarrow> lexer \<Rightarrow> bool" where
  "reached l l' \<longleftrightarrow> (\<exists>w. lex_rest l = w @ lex_rest l' \<and> lex_pos l' = lex_pos l + length w)"

lemma reached_refl [simp, intro]: "reached l l"
  by (simp add: reached_def)

lemma reached_trans [trans]: "reached a b \<Longrightarrow> reached b c \<Longrightarrow> reached a c"
  unfolding reached_def by (metis append.assoc length_append add.assoc)

lemma reached_skip [intro]: "reached l (lex_skip l)"
  by (cases l; cases "lex_rest l") (auto simp: reached_def)

lemma reached_length: "reached l l' \<Longrightarrow> length (lex_rest l') \<le> length (lex_rest l)"
  by (auto simp: reached_def)

lemma scan_while_eq [scan_laws]:
  "scan_while P l =
     \<lparr>lex_rest = dropWhile P (lex_rest l),
      lex_pos = lex_pos l + length (takeWhile P (lex_rest l))\<rparr>"
proof (induction P l rule: scan_while.induct)
  case (1 P l)
  obtain r p where l: "l = \<lparr>lex_rest = r, lex_pos = p\<rparr>" by (cases l)
  show ?case
  proof (cases r)
    case Nil
    then show ?thesis unfolding l by (subst scan_while.simps) simp
  next
    case (Cons c cs)
    with 1 show ?thesis unfolding l by (subst scan_while.simps) simp
  qed
qed

lemma reached_scan_while [intro]: "reached l (scan_while P l)"
  unfolding reached_def scan_while_eq
  by (rule exI[of _ "takeWhile P (lex_rest l)"]) simp

lemma reached_scan_string_body [intro]: "reached l (scan_string_body q l)"
proof (induction q l rule: scan_string_body.induct)
  case (1 q l)
  let ?l = "lex_skip (if lex_peek l = backslash then lex_skip l else l)"
  have "reached l ?l" by (auto intro: reached_trans)
  with 1 show ?case
    by (auto simp: scan_string_body.simps[of q l] intro: reached_trans)
qed


text \<open>What every scanner promises of the token it returns and of where it stops.\<close>

definition token_step :: "lexer \<Rightarrow> token \<Rightarrow> lexer \<Rightarrow> bool" where
  "token_step l t l' \<longleftrightarrow>
     reached l l' \<and> length (lex_rest l') < length (lex_rest l)
     \<and> tok_position t = lex_pos l \<and> tok_type t \<noteq> Eof
     \<and> (tok_type t \<noteq> String_literal \<longrightarrow> lex_rest l = tok_text t @ lex_rest l')"

lemma keyword_type_not_special [simp]:
  "keyword_type w \<noteq> Eof" "keyword_type w \<noteq> String_literal"
  by (simp_all add: keyword_type_def)

lemma scan_while_step:
  assumes "lex_rest l = c # cs" "P c"
  shows "token_step l (mk_token ty (substr (lex_rest l) 0 (lex_pos (scan_while P l) - lex_pos l)) (lex_pos l))
           (scan_while P l) \<longleftrightarrow> ty \<noteq> Eof"
proof -
  have "length (dropWhile P (c # cs)) < length (c # cs)"
    using assms(2) by (simp add: le_imp_less_Suc length_dropWhile_le)
  moreover have "take (length (takeWhile P (c # cs))) (c # cs) = takeWhile P (c # cs)"
    by (metis takeWhile_eq_take)
  ultimately show ?thesis
    using assms reached_scan_while[of l P] unfolding token_step_def scan_while_eq substr_def
    by auto
qed

lemma token_step_identifier:
  assumes "lex_rest l = c # cs" "is_ident_char c"
  shows "token_step l (fst (scan_identifier_or_keyword l)) (snd (scan_identifier_or_keyword l))"
  using scan_while_step[where P = is_ident_char, OF assms]
  by (simp add: scan_identifier_or_keyword_def Let_def)

lemma token_step_number:
  assumes "lex_rest l = c # cs" "is_number_char c"
  shows "token_step l (fst (scan_number l)) (snd (scan_number l))"
  using scan_while_step[where P = is_number_char, OF assms]
  by (simp add: scan_number_def Let_def)

lemma token_step_string:
  assumes "lex_rest l = c # cs"
  shows "token_step l (fst (scan_string l)) (snd (scan_string l))"
proof -
  define l1 where "l1 = lex_skip l"
  define l3 where "l3 = (let l2 = scan_string_body c l1 in if \<not> lex_eof l2 then lex_skip l2 else l2)"
  have adv: "lex_advance l = (c, l1)" using assms by (simp add: lex_advance_def l1_def)
  have short: "length (lex_rest l1) < length (lex_rest l)"
    unfolding l1_def using assms by (intro lex_advance_shorter) (simp add: lex_eof_def)
  have "reached l1 l3"
    unfolding l3_def Let_def by (auto intro: reached_trans[OF reached_scan_string_body])
  moreover from this have "reached l l3"
    unfolding l1_def by (rule reached_trans[OF reached_skip])
  moreover have "scan_string l = (mk_token String_literal
      (substr (lex_rest l) 1 (size_sub (size_sub (lex_pos l3) (lex_pos l)) 2)) (lex_pos l), l3)"
    by (simp add: scan_string_def adv l3_def Let_def)
  ultimately show ?thesis
    using reached_length[of l1 l3] short by (simp add: token_step_def)
qed

lemma token_step_symbol:
  assumes "lex_rest l = c # cs"
  shows "token_step l (fst (scan_symbol l)) (snd (scan_symbol l))"
proof -
  obtain p where l: "l = \<lparr>lex_rest = c # cs, lex_pos = p\<rparr>" using assms by (cases l) simp
  show ?thesis
    by (cases cs) (auto simp: l scan_symbol_def token_step_def reached_def Let_def)
qed

lemma token_step_scan:
  assumes "\<not> lex_eof l"
  shows "token_step l (fst (scan_token l)) (snd (scan_token l))"
proof -
  obtain c cs where l: "lex_rest l = c # cs" using assms by (auto simp: lex_eof_def neq_Nil_conv)
  then have "lex_peek l = c" by (simp add: lex_peek_def)
  then show ?thesis
    using l by (auto simp: scan_token_def Let_def is_ident_char_def is_number_char_def is_alnum_def
        intro: token_step_identifier token_step_number token_step_string token_step_symbol)
qed

lemma scan_token_shorter:
  "\<not> lex_eof l \<Longrightarrow> length (lex_rest (snd (scan_token l))) < length (lex_rest l)"
  using token_step_scan by (auto simp: token_step_def)

lemma skip_whitespace_le: "length (lex_rest (skip_whitespace l)) \<le> length (lex_rest l)"
  by (simp add: skip_whitespace_def scan_while_eq length_dropWhile_le)

section \<open>The token stream\<close>

function tokenize_from :: "lexer \<Rightarrow> token list" where
  "tokenize_from l =
     (if lex_eof l then [mk_token Eof [] (lex_pos l)]
      else let l1 = skip_whitespace l in
        if lex_eof l1 then [mk_token Eof [] (lex_pos l1)]
        else let (t, l2) = scan_token l1 in t # tokenize_from l2)"
  by pat_completeness auto
termination
proof (relation "measure (length \<circ> lex_rest)", goal_cases)
  case 1
  show ?case by simp
next
  case (2 l l1 t l2)
  then show ?case
    using scan_token_shorter[of l1] skip_whitespace_le[of l] by (auto dest: sym)
qed

declare tokenize_from.simps [simp del]

definition tokenize :: "string \<Rightarrow> token list" where
  "tokenize input = tokenize_from (lexer_init input)"

lemma tokenize_from_eof: "lex_eof l \<Longrightarrow> tokenize_from l = [mk_token Eof [] (lex_pos l)]"
  by (simp add: tokenize_from.simps)

lemma tokenize_from_token:
  assumes "\<not> lex_eof (skip_whitespace l)"
  shows "tokenize_from l =
           fst (scan_token (skip_whitespace l)) # tokenize_from (snd (scan_token (skip_whitespace l)))"
proof -
  have "\<not> lex_eof l"
    using assms skip_whitespace_le[of l] by (auto simp: lex_eof_def)
  with assms show ?thesis
    by (subst tokenize_from.simps) (simp add: Let_def split: prod.split)
qed

lemma tokenize_from_blank:
  "lex_eof (skip_whitespace l) \<Longrightarrow>
     tokenize_from l = [mk_token Eof [] (lex_pos (skip_whitespace l))]"
  by (subst tokenize_from.simps)
    (auto simp: Let_def skip_whitespace_def scan_while_eq lex_eof_def)

text \<open>
  What a token stream says of its input: the input is cut into blanks and non-empty lexemes, a
  token stands where its lexeme starts, its text is the lexeme except in a string literal, and
  one \<open>Eof\<close> closes the stream at the end of the input.
\<close>

definition blank :: "string \<Rightarrow> bool" where
  "blank w \<longleftrightarrow> (\<forall>c\<in>set w. is_space c)"

inductive token_stream :: "nat \<Rightarrow> string \<Rightarrow> token list \<Rightarrow> bool" where
  stream_end: "blank w \<Longrightarrow> token_stream p w [mk_token Eof [] (p + length w)]"
| stream_token:
    "\<lbrakk>blank w; tok_position t = p + length w; tok_type t \<noteq> Eof; lexeme \<noteq> [];
      tok_type t \<noteq> String_literal \<Longrightarrow> tok_text t = lexeme;
      token_stream (p + length w + length lexeme) r ts\<rbrakk>
     \<Longrightarrow> token_stream p (w @ lexeme @ r) (t # ts)"

inductive_cases token_stream_NilE [elim!]: "token_stream p s []"

lemma blank_takeWhile [simp, intro]: "blank (takeWhile is_space s)"
  by (auto simp: blank_def dest: set_takeWhileD)

lemma tokenize_from_stream: "token_stream (lex_pos l) (lex_rest l) (tokenize_from l)"
proof (induction l rule: tokenize_from.induct)
  case (1 l)
  let ?w = "takeWhile is_space (lex_rest l)"
  let ?l1 = "skip_whitespace l"
  have l1: "lex_rest ?l1 = dropWhile is_space (lex_rest l)" "lex_pos ?l1 = lex_pos l + length ?w"
    by (simp_all add: skip_whitespace_def scan_while_eq)
  show ?case
  proof (cases "lex_eof ?l1")
    case True
    then have w: "?w = lex_rest l" using l1(1) by (metis append_Nil2 lex_eof_def takeWhile_dropWhile_id)
    then show ?thesis
      using stream_end[OF blank_takeWhile[of "lex_rest l"], of "lex_pos l", unfolded w]
      by (simp only: tokenize_from_blank[OF True] l1(2)[unfolded w])
  next
    case False
    then have nonempty: "\<not> lex_eof l" using skip_whitespace_le[of l] by (auto simp: lex_eof_def)
    obtain t l2 where tl: "scan_token ?l1 = (t, l2)" by (cases "scan_token ?l1")
    have st: "token_step ?l1 t l2" using token_step_scan[OF False] tl by simp
    then obtain x where x: "lex_rest ?l1 = x @ lex_rest l2" "lex_pos l2 = lex_pos ?l1 + length x" "x \<noteq> []"
      by (auto simp: token_step_def reached_def)
    have IH: "token_stream (lex_pos l2) (lex_rest l2) (tokenize_from l2)"
      using "1.IH"[OF nonempty refl False tl[symmetric] refl] .
    have "token_stream (lex_pos l) (?w @ x @ lex_rest l2) (t # tokenize_from l2)"
      by (rule stream_token) (use st x l1 IH in \<open>auto simp: token_step_def\<close>)
    moreover have "?w @ x @ lex_rest l2 = lex_rest l"
      using x(1) l1(1) by (metis takeWhile_dropWhile_id)
    ultimately show ?thesis
      using tokenize_from_token[OF False] tl by simp
  qed
qed

section \<open>Printing lexemes and reading them back\<close>

text \<open>
  The text of a lexeme, with a string literal between double quotes, and the lexemes that the
  lexer can produce for each token type.
\<close>

definition lexeme_src :: "token_type \<times> string \<Rightarrow> string" where
  "lexeme_src x = (if fst x = String_literal then dquote # snd x @ [dquote] else snd x)"

fun string_body_ok :: "char \<Rightarrow> string \<Rightarrow> bool" where
  "string_body_ok q [] = True"
| "string_body_ok q [c] = (c \<noteq> q \<and> c \<noteq> backslash)"
| "string_body_ok q (c # d # cs) =
     (c \<noteq> q \<and> (if c = backslash then string_body_ok q cs else string_body_ok q (d # cs)))"

fun symbol_texts :: "token_type \<Rightarrow> string list" where
  "symbol_texts Lparen = [''('']" | "symbol_texts Rparen = ['')'']"
| "symbol_texts Lbracket = [''['']" | "symbol_texts Rbracket = ['']'']"
| "symbol_texts Lbrace = [''{'']" | "symbol_texts Rbrace = [''}'']"
| "symbol_texts Colon = ['':'']" | "symbol_texts Comma = ['','']"
| "symbol_texts Arrow_right = [''->'']" | "symbol_texts Arrow_left = [''<-'']"
| "symbol_texts Dash = [''-'']" | "symbol_texts Dot = [''.'']"
| "symbol_texts Equals = [''='']"
| "symbol_texts Less_than = [''<'', ''<='']"
| "symbol_texts Greater_than = [''>'', ''>='', ''<>'']"
| "symbol_texts _ = []"

definition word_ok :: "string \<Rightarrow> bool" where
  "word_ok w = (case w of [] \<Rightarrow> False
     | c # cs \<Rightarrow> (is_alpha c \<or> c = CHR ''_'') \<and> list_all is_ident_char cs)"

definition number_ok :: "string \<Rightarrow> bool" where
  "number_ok w = (case w of [] \<Rightarrow> False | c # cs \<Rightarrow> is_digit c \<and> list_all is_number_char cs)"

text \<open>The scanner's length arithmetic does not wrap.\<close>

definition fits :: "string \<Rightarrow> bool" where
  "fits w \<longleftrightarrow> int (length w) + 2 < 2 ^ 64"

lemma fits_iff: "fits w \<longleftrightarrow> length w + 2 < 2 ^ 64"
  unfolding fits_def by auto

definition lexeme_ok :: "token_type \<times> string \<Rightarrow> bool" where
  "lexeme_ok x =
     (if fst x = String_literal
      then string_body_ok dquote (snd x) \<and> fits (snd x)
      else if fst x = Number_literal then number_ok (snd x)
      else snd x \<in> set (symbol_texts (fst x)) \<or> word_ok (snd x) \<and> keyword_type (snd x) = fst x)"

definition lexeme_of :: "token \<Rightarrow> token_type \<times> string" where
  "lexeme_of t = (tok_type t, tok_text t)"

definition render :: "(token_type \<times> string) list \<Rightarrow> string" where
  "render xs = concat (map (\<lambda>x. lexeme_src x @ '' '') xs)"

lemma scan_string_body_closed:
  "string_body_ok q b \<Longrightarrow>
     scan_string_body q \<lparr>lex_rest = b @ q # r, lex_pos = p\<rparr> = \<lparr>lex_rest = q # r, lex_pos = p + length b\<rparr>"
proof (induction q b arbitrary: p rule: string_body_ok.induct)
  case (1 q)
  then show ?case by (subst scan_string_body.simps) simp
next
  case (2 q c)
  then show ?case by (subst scan_string_body.simps, subst scan_string_body.simps) simp
next
  case (3 q c d cs)
  then show ?case
    by (cases "c = backslash") (subst scan_string_body.simps, simp)+
qed

lemma scan_string_body_open:
  "string_body_ok q b \<Longrightarrow>
     scan_string_body q \<lparr>lex_rest = b, lex_pos = p\<rparr> = \<lparr>lex_rest = [], lex_pos = p + length b\<rparr>"
proof (induction q b arbitrary: p rule: string_body_ok.induct)
  case (1 q)
  then show ?case by (subst scan_string_body.simps) simp
next
  case (2 q c)
  then show ?case by (subst scan_string_body.simps, subst scan_string_body.simps) simp
next
  case (3 q c d cs)
  then show ?case
    by (cases "c = backslash") (subst scan_string_body.simps, simp)+
qed

lemma size_sub_small:
  assumes "b \<le> a" "a - b < 2 ^ 64"
  shows "size_sub a b = a - b"
proof -
  have "(of_nat a :: u64) - of_nat b = of_nat (a - b)" using assms(1) by (simp add: of_nat_diff)
  then show ?thesis
    using assms(2) by (simp add: size_sub_def unat_of_nat take_bit_nat_eq_self_iff)
qed

lemma scan_word:
  assumes "word_ok w"
  shows "scan_token \<lparr>lex_rest = w @ CHR '' '' # r, lex_pos = p\<rparr> =
           (mk_token (keyword_type w) w p, \<lparr>lex_rest = CHR '' '' # r, lex_pos = p + length w\<rparr>)"
proof -
  obtain c cs where w: "w = c # cs" and c: "is_alpha c \<or> c = CHR ''_''"
    using assms by (auto simp: word_ok_def split: list.splits)
  have all: "\<forall>x\<in>set w. is_ident_char x"
    using assms by (auto simp: word_ok_def w list_all_iff is_ident_char_def is_alnum_def)
  have sp: "\<not> is_ident_char CHR '' ''" by (simp add: is_ident_char_def char_class_defs)
  show ?thesis
    using c takeWhile_stop[OF all sp, of r] dropWhile_stop[OF all sp, of r]
    by (simp add: scan_token_def scan_identifier_or_keyword_def scan_while_eq substr_def Let_def
        lex_peek_def w)
qed

lemma scan_number_lexeme:
  assumes "number_ok w"
  shows "scan_token \<lparr>lex_rest = w @ CHR '' '' # r, lex_pos = p\<rparr> =
           (mk_token Number_literal w p, \<lparr>lex_rest = CHR '' '' # r, lex_pos = p + length w\<rparr>)"
proof -
  obtain c cs where w: "w = c # cs" and c: "is_digit c"
    using assms by (auto simp: number_ok_def split: list.splits)
  have nota: "\<not> is_alpha c \<and> c \<noteq> CHR ''_''" using c by (auto simp: char_class_defs)
  have all: "\<forall>x\<in>set w. is_number_char x"
    using assms by (auto simp: number_ok_def w list_all_iff is_number_char_def)
  have sp: "\<not> is_number_char CHR '' ''" by (simp add: is_number_char_def char_class_defs)
  show ?thesis
    using c nota takeWhile_stop[OF all sp, of r] dropWhile_stop[OF all sp, of r]
    by (simp add: scan_token_def scan_number_def scan_while_eq substr_def Let_def
        lex_peek_def w)
qed

lemma scan_string_lexeme:
  assumes "string_body_ok dquote b" "fits b"
  shows "scan_token \<lparr>lex_rest = dquote # b @ dquote # r, lex_pos = p\<rparr> =
           (mk_token String_literal b p, \<lparr>lex_rest = r, lex_pos = p + length b + 2\<rparr>)"
proof -
  have "size_sub (size_sub (p + length b + 2) p) 2 = length b"
    using assms(2) by (simp add: fits_iff size_sub_small)
  then show ?thesis
    by (simp add: scan_token_def scan_string_def scan_string_body_closed[OF assms(1)] char_class_defs
        substr_def)
qed

lemma scan_symbol_lexeme:
  assumes "w \<in> set (symbol_texts ty)"
  shows "scan_token \<lparr>lex_rest = w @ CHR '' '' # r, lex_pos = p\<rparr> =
           (mk_token ty w p, \<lparr>lex_rest = CHR '' '' # r, lex_pos = p + length w\<rparr>)"
  using assms
  by (cases ty) (auto simp: scan_token_def scan_symbol_def char_class_defs)

lemma scan_lexeme:
  assumes "lexeme_ok (ty, w)"
  shows "scan_token \<lparr>lex_rest = lexeme_src (ty, w) @ CHR '' '' # r, lex_pos = p\<rparr> =
           (mk_token ty w p, \<lparr>lex_rest = CHR '' '' # r, lex_pos = p + length (lexeme_src (ty, w))\<rparr>)"
  using assms
  by (auto simp: lexeme_ok_def lexeme_src_def scan_number_lexeme scan_symbol_lexeme scan_word
      scan_string_lexeme split: if_splits)

lemma lexeme_src_start:
  assumes "lexeme_ok x"
  obtains c cs where "lexeme_src x = c # cs" "\<not> is_space c"
proof -
  obtain ty w where x: "x = (ty, w)" by (cases x)
  have "\<exists>c cs. lexeme_src x = c # cs \<and> \<not> is_space c"
    using assms unfolding x
    by (cases ty) (auto simp: lexeme_ok_def lexeme_src_def word_ok_def number_ok_def
        char_class_defs split: list.splits if_splits)
  then show thesis using that by blast
qed

lemma tokenize_from_render:
  assumes "\<forall>x\<in>set xs. lexeme_ok x" "blank b"
  shows "map lexeme_of (tokenize_from \<lparr>lex_rest = b @ render xs, lex_pos = p\<rparr>) = xs @ [(Eof, [])]"
  using assms
proof (induction xs arbitrary: b p)
  case Nil
  then have "lex_eof (skip_whitespace \<lparr>lex_rest = b, lex_pos = p\<rparr>)"
    by (simp add: skip_whitespace_def scan_while_eq lex_eof_def blank_def)
  then show ?case by (simp add: render_def tokenize_from_blank lexeme_of_def)
next
  case (Cons x xs)
  obtain ty w where x: "x = (ty, w)" by (cases x)
  have ok: "lexeme_ok (ty, w)" using Cons.prems x by simp
  obtain c cs where c: "lexeme_src (ty, w) = c # cs" "\<not> is_space c" by (rule lexeme_src_start[OF ok])
  let ?r = "render xs"
  have skip: "skip_whitespace \<lparr>lex_rest = b @ render ((ty, w) # xs), lex_pos = p\<rparr> =
      \<lparr>lex_rest = lexeme_src (ty, w) @ CHR '' '' # ?r, lex_pos = p + length b\<rparr>"
    using Cons.prems(2) c dropWhile_stop[of b is_space c "cs @ CHR '' '' # ?r"]
      takeWhile_stop[of b is_space c "cs @ CHR '' '' # ?r"]
    by (simp add: skip_whitespace_def scan_while_eq render_def blank_def)
  have "\<not> lex_eof (skip_whitespace \<lparr>lex_rest = b @ render ((ty, w) # xs), lex_pos = p\<rparr>)"
    unfolding skip by (simp add: lex_eof_def c)
  moreover have "blank '' ''" by (simp add: blank_def char_class_defs)
  ultimately show ?case
    using Cons.IH[of "'' ''"] Cons.prems(1)
    by (simp add: tokenize_from_token skip scan_lexeme[OF ok] x lexeme_of_def)
qed

lemma tokenize_render:
  "\<forall>x\<in>set xs. lexeme_ok x \<Longrightarrow> map lexeme_of (tokenize (render xs)) = xs @ [(Eof, [])]"
  using tokenize_from_render[of xs "[]" 0]
  by (simp add: tokenize_def lexer_init_def blank_def)

section \<open>Keywords\<close>

lemma ci_eq_upper: "ci_eq w k \<longleftrightarrow> map to_upper w = k"
  by (induction w k rule: ci_eq.induct) auto

text \<open>The keyword table that the nested switch on the length stands for.\<close>

definition keyword_table :: "(string \<times> token_type) list" where
  "keyword_table =
     [(''AS'', Keyword_as), (''SET'', Keyword_set), (''MATCH'', Keyword_match), (''WHERE'', Keyword_where),
      (''CREATE'', Keyword_create), (''RETURN'', Keyword_return), (''DELETE'', Keyword_delete),
      (''DETACH'', Keyword_delete), (''UNWIND'', Keyword_unwind)]"

lemma length_upper: "map to_upper w = k \<Longrightarrow> length w = length k"
  by auto

section \<open>Properties\<close>

text \<open>C7: the tokens of an input cut it into blanks and non-empty lexemes in order, each token
  stands at the position of its lexeme and carries its text (string literals apart, whose text is
  without the quotes), and the one \<open>Eof\<close> token is the last, at the end of the input.\<close>

theorem tokenize_covers_input: "token_stream 0 input (tokenize input)"
  using tokenize_from_stream[of "lexer_init input"] by (simp add: tokenize_def lexer_init_def)

text \<open>C8: any sequence of lexemes written out with a blank after each is read back as that
  sequence, with the types and texts it was written from.\<close>

theorem tokenize_reads_back:
  assumes "\<forall>x\<in>set xs. lexeme_ok x"
  shows "map lexeme_of (tokenize (render xs)) = xs @ [(Eof, [])]"
  by (rule tokenize_render[OF assms])

lemma tokenize_reads_back_witness:
  "map lexeme_of (tokenize (render [(Keyword_match, ''match''), (Lparen, ''(''), (Identifier, ''n''),
       (Rparen, '')''), (Less_than, ''<=''), (Number_literal, ''3.5''), (String_literal, ''a b'')])) =
     [(Keyword_match, ''match''), (Lparen, ''(''), (Identifier, ''n''),
       (Rparen, '')''), (Less_than, ''<=''), (Number_literal, ''3.5''), (String_literal, ''a b'')] @ [(Eof, [])]"
proof (rule tokenize_reads_back)
  show "\<forall>x\<in>set [(Keyword_match, ''match''), (Lparen, ''(''), (Identifier, ''n''),
       (Rparen, '')''), (Less_than, ''<=''), (Number_literal, ''3.5''), (String_literal, ''a b'')]. lexeme_ok x"
    by code_simp
qed

text \<open>Keywords are recognised in any mixture of cases, and no other word is: the switch on
  the length and the comparisons of \<open>ci_eq\<close> are the keyword table read on the upper-case word.\<close>

theorem keyword_type_table:
  "keyword_type w = (case map_of keyword_table (map to_upper w) of None \<Rightarrow> Identifier | Some ty \<Rightarrow> ty)"
  by (auto simp: keyword_type_def keyword_table_def ci_eq_upper dest: length_upper)

text \<open>A string literal that the input does not close is accepted without an error and loses
  its last character.\<close>

lemma scan_string_unterminated:
  assumes "string_body_ok q b" "q = squote \<or> q = dquote" "b \<noteq> []" "length b < 2 ^ 63"
  shows "tokenize (q # b) = [mk_token String_literal (butlast b) 0, mk_token Eof [] (Suc (length b))]"
proof -
  have "size_sub (size_sub (Suc (length b)) 0) 2 = length b - 1"
    using assms(3,4) by (cases b) (simp_all add: size_sub_small)
  then have tok: "scan_string \<lparr>lex_rest = q # b, lex_pos = 0\<rparr> =
      (mk_token String_literal (butlast b) 0, \<lparr>lex_rest = [], lex_pos = Suc (length b)\<rparr>)"
    by (simp add: scan_string_def scan_string_body_open[OF assms(1)] substr_def butlast_conv_take Let_def)
  have skip: "skip_whitespace \<lparr>lex_rest = q # b, lex_pos = 0\<rparr> = \<lparr>lex_rest = q # b, lex_pos = 0\<rparr>"
    using assms(2) by (auto simp: skip_whitespace_def scan_while_eq char_class_defs)
  have "scan_token \<lparr>lex_rest = q # b, lex_pos = 0\<rparr> = scan_string \<lparr>lex_rest = q # b, lex_pos = 0\<rparr>"
    using assms(2) by (auto simp: scan_token_def char_class_defs)
  then show ?thesis
    unfolding tokenize_def lexer_init_def
    by (subst tokenize_from_token) (simp_all add: skip tok tokenize_from_eof)
qed

lemma scan_string_unterminated_witness:
  "tokenize [squote, CHR ''B'', CHR ''o'', CHR ''b''] =
     [mk_token String_literal ''Bo'' 0, mk_token Eof [] 4]"
  using scan_string_unterminated[of squote "''Bob''"] by simp

end
