(* ===== verification/Parser.thy ===== *)
theory Parser
  imports Ast Lexer
begin

text \<open>
  The recursive-descent parser of \<open>core/parser.cpp\<close>.  The object's \<open>tokens_\<close> from \<open>pos_\<close> on
  is the token list every function takes and returns; a thrown \<open>std::runtime_error\<close> is
  \<open>Inl\<close> of its message.  The loops of the code are the recursive functions
  \<open>parse_elements\<close>, \<open>parse_entries\<close>, \<open>parse_props_loop\<close>, \<open>parse_path_loop\<close> and the
  comma-separated loops of each clause.
\<close>

type_synonym 'a parsed = "string + ('a \<times> token list)"

abbreviation bindE :: "('e + 'a) \<Rightarrow> ('a \<Rightarrow> 'e + 'b) \<Rightarrow> 'e + 'b" where
  "bindE m f \<equiv> (case m of Inl e \<Rightarrow> Inl e | Inr x \<Rightarrow> f x)"

definition quoted :: "string \<Rightarrow> string" where
  "quoted s = squote # s @ [squote]"

definition p_peek :: "token list \<Rightarrow> token" where
  "p_peek ts = (case ts of [] \<Rightarrow> mk_token Eof [] 0 | t # us \<Rightarrow> t)"

definition p_advance :: "token list \<Rightarrow> token \<times> token list" where
  "p_advance ts = (case ts of [] \<Rightarrow> (mk_token Eof [] 0, []) | t # us \<Rightarrow> (t, us))"

abbreviation peek_type :: "token list \<Rightarrow> token_type" where
  "peek_type ts \<equiv> tok_type (p_peek ts)"

abbreviation p_tail :: "token list \<Rightarrow> token list" where
  "p_tail ts \<equiv> snd (p_advance ts)"

abbreviation p_text :: "token list \<Rightarrow> string" where
  "p_text ts \<equiv> tok_text (fst (p_advance ts))"

definition p_match :: "token_type \<Rightarrow> token list \<Rightarrow> bool \<times> token list" where
  "p_match ty ts = (if peek_type ts = ty then (True, p_tail ts) else (False, ts))"

definition p_consume :: "token_type \<Rightarrow> string \<Rightarrow> token list \<Rightarrow> token parsed" where
  "p_consume ty msg ts =
     (if peek_type ts = ty then Inr (p_advance ts)
      else Inl (msg @ '' Got: '' @ tok_text (p_peek ts)))"

lemma p_simps [simp]:
  "p_peek (t # ts) = t" "p_advance (t # ts) = (t, ts)"
  "p_peek [] = mk_token Eof [] 0" "p_advance [] = (mk_token Eof [] 0, [])"
  by (simp_all add: p_peek_def p_advance_def)

lemma p_match_simps [simp]:
  "p_match ty (t # ts) = (if tok_type t = ty then (True, ts) else (False, t # ts))"
  by (simp add: p_match_def)

lemma p_consume_simps [simp]:
  "tok_type t = ty \<Longrightarrow> p_consume ty msg (t # ts) = Inr (t, ts)"
  by (simp add: p_consume_def)

lemma p_tail_le: "length (p_tail ts) \<le> length ts"
  by (cases ts) auto

lemma p_tail_less: "peek_type ts \<noteq> Eof \<Longrightarrow> length (p_tail ts) < length ts"
  by (cases ts) auto

lemma p_match_le: "p_match ty ts = (b, us) \<Longrightarrow> length us \<le> length ts"
  using p_tail_le[of ts] by (auto simp: p_match_def split: if_splits)

lemma p_match_less: "p_match ty ts = (True, us) \<Longrightarrow> ty \<noteq> Eof \<Longrightarrow> length us < length ts"
  using p_tail_less[of ts] by (auto simp: p_match_def split: if_splits)

lemma p_match_snd_le: "length (snd (p_match ty ts)) \<le> length ts"
  using p_tail_le[of ts] by (simp add: p_match_def)

lemma p_match_pair_less [dest]:
  "(True, us) = p_match ty ts \<Longrightarrow> ty \<noteq> Eof \<Longrightarrow> length us < length ts"
  by (metis p_match_less)

lemma bindE_InrE:
  assumes "bindE m f = Inr y"
  obtains x where "m = Inr x" "f x = Inr y"
  using assms by (cases m) auto

lemma p_consume_less: "p_consume ty msg ts = Inr (t, us) \<Longrightarrow> ty \<noteq> Eof \<Longrightarrow> length us < length ts"
  using p_tail_less[of ts] by (auto simp: p_consume_def split: if_splits)

section \<open>Expressions\<close>

function parse_expression :: "token list \<Rightarrow> expression parsed"
  and parse_elements :: "token list \<Rightarrow> (expression list) parsed"
  and parse_entries :: "token list \<Rightarrow> property_map \<Rightarrow> property_map parsed"
where
  "parse_expression ts =
     (if peek_type ts = Lbracket then
        bindE (parse_elements (p_tail ts)) (\<lambda>(es, ts1).
        bindE (p_consume Rbracket (''Expected '' @ quoted '']'' @ '' in list literal'') ts1) (\<lambda>(_, ts2).
        Inr (List_literal es, ts2)))
      else if peek_type ts = Lbrace then
        bindE (parse_entries (p_tail ts) []) (\<lambda>(m, ts1).
        bindE (p_consume Rbrace (''Expected '' @ quoted ''}'' @ '' in map literal'') ts1) (\<lambda>(_, ts2).
        Inr (Map_literal m, ts2)))
      else if peek_type ts = Identifier then
        (let name = p_text ts; ts1 = p_tail ts in
         if peek_type ts1 = Dot then
           (let ts2 = p_tail ts1 in
            if peek_type ts2 = Identifier then Inr (Property_access name (p_text ts2), p_tail ts2)
            else Inl (''Expected property name after '' @ quoted ''.''))
         else Inr (Variable name, ts1))
      else if peek_type ts = String_literal then Inr (Literal (p_text ts) True, p_tail ts)
      else if peek_type ts = Number_literal then Inr (Literal (p_text ts) False, p_tail ts)
      else Inl (''Unexpected expression token: '' @ tok_text (p_peek ts)))"
| "parse_elements ts =
     (if peek_type ts \<noteq> Rbracket \<and> peek_type ts \<noteq> Eof then
        bindE (parse_expression ts) (\<lambda>(e, ts1).
        let (more, ts2) = p_match Comma ts1 in
        if more then bindE (parse_elements ts2) (\<lambda>(es, ts3). Inr (e # es, ts3))
        else Inr ([e], ts2))
      else Inr ([], ts))"
| "parse_entries ts m =
     (if peek_type ts \<noteq> Rbrace \<and> peek_type ts \<noteq> Eof then
        bindE (p_consume Identifier ''Expected key in map literal'' ts) (\<lambda>(k, ts1).
        bindE (p_consume Colon (''Expected '' @ quoted '':'' @ '' in map literal'') ts1) (\<lambda>(_, ts2).
        bindE (parse_expression ts2) (\<lambda>(e, ts3).
        let m' = map_put (tok_text k) e m; (more, ts4) = p_match Comma ts3 in
        if more then parse_entries ts4 m' else Inr (m', ts4))))
      else Inr (m, ts))"
  by pat_completeness auto

text \<open>
  The recursive calls after an element start where the element ended, so termination needs
  that parsing consumes tokens: proved on the domain first.
\<close>

lemma parse_consumes_dom:
  "parse_expression_parse_elements_parse_entries_dom (Inl ts) \<Longrightarrow>
     (\<forall>e us. parse_expression ts = Inr (e, us) \<longrightarrow> length us < length ts)"
  "parse_expression_parse_elements_parse_entries_dom (Inr (Inl ts')) \<Longrightarrow>
     (\<forall>es us. parse_elements ts' = Inr (es, us) \<longrightarrow> length us \<le> length ts')"
  "parse_expression_parse_elements_parse_entries_dom (Inr (Inr (ts'', m))) \<Longrightarrow>
     (\<forall>m' us. parse_entries ts'' m = Inr (m', us) \<longrightarrow> length us \<le> length ts'')"
proof (induction ts and ts' and ts'' m rule: parse_expression_parse_elements_parse_entries.pinduct)
  case (1 ts)
  show ?case
    using 1 p_tail_less[of ts] p_tail_le[of "p_tail ts"] p_tail_le[of "p_tail (p_tail ts)"]
    by (fastforce simp: parse_expression.psimps Let_def split: sum.splits if_splits
        dest: p_consume_less)
next
  case (2 ts)
  show ?case
  proof (intro allI impI)
    fix es us assume eq: "parse_elements ts = Inr (es, us)"
    show "length us \<le> length ts"
    proof (cases "peek_type ts \<noteq> Rbracket \<and> peek_type ts \<noteq> Eof")
      case False
      then show ?thesis using eq 2(1) by (auto simp: parse_elements.psimps)
    next
      case guard: True
      then obtain e ts1 where e: "parse_expression ts = Inr (e, ts1)"
        using eq 2(1) by (auto simp: parse_elements.psimps split: sum.splits)
      obtain b ts2 where m: "p_match Comma ts1 = (b, ts2)" by (cases "p_match Comma ts1")
      have "length ts2 \<le> length ts"
        using 2(2)[OF guard] e p_match_le[OF m] by fastforce
      moreover have "b \<Longrightarrow> parse_elements ts2 = Inr (tl es, us)"
        using eq 2(1) guard e m by (auto simp: parse_elements.psimps split: sum.splits)
      moreover have "\<not> b \<Longrightarrow> us = ts2"
        using eq 2(1) guard e m by (auto simp: parse_elements.psimps)
      ultimately show ?thesis
        using 2(3)[OF guard e refl m[symmetric] refl] by fastforce
    qed
  qed
next
  case (3 ts m)
  show ?case
  proof (intro allI impI)
    fix m' us assume eq: "parse_entries ts m = Inr (m', us)"
    show "length us \<le> length ts"
    proof (cases "peek_type ts \<noteq> Rbrace \<and> peek_type ts \<noteq> Eof")
      case False
      then show ?thesis using eq 3(1) by (auto simp: parse_entries.psimps)
    next
      case guard: True
      then obtain k ts1 c ts2 e ts3 where
          k: "p_consume Identifier ''Expected key in map literal'' ts = Inr (k, ts1)" and
          c: "p_consume Colon (''Expected '' @ quoted '':'' @ '' in map literal'') ts1 = Inr (c, ts2)" and
          e: "parse_expression ts2 = Inr (e, ts3)"
        using eq 3(1) by (auto simp: parse_entries.psimps split: sum.splits)
      obtain b ts4 where m: "p_match Comma ts3 = (b, ts4)" by (cases "p_match Comma ts3")
      have "length ts4 \<le> length ts"
        using 3(2)[OF guard k refl c refl] e p_match_le[OF m] p_consume_less[OF k] p_consume_less[OF c]
        by fastforce
      moreover have "b \<Longrightarrow> parse_entries ts4 (map_put (tok_text k) e m) = Inr (m', us)"
        using eq 3(1) guard k c e m by (simp add: parse_entries.psimps)
      moreover have "\<not> b \<Longrightarrow> us = ts4"
        using eq 3(1) guard k c e m by (auto simp: parse_entries.psimps)
      ultimately show ?thesis
        using 3(3)[OF guard k refl c refl e refl refl m[symmetric] refl] by fastforce
    qed
  qed
qed

lemma parse_total: "All parse_expression_parse_elements_parse_entries_dom"
proof (relation "measure (\<lambda>x. case x of Inl ts \<Rightarrow> 2 * length ts
      | Inr (Inl ts) \<Rightarrow> 2 * length ts + 1 | Inr (Inr (ts, m)) \<Rightarrow> 2 * length ts + 1)", goal_cases)
  case 1
  show ?case by simp
next
  case (2 ts)
  then show ?case using p_tail_less[of ts] by simp
next
  case (3 ts)
  then show ?case using p_tail_less[of ts] by simp
next
  case (4 ts)
  then show ?case by simp
next
  case (5 ts)
  then show ?case using parse_consumes_dom(1)[of ts] by (auto dest!:)
next
  case (6 ts m)
  then show ?case by (auto dest!: p_consume_less)
next
  case (7 ts m)
  then show ?case using parse_consumes_dom(1) by (fastforce dest!: p_consume_less)
qed

termination parse_expression
  by (rule parse_total)

declare parse_expression.simps [simp del] parse_elements.simps [simp del] parse_entries.simps [simp del]

lemma parse_expression_less: "parse_expression ts = Inr (e, us) \<Longrightarrow> length us < length ts"
  using parse_consumes_dom(1) parse_total by simp

section \<open>The loops over comma-separated items\<close>

text \<open>
  Four clauses share the loop \<open>do { item } while (match(comma))\<close>, and map literals and
  property maps share the loop over \<open>key : value\<close> entries.  The two locales are those loops'
  interfaces; each clause's loop is an interpretation.  \<open>reads ok p xs v\<close> says that \<open>p\<close> turns
  the lexemes \<open>xs\<close> into \<open>v\<close> wherever the tokens that follow are \<open>ok\<close>.
\<close>

definition reads ::
  "(token list \<Rightarrow> bool) \<Rightarrow> (token list \<Rightarrow> 'a parsed) \<Rightarrow> (token_type \<times> string) list \<Rightarrow> 'a \<Rightarrow> bool"
where
  "reads ok p xs v \<longleftrightarrow> (\<forall>us rest. map lexeme_of us = xs \<longrightarrow> ok rest \<longrightarrow> p (us @ rest) = Inr (v, rest))"

lemma readsD: "reads ok p xs v \<Longrightarrow> map lexeme_of us = xs \<Longrightarrow> ok rest \<Longrightarrow> p (us @ rest) = Inr (v, rest)"
  by (simp add: reads_def)

lemma readsI:
  "(\<And>us rest. map lexeme_of us = xs \<Longrightarrow> ok rest \<Longrightarrow> p (us @ rest) = Inr (v, rest)) \<Longrightarrow> reads ok p xs v"
  by (simp add: reads_def)

lemma reads_mono: "reads ok p xs v \<Longrightarrow> (\<And>r. ok' r \<Longrightarrow> ok r) \<Longrightarrow> reads ok' p xs v"
  by (simp add: reads_def)

abbreviation comma_lex :: "token_type \<times> string" where
  "comma_lex \<equiv> (Comma, '','')"

fun comma_join :: "(token_type \<times> string) list list \<Rightarrow> (token_type \<times> string) list" where
  "comma_join [] = []"
| "comma_join [x] = x"
| "comma_join (x # y # zs) = x @ comma_lex # comma_join (y # zs)"

lemma comma_token: "lexeme_of t = comma_lex \<Longrightarrow> p_match Comma (t # ts) = (True, ts)"
  by (simp add: lexeme_of_def)

lemma p_match_other: "peek_type ts \<noteq> ty \<Longrightarrow> p_match ty ts = (False, ts)"
  by (simp add: p_match_def)

locale comma_loop =
  fixes item :: "token list \<Rightarrow> 'a parsed"
    and loop :: "token list \<Rightarrow> ('a list) parsed"
  assumes item_less: "item ts = Inr (x, us) \<Longrightarrow> length us < length ts"
    and loop_eq: "loop ts =
      bindE (item ts) (\<lambda>(x, ts1).
      let (more, ts2) = p_match Comma ts1 in
      if more then bindE (loop ts2) (\<lambda>(xs, ts3). Inr (x # xs, ts3)) else Inr ([x], ts2))"
begin

lemma loop_less: "loop ts = Inr (xs, us) \<Longrightarrow> length us < length ts"
proof (induction "length ts" arbitrary: ts xs us rule: less_induct)
  case less
  obtain x ts1 where x: "item ts = Inr (x, ts1)"
    using less.prems loop_eq[of ts] by (auto elim!: bindE_InrE)
  obtain b ts2 where m: "p_match Comma ts1 = (b, ts2)" by (cases "p_match Comma ts1")
  show ?case
  proof (cases b)
    case True
    then obtain ys where "loop ts2 = Inr (ys, us)"
      using less.prems loop_eq[of ts] x m by (auto elim!: bindE_InrE)
    moreover have "length ts2 < length ts" using item_less[OF x] p_match_le[OF m] by simp
    ultimately show ?thesis using less.hyps less_trans by blast
  next
    case False
    then show ?thesis
      using less.prems loop_eq[of ts] x m item_less[OF x] p_match_le[OF m] by auto
  qed
qed

lemma loop_all:
  assumes "loop ts = Inr (xs, us)" and item: "\<And>ts x us. item ts = Inr (x, us) \<Longrightarrow> P x"
  shows "xs \<noteq> [] \<and> (\<forall>x\<in>set xs. P x)"
  using assms(1)
proof (induction "length ts" arbitrary: ts xs us rule: less_induct)
  case less
  obtain x ts1 where x: "item ts = Inr (x, ts1)"
    using less.prems loop_eq[of ts] by (auto elim!: bindE_InrE)
  obtain b ts2 where m: "p_match Comma ts1 = (b, ts2)" by (cases "p_match Comma ts1")
  show ?case
  proof (cases b)
    case True
    then obtain ys where ys: "loop ts2 = Inr (ys, us)" "xs = x # ys"
      using less.prems loop_eq[of ts] x m by (auto elim!: bindE_InrE)
    moreover have "length ts2 < length ts" using item_less[OF x] p_match_le[OF m] by simp
    ultimately show ?thesis using less.hyps item[OF x] by auto
  next
    case False
    then show ?thesis using less.prems loop_eq[of ts] x m item[OF x] by auto
  qed
qed

lemma loop_reads:
  assumes "\<forall>x\<in>set xs. reads ok item (src x) x" "xs \<noteq> []"
    and comma: "\<And>r. peek_type r = Comma \<Longrightarrow> ok r"
  shows "reads (\<lambda>r. ok r \<and> peek_type r \<noteq> Comma) loop (comma_join (map src xs)) xs"
  using assms(1,2)
proof (induction xs)
  case Nil
  then show ?case by simp
next
  case (Cons x xs)
  show ?case
  proof (rule readsI)
    fix us rest
    assume us: "map lexeme_of us = comma_join (map src (x # xs))"
      and rest: "ok rest \<and> peek_type rest \<noteq> Comma"
    show "loop (us @ rest) = Inr (x # xs, rest)"
    proof (cases xs)
      case Nil
      then have "item (us @ rest) = Inr (x, rest)"
        using us rest Cons.prems by (auto intro: readsD)
      then show ?thesis using Nil rest by (simp add: loop_eq[of "us @ rest"] p_match_other)
    next
      case more: (Cons y ys)
      then obtain vs t ws where us_eq: "us = vs @ t # ws" and vs: "map lexeme_of vs = src x"
          and t: "lexeme_of t = comma_lex" and ws: "map lexeme_of ws = comma_join (map src xs)"
        using us by (auto simp: map_eq_append_conv map_eq_Cons_conv)
      have "item (vs @ t # ws @ rest) = Inr (x, t # ws @ rest)"
        using Cons.prems vs t comma by (auto intro!: readsD[of ok] simp: lexeme_of_def)
      moreover have "loop (ws @ rest) = Inr (xs, rest)"
        using readsD[OF Cons.IH ws rest] Cons.prems more by simp
      ultimately show ?thesis
        using t by (simp add: us_eq loop_eq[of "vs @ t # ws @ rest"] lexeme_of_def)
    qed
  qed
qed

end

locale entry_loop =
  fixes loop :: "token list \<Rightarrow> property_map \<Rightarrow> property_map parsed"
    and key_msg colon_msg :: string
  assumes loop_stop: "peek_type ts = Rbrace \<Longrightarrow> loop ts m = Inr (m, ts)"
    and loop_step: "peek_type ts \<noteq> Rbrace \<Longrightarrow> peek_type ts \<noteq> Eof \<Longrightarrow> loop ts m =
      bindE (p_consume Identifier key_msg ts) (\<lambda>(k, ts1).
      bindE (p_consume Colon colon_msg ts1) (\<lambda>(_, ts2).
      bindE (parse_expression ts2) (\<lambda>(e, ts3).
      let m' = map_put (tok_text k) e m; (more, ts4) = p_match Comma ts3 in
      if more then loop ts4 m' else Inr (m', ts4))))"
begin

lemma entries_read:
  assumes "\<forall>p\<in>set ps. reads (\<lambda>r. peek_type r \<noteq> Dot) parse_expression (src (snd p)) (snd p)"
  shows "reads (\<lambda>r. peek_type r = Rbrace) (\<lambda>ts. loop ts m)
           (comma_join (map (\<lambda>p. (Identifier, fst p) # (Colon, '':'') # src (snd p)) ps))
           (fold (\<lambda>(k, v) m. map_put k v m) ps m)"
  using assms
proof (induction ps arbitrary: m)
  case Nil
  show ?case by (rule readsI) (simp add: loop_stop)
next
  case (Cons p ps)
  obtain k e where p: "p = (k, e)" by (cases p)
  let ?src = "\<lambda>p. (Identifier, fst p) # (Colon, '':'') # src (snd p)"
  have e: "reads (\<lambda>r. peek_type r \<noteq> Dot) parse_expression (src e) e" using Cons.prems p by simp
  show ?case
  proof (rule readsI)
    fix us rest
    assume us: "map lexeme_of us = comma_join (map ?src (p # ps))" and rest: "peek_type rest = Rbrace"
    show "loop (us @ rest) m = Inr (fold (\<lambda>(k, v) m. map_put k v m) (p # ps) m, rest)"
    proof (cases ps)
      case Nil
      then obtain t c vs where us_eq: "us = t # c # vs" and t: "lexeme_of t = (Identifier, k)"
          and c: "lexeme_of c = (Colon, '':'')" and vs: "map lexeme_of vs = src e"
        using us p by (auto simp: map_eq_Cons_conv)
      have "parse_expression (vs @ rest) = Inr (e, rest)"
        using readsD[OF e vs] rest by simp
      then show ?thesis
        using Nil t c rest p by (simp add: loop_step us_eq lexeme_of_def p_match_other)
    next
      case more: (Cons q qs)
      then obtain t c vs d ws where us_eq: "us = t # c # vs @ d # ws" and t: "lexeme_of t = (Identifier, k)"
          and c: "lexeme_of c = (Colon, '':'')" and vs: "map lexeme_of vs = src e"
          and d: "lexeme_of d = comma_lex" and ws: "map lexeme_of ws = comma_join (map ?src ps)"
        using us p by (auto simp: map_eq_append_conv map_eq_Cons_conv)
      have "parse_expression (vs @ d # ws @ rest) = Inr (e, d # ws @ rest)"
        using readsD[OF e vs] d by (simp add: lexeme_of_def)
      moreover have "loop (ws @ rest) (map_put k e m) =
          Inr (fold (\<lambda>(k, v) m. map_put k v m) ps (map_put k e m), rest)"
        using readsD[OF Cons.IH ws rest] Cons.prems by simp
      ultimately show ?thesis
        using t c d p by (simp add: loop_step us_eq lexeme_of_def)
    qed
  qed
qed

end

interpretation entries: entry_loop parse_entries "''Expected key in map literal''"
  "''Expected '' @ quoted '':'' @ '' in map literal''"
  by unfold_locales (subst parse_entries.simps, simp)+

section \<open>Patterns\<close>

text \<open>\<open>parse_properties_map\<close> and its loop, which stops on \<open>}\<close> only.\<close>

function parse_props_loop :: "token list \<Rightarrow> property_map \<Rightarrow> property_map parsed" where
  "parse_props_loop ts m =
     (if peek_type ts \<noteq> Rbrace then
        bindE (p_consume Identifier ''Expected property key'' ts) (\<lambda>(k, ts1).
        bindE (p_consume Colon (''Expected '' @ quoted '':'') ts1) (\<lambda>(_, ts2).
        bindE (parse_expression ts2) (\<lambda>(e, ts3).
        let m' = map_put (tok_text k) e m; (more, ts4) = p_match Comma ts3 in
        if more then parse_props_loop ts4 m' else Inr (m', ts4))))
      else Inr (m, ts))"
  by pat_completeness auto
termination
  by (relation "measure (\<lambda>(ts, m). length ts)")
    (auto dest!: p_consume_less parse_expression_less)

declare parse_props_loop.simps [simp del]

definition parse_properties_map :: "token list \<Rightarrow> property_map parsed" where
  "parse_properties_map ts =
     bindE (p_consume Lbrace (''Expected '' @ quoted ''{'') ts) (\<lambda>(_, ts1).
     bindE (parse_props_loop ts1 []) (\<lambda>(m, ts2).
     bindE (p_consume Rbrace (''Expected '' @ quoted ''}'') ts2) (\<lambda>(_, ts3).
     Inr (m, ts3))))"

interpretation props: entry_loop parse_props_loop "''Expected property key''" "''Expected '' @ quoted '':''"
  by unfold_locales (subst parse_props_loop.simps, simp)+

text \<open>The optional name and the optional \<open>: label\<close> that nodes and relationships share.\<close>

definition optional_identifier :: "token list \<Rightarrow> string \<times> token list" where
  "optional_identifier ts =
     (if peek_type ts = Identifier then (p_text ts, p_tail ts) else ([], ts))"

definition optional_label :: "token list \<Rightarrow> string \<times> token list" where
  "optional_label ts =
     (let (colon, ts1) = p_match Colon ts in
      if colon then optional_identifier ts1 else ([], ts1))"

definition optional_props :: "token list \<Rightarrow> property_map parsed" where
  "optional_props ts = (if peek_type ts = Lbrace then parse_properties_map ts else Inr ([], ts))"

definition parse_node_pattern :: "token list \<Rightarrow> pattern_node parsed" where
  "parse_node_pattern ts =
     bindE (p_consume Lparen (''Expected '' @ quoted ''('' @ '' for node'') ts) (\<lambda>(_, ts1).
     let (var, ts2) = optional_identifier ts1; (lbl, ts3) = optional_label ts2 in
     bindE (optional_props ts3) (\<lambda>(props, ts4).
     bindE (p_consume Rparen (''Expected '' @ quoted '')'' @ '' for node'') ts4) (\<lambda>(_, ts5).
     Inr (\<lparr>node_variable = var, node_label = lbl, node_props = props\<rparr>, ts5))))"

definition parse_relationship_pattern :: "token list \<Rightarrow> pattern_relationship parsed" where
  "parse_relationship_pattern ts =
     (let (left_arrow, ts1) = p_match Arrow_left ts;
          (_, ts2) = (if \<not> left_arrow then p_match Dash ts1 else (False, ts1));
          (bracket, ts3) = p_match Lbracket ts2 in
      bindE
        (if bracket then
           let (var, ts4) = optional_identifier ts3; (lbl, ts5) = optional_label ts4 in
           bindE (optional_props ts5) (\<lambda>(props, ts6).
           bindE (p_consume Rbracket (''Expected '' @ quoted '']'') ts6) (\<lambda>(_, ts7).
           Inr (empty_rel\<lparr>rel_variable := var, rel_type := lbl, rel_props := props\<rparr>, ts7)))
         else Inr (empty_rel, ts3)) (\<lambda>(rel, ts8).
      let (right_arrow, ts9) = p_match Arrow_right ts8;
          ts10 = (if \<not> right_arrow then snd (p_match Dash ts9) else ts9)
      in Inr (rel\<lparr>rel_direction :=
                    (if left_arrow then ''<-'' else if right_arrow then ''->'' else ''-'')\<rparr>, ts10)))"

lemma parse_props_loop_le: "parse_props_loop ts m = Inr (m', us) \<Longrightarrow> length us \<le> length ts"
proof (induction ts m rule: parse_props_loop.induct)
  case (1 ts m)
  show ?case
  proof (cases "peek_type ts = Rbrace")
    case True
    with 1 show ?thesis by (auto simp: parse_props_loop.simps)
  next
    case False
    then obtain k ts1 c ts2 e ts3 where
        k: "p_consume Identifier ''Expected property key'' ts = Inr (k, ts1)" and
        c: "p_consume Colon (''Expected '' @ quoted '':'') ts1 = Inr (c, ts2)" and
        e: "parse_expression ts2 = Inr (e, ts3)"
      using 1(2) by (auto simp: parse_props_loop.simps[of ts m] split: sum.splits)
    obtain b ts4 where m: "p_match Comma ts3 = (b, ts4)" by (cases "p_match Comma ts3")
    have "length ts4 \<le> length ts"
      using p_consume_less[OF k] p_consume_less[OF c] parse_expression_less[OF e] p_match_le[OF m]
      by simp
    moreover have "b \<Longrightarrow> length us \<le> length ts4"
      using 1(1)[OF False k refl c refl e refl refl m[symmetric] refl] 1(2) False k c e m
      by (simp add: parse_props_loop.simps[of ts m])
    moreover have "\<not> b \<Longrightarrow> us = ts4"
      using 1(2) False k c e m by (auto simp: parse_props_loop.simps[of ts m])
    ultimately show ?thesis by fastforce
  qed
qed

lemma optional_le:
  "optional_identifier ts = (v, us) \<Longrightarrow> length us \<le> length ts"
  "optional_label ts = (v, us) \<Longrightarrow> length us \<le> length ts"
  using p_tail_le[of ts]
  by (auto simp: optional_label_def optional_identifier_def split: if_splits prod.splits
      dest!: p_match_le intro: le_trans[OF p_tail_le])

lemma optional_props_le: "optional_props ts = Inr (m, us) \<Longrightarrow> length us \<le> length ts"
  by (auto simp: optional_props_def parse_properties_map_def split: prod.split_asm if_split_asm elim!: bindE_InrE
      dest!: p_consume_less parse_props_loop_le)

lemma parse_node_less: "parse_node_pattern ts = Inr (n, us) \<Longrightarrow> length us < length ts"
  by (auto simp: parse_node_pattern_def Let_def split: prod.split_asm elim!: bindE_InrE
      dest!: p_consume_less optional_le optional_props_le)

lemma parse_relationship_le: "parse_relationship_pattern ts = Inr (r, us) \<Longrightarrow> length us \<le> length ts"
  by (auto simp: parse_relationship_pattern_def Let_def split: prod.split_asm if_split_asm elim!: bindE_InrE
      dest!: p_consume_less optional_le optional_props_le p_match_le
      intro!: le_trans[OF p_match_snd_le])

text \<open>\<open>parse_pattern_path\<close>: the node in hand is \<open>path.elements.back()\<close>.\<close>

function parse_path_loop :: "pattern_node \<Rightarrow> token list \<Rightarrow> pattern_path parsed" where
  "parse_path_loop n ts =
     (if peek_type ts = Dash \<or> peek_type ts = Arrow_left then
        bindE (parse_relationship_pattern ts) (\<lambda>(rel, ts1).
        bindE (parse_node_pattern ts1) (\<lambda>(n', ts2).
        bindE (parse_path_loop n' ts2) (\<lambda>(es, ts3).
        Inr (\<lparr>elem_node = n, elem_rel = Some rel\<rparr> # es, ts3))))
      else Inr ([\<lparr>elem_node = n, elem_rel = None\<rparr>], ts))"
  by pat_completeness auto
termination
  by (relation "measure (\<lambda>(n, ts). length ts)")
    (auto dest!: parse_relationship_le parse_node_less)

declare parse_path_loop.simps [simp del]

definition parse_pattern_path :: "token list \<Rightarrow> pattern_path parsed" where
  "parse_pattern_path ts = bindE (parse_node_pattern ts) (\<lambda>(n, ts1). parse_path_loop n ts1)"

lemma parse_path_loop_le: "parse_path_loop n ts = Inr (p, us) \<Longrightarrow> length us \<le> length ts"
proof (induction n ts arbitrary: p rule: parse_path_loop.induct)
  case (1 n ts)
  show ?case
  proof (cases "peek_type ts = Dash \<or> peek_type ts = Arrow_left")
    case False
    with 1(2) show ?thesis by (auto simp: parse_path_loop.simps)
  next
    case True
    then obtain rel ts1 n' ts2 es where
        r: "parse_relationship_pattern ts = Inr (rel, ts1)" and
        n': "parse_node_pattern ts1 = Inr (n', ts2)" and
        es: "parse_path_loop n' ts2 = Inr (es, us)"
      using 1(2) by (auto simp: parse_path_loop.simps[of n ts] split: sum.splits)
    show ?thesis
      using 1(1)[OF True r refl n' refl es] parse_relationship_le[OF r] parse_node_less[OF n'] by simp
  qed
qed

lemma parse_pattern_path_less: "parse_pattern_path ts = Inr (p, us) \<Longrightarrow> length us < length ts"
  by (auto simp: parse_pattern_path_def split: prod.split_asm elim!: bindE_InrE dest!: parse_node_less parse_path_loop_le)

section \<open>Clauses\<close>

text \<open>The loop \<open>do ... while (match(comma))\<close> over an item parser, which consumes tokens.\<close>

function parse_paths :: "token list \<Rightarrow> (pattern_path list) parsed" where
  "parse_paths ts =
     bindE (parse_pattern_path ts) (\<lambda>(p, ts1).
     let (more, ts2) = p_match Comma ts1 in
     if more then bindE (parse_paths ts2) (\<lambda>(ps, ts3). Inr (p # ps, ts3)) else Inr ([p], ts2))"
  by pat_completeness auto
termination
  by (relation "measure length") (auto dest!: parse_pattern_path_less)

definition parse_create :: "token list \<Rightarrow> clause parsed" where
  "parse_create ts = bindE (parse_paths ts) (\<lambda>(ps, ts1). Inr (Create_clause ps, ts1))"

definition parse_match :: "token list \<Rightarrow> clause parsed" where
  "parse_match ts = bindE (parse_paths ts) (\<lambda>(ps, ts1). Inr (Match_clause ps, ts1))"

definition parse_return_item :: "token list \<Rightarrow> return_item parsed" where
  "parse_return_item ts =
     bindE (parse_expression ts) (\<lambda>(e, ts1).
     let (as, ts2) = p_match Keyword_as ts1;
         (alias, ts3) = (if as then optional_identifier ts2 else ([], ts2))
     in Inr (\<lparr>item_expr = e, item_alias = alias\<rparr>, ts3))"

lemma parse_return_item_less: "parse_return_item ts = Inr (i, us) \<Longrightarrow> length us < length ts"
  by (auto simp: parse_return_item_def Let_def split: prod.split_asm if_split_asm elim!: bindE_InrE
      dest!: parse_expression_less p_match_le optional_le)

function parse_return_items :: "token list \<Rightarrow> (return_item list) parsed" where
  "parse_return_items ts =
     bindE (parse_return_item ts) (\<lambda>(i, ts1).
     let (more, ts2) = p_match Comma ts1 in
     if more then bindE (parse_return_items ts2) (\<lambda>(is, ts3). Inr (i # is, ts3)) else Inr ([i], ts2))"
  by pat_completeness auto
termination
  by (relation "measure length") (auto dest!: parse_return_item_less)

definition parse_return :: "token list \<Rightarrow> clause parsed" where
  "parse_return ts = bindE (parse_return_items ts) (\<lambda>(is, ts1). Inr (Return_clause is, ts1))"

text \<open>The legacy fields are set when the left side is a property access; \<open>value\<close> and
  \<open>condition->right\<close> are then one object.\<close>

definition where_of :: "expression \<Rightarrow> string \<Rightarrow> expression \<Rightarrow> where_clause" where
  "where_of l op r =
     (case l of
        Property_access v k \<Rightarrow>
          \<lparr>where_condition = Binary l op r, where_variable = v, where_property = k,
           where_op = op, where_val = Shared_right\<rparr>
      | _ \<Rightarrow>
          \<lparr>where_condition = Binary l op r, where_variable = [], where_property = [],
           where_op = [], where_val = No_value\<rparr>)"

definition is_comparison :: "token_type \<Rightarrow> bool" where
  "is_comparison ty \<longleftrightarrow> ty = Equals \<or> ty = Less_than \<or> ty = Greater_than"

definition parse_where :: "token list \<Rightarrow> clause parsed" where
  "parse_where ts =
     bindE (parse_expression ts) (\<lambda>(l, ts1).
     if is_comparison (peek_type ts1) then
       (let op = p_text ts1 in
        bindE (parse_expression (p_tail ts1)) (\<lambda>(r, ts2). Inr (Where_clause (where_of l op r), ts2)))
     else Inr (Where_clause \<lparr>where_condition = l, where_variable = [], where_property = [],
                where_op = [], where_val = No_value\<rparr>, ts1))"

definition parse_delete_var :: "token list \<Rightarrow> string parsed" where
  "parse_delete_var ts =
     (if peek_type ts = Identifier then Inr (p_text ts, p_tail ts)
      else Inl ''Expected variable name in DELETE clause'')"

lemma parse_delete_var_less: "parse_delete_var ts = Inr (v, us) \<Longrightarrow> length us < length ts"
  using p_tail_less[of ts] by (auto simp: parse_delete_var_def split: if_split_asm)

function parse_delete_vars :: "token list \<Rightarrow> (string list) parsed" where
  "parse_delete_vars ts =
     bindE (parse_delete_var ts) (\<lambda>(v, ts1).
     let (more, ts2) = p_match Comma ts1 in
     if more then bindE (parse_delete_vars ts2) (\<lambda>(vs, ts3). Inr (v # vs, ts3)) else Inr ([v], ts2))"
  by pat_completeness auto
termination
  by (relation "measure length") (auto dest!: parse_delete_var_less)

definition parse_delete_impl :: "bool \<Rightarrow> token list \<Rightarrow> clause parsed" where
  "parse_delete_impl detach ts =
     bindE (parse_delete_vars ts) (\<lambda>(vs, ts1). Inr (Delete_clause vs detach, ts1))"

definition parse_assignment :: "token list \<Rightarrow> assignment parsed" where
  "parse_assignment ts =
     (if peek_type ts \<noteq> Identifier then Inl ''Expected variable name in SET clause''
      else let var = p_text ts in
        bindE (p_consume Dot (''Expected '' @ quoted ''.'' @ '' in SET clause'') (p_tail ts)) (\<lambda>(_, ts1).
        if peek_type ts1 \<noteq> Identifier then Inl ''Expected property name in SET clause''
        else let prop = p_text ts1 in
          bindE (p_consume Equals (''Expected '' @ quoted ''='' @ '' in SET clause'') (p_tail ts1)) (\<lambda>(_, ts2).
          bindE (parse_expression ts2) (\<lambda>(e, ts3).
          Inr (\<lparr>asgn_variable = var, asgn_property = prop, asgn_value = e\<rparr>, ts3)))))"

lemma parse_assignment_less: "parse_assignment ts = Inr (a, us) \<Longrightarrow> length us < length ts"
  using p_tail_le[of ts]
  by (auto simp: parse_assignment_def Let_def split: prod.split_asm if_split_asm elim!: bindE_InrE
      dest!: p_consume_less parse_expression_less less_le_trans[OF _ p_tail_le])

function parse_assignments :: "token list \<Rightarrow> (assignment list) parsed" where
  "parse_assignments ts =
     bindE (parse_assignment ts) (\<lambda>(a, ts1).
     let (more, ts2) = p_match Comma ts1 in
     if more then bindE (parse_assignments ts2) (\<lambda>(as, ts3). Inr (a # as, ts3)) else Inr ([a], ts2))"
  by pat_completeness auto
termination
  by (relation "measure length") (auto dest!: parse_assignment_less)

definition parse_set :: "token list \<Rightarrow> clause parsed" where
  "parse_set ts = bindE (parse_assignments ts) (\<lambda>(as, ts1). Inr (Set_clause as, ts1))"

definition parse_unwind :: "token list \<Rightarrow> clause parsed" where
  "parse_unwind ts =
     bindE (parse_expression ts) (\<lambda>(e, ts1).
     bindE (p_consume Keyword_as ''Expected AS in UNWIND clause'' ts1) (\<lambda>(_, ts2).
     bindE (p_consume Identifier ''Expected alias in UNWIND clause'' ts2) (\<lambda>(a, ts3).
     Inr (Unwind_clause e (tok_text a), ts3))))"

interpretation paths: comma_loop parse_pattern_path parse_paths
  by unfold_locales (erule parse_pattern_path_less, rule parse_paths.simps)

interpretation items: comma_loop parse_return_item parse_return_items
  by unfold_locales (erule parse_return_item_less, rule parse_return_items.simps)

interpretation vars: comma_loop parse_delete_var parse_delete_vars
  by unfold_locales (erule parse_delete_var_less, rule parse_delete_vars.simps)

interpretation asgns: comma_loop parse_assignment parse_assignments
  by unfold_locales (erule parse_assignment_less, rule parse_assignments.simps)

declare parse_paths.simps [simp del] parse_return_items.simps [simp del]
  parse_delete_vars.simps [simp del] parse_assignments.simps [simp del]

definition parse_clause :: "token list \<Rightarrow> clause parsed" where
  "parse_clause ts =
     (if peek_type ts = Keyword_create then parse_create (p_tail ts)
      else if peek_type ts = Keyword_match then parse_match (p_tail ts)
      else if peek_type ts = Keyword_return then parse_return (p_tail ts)
      else if peek_type ts = Keyword_where then parse_where (p_tail ts)
      else if peek_type ts = Keyword_delete then
        (let upper = map to_upper (p_text ts); detach = (upper = ''DETACH'') in
         if detach then
           bindE (p_consume Keyword_delete
               (''Expected '' @ quoted ''DELETE'' @ '' after '' @ quoted ''DETACH'') (p_tail ts))
             (\<lambda>(_, ts1). parse_delete_impl detach ts1)
         else parse_delete_impl detach (p_tail ts))
      else if peek_type ts = Keyword_set then parse_set (p_tail ts)
      else if peek_type ts = Keyword_unwind then parse_unwind (p_tail ts)
      else Inl (''Unexpected token at start of clause: '' @ tok_text (p_peek ts)))"

text \<open>A clause consumes tokens, so the loop of \<open>parse\<close> ends.\<close>

lemmas clause_item_less =
  paths.loop_less items.loop_less vars.loop_less asgns.loop_less parse_expression_less p_consume_less

lemma parse_clause_less:
  assumes "parse_clause ts = Inr (c, us)"
  shows "length us < length ts"
proof -
  have "peek_type ts \<noteq> Eof"
    using assms by (auto simp: parse_clause_def)
  then have "length (p_tail ts) < length ts" by (rule p_tail_less)
  then show ?thesis
    using assms
    by (auto simp: parse_clause_def parse_create_def parse_match_def parse_return_def parse_where_def
        parse_delete_impl_def parse_set_def parse_unwind_def Let_def
        split: if_split_asm elim!: bindE_InrE
        dest!: clause_item_less less_le_trans[OF _ p_tail_le])
qed

function parse_loop :: "token list \<Rightarrow> string + statement" where
  "parse_loop ts =
     (if peek_type ts \<noteq> Eof then
        bindE (parse_clause ts) (\<lambda>(c, ts1). bindE (parse_loop ts1) (\<lambda>cs. Inr (c # cs)))
      else Inr [])"
  by pat_completeness auto
termination
  by (relation "measure length") (auto dest: parse_clause_less)

declare parse_loop.simps [simp del]

definition parse :: "token list \<Rightarrow> string + statement" where
  "parse ts = parse_loop ts"

definition parse_query :: "string \<Rightarrow> string + statement" where
  \<comment> \<open>the two lines the service runs: \<open>lexer lexer(q); parser parser(lexer.tokenize()); parser.parse()\<close>\<close>
  "parse_query q = parse (tokenize q)"

section \<open>The shape of what the parser returns\<close>

text \<open>
  A tree of the parser has sorted maps, binary expressions only as a WHERE condition, non-empty
  item lists, paths in which exactly the last node has no relationship, and legacy WHERE fields
  that repeat the condition.
\<close>

fun plain_expr :: "expression \<Rightarrow> bool" where
  "plain_expr (Binary l op r) = False"
| "plain_expr (List_literal es) = (\<forall>e\<in>set es. plain_expr e)"
| "plain_expr (Map_literal m) = (sorted_map m \<and> (\<forall>p\<in>set m. plain_expr (snd p)))"
| "plain_expr _ = True"

definition plain_props :: "property_map \<Rightarrow> bool" where
  "plain_props m \<longleftrightarrow> plain_expr (Map_literal m)"

fun path_shape :: "pattern_path \<Rightarrow> bool" where
  "path_shape [] = False"
| "path_shape [e] = (plain_props (node_props (elem_node e)) \<and> elem_rel e = None)"
| "path_shape (e # f # es) =
     (plain_props (node_props (elem_node e))
      \<and> (case elem_rel e of None \<Rightarrow> False
          | Some r \<Rightarrow> plain_props (rel_props r) \<and> rel_direction r \<in> {''->'', ''<-'', ''-''})
      \<and> path_shape (f # es))"

fun clause_shape :: "clause \<Rightarrow> bool" where
  "clause_shape (Create_clause ps) = (ps \<noteq> [] \<and> (\<forall>p\<in>set ps. path_shape p))"
| "clause_shape (Match_clause ps) = (ps \<noteq> [] \<and> (\<forall>p\<in>set ps. path_shape p))"
| "clause_shape (Return_clause is) = (is \<noteq> [] \<and> (\<forall>i\<in>set is. plain_expr (item_expr i)))"
| "clause_shape (Where_clause w) =
     (case where_condition w of
        Binary l op r \<Rightarrow> plain_expr l \<and> plain_expr r \<and> w = where_of l op r
      | e \<Rightarrow> plain_expr e \<and> where_variable w = [] \<and> where_property w = [] \<and> where_val w = No_value)"
| "clause_shape (Delete_clause vs d) = (vs \<noteq> [])"
| "clause_shape (Set_clause as) = (as \<noteq> [] \<and> (\<forall>a\<in>set as. plain_expr (asgn_value a)))"
| "clause_shape (Unwind_clause e a) = plain_expr e"

lemma plain_put:
  "plain_expr (Map_literal m) \<Longrightarrow> plain_expr e \<Longrightarrow> plain_expr (Map_literal (map_put k e m))"
proof -
  have "set (map_put k e m) \<subseteq> insert (k, e) (set m)"
    by (induction k e m rule: map_put.induct) auto
  then show "plain_expr (Map_literal m) \<Longrightarrow> plain_expr e \<Longrightarrow> plain_expr (Map_literal (map_put k e m))"
    by (auto simp: sorted_map_put)
qed

lemma parse_plain:
  "parse_expression ts = Inr (e, us) \<Longrightarrow> plain_expr e"
  "parse_elements ts' = Inr (es, us') \<Longrightarrow> \<forall>e\<in>set es. plain_expr e"
  "parse_entries ts'' m = Inr (m', us'') \<Longrightarrow> plain_expr (Map_literal m) \<Longrightarrow> plain_expr (Map_literal m')"
proof (induction ts and ts' and ts'' m arbitrary: e us and es us' and m' us''
    rule: parse_expression_parse_elements_parse_entries.induct)
  case (1 ts)
  have "plain_expr (Map_literal [])" by simp
  with 1 show ?case
    by (auto simp: parse_expression.simps[of ts] Let_def simp del: plain_expr.simps(3)
        split: if_split_asm elim!: bindE_InrE)
next
  case (2 ts)
  show ?case
  proof (cases "peek_type ts \<noteq> Rbracket \<and> peek_type ts \<noteq> Eof")
    case False
    then show ?thesis using 2(3) by (auto simp: parse_elements.simps[of ts])
  next
    case guard: True
    then obtain x ts1 where x: "parse_expression ts = Inr (x, ts1)"
      using 2(3) by (auto simp: parse_elements.simps[of ts] elim!: bindE_InrE)
    obtain b ts2 where m: "p_match Comma ts1 = (b, ts2)" by (cases "p_match Comma ts1")
    show ?thesis
      using 2(3) guard x m 2(1)[OF guard x] 2(2)[OF guard x refl m[symmetric] refl]
      by (auto simp: parse_elements.simps[of ts] split: if_split_asm elim!: bindE_InrE)
  qed
next
  case (3 ts m)
  show ?case
  proof (cases "peek_type ts \<noteq> Rbrace \<and> peek_type ts \<noteq> Eof")
    case False
    then show ?thesis using 3(3,4) by (auto simp: parse_entries.simps[of ts])
  next
    case guard: True
    then obtain k ts1 c ts2 x ts3 where
        k: "p_consume Identifier ''Expected key in map literal'' ts = Inr (k, ts1)" and
        c: "p_consume Colon (''Expected '' @ quoted '':'' @ '' in map literal'') ts1 = Inr (c, ts2)" and
        x: "parse_expression ts2 = Inr (x, ts3)"
      using 3(3) by (auto simp: parse_entries.simps[of ts] elim!: bindE_InrE)
    obtain b ts4 where m: "p_match Comma ts3 = (b, ts4)" by (cases "p_match Comma ts3")
    have x': "plain_expr (Map_literal (map_put (tok_text k) x m))"
      using 3(1)[OF guard k refl c refl x] 3(4) by (rule plain_put[rotated])
    show ?thesis
    proof (cases b)
      case True
      then show ?thesis
        using 3(2)[OF guard k refl c refl x refl refl m[symmetric] refl True _ x'] 3(3) guard k c x m
        by (simp add: parse_entries.simps[of ts])
    next
      case False
      then show ?thesis
        using 3(3) guard k c x m x' by (simp add: parse_entries.simps[of ts])
    qed
  qed
qed

lemma parse_props_loop_plain:
  "parse_props_loop ts m = Inr (m', us) \<Longrightarrow> plain_expr (Map_literal m) \<Longrightarrow> plain_expr (Map_literal m')"
proof (induction ts m rule: parse_props_loop.induct)
  case (1 ts m)
  show ?case
  proof (cases "peek_type ts = Rbrace")
    case True
    with 1(2,3) show ?thesis by (simp add: parse_props_loop.simps)
  next
    case False
    then obtain k ts1 c ts2 e ts3 where
        k: "p_consume Identifier ''Expected property key'' ts = Inr (k, ts1)" and
        c: "p_consume Colon (''Expected '' @ quoted '':'') ts1 = Inr (c, ts2)" and
        e: "parse_expression ts2 = Inr (e, ts3)"
      using 1(2) by (auto simp: parse_props_loop.simps[of ts m] elim!: bindE_InrE)
    obtain b ts4 where m: "p_match Comma ts3 = (b, ts4)" by (cases "p_match Comma ts3")
    have e': "plain_expr (Map_literal (map_put (tok_text k) e m))"
      using parse_plain(1)[OF e] 1(3) by (rule plain_put[rotated])
    show ?thesis
    proof (cases b)
      case True
      then show ?thesis
        using 1(1)[OF False k refl c refl e refl refl m[symmetric] refl True _ e'] 1(2) False k c e m
        by (simp add: parse_props_loop.simps[of ts m])
    next
      case False': False
      then show ?thesis
        using 1(2) False k c e m e' by (simp add: parse_props_loop.simps[of ts m])
    qed
  qed
qed

lemma optional_props_plain: "optional_props ts = Inr (m, us) \<Longrightarrow> plain_props m"
proof -
  have empty: "plain_expr (Map_literal [])" by simp
  show "optional_props ts = Inr (m, us) \<Longrightarrow> plain_props m"
    using parse_props_loop_plain[OF _ empty]
    by (auto simp: optional_props_def parse_properties_map_def plain_props_def
        simp del: plain_expr.simps split: if_split_asm elim!: bindE_InrE)
      (simp_all add: empty)
qed

lemma parse_node_plain: "parse_node_pattern ts = Inr (n, us) \<Longrightarrow> plain_props (node_props n)"
  by (auto simp: parse_node_pattern_def split: prod.split_asm elim!: bindE_InrE
      dest!: optional_props_plain)

lemma parse_rel_plain:
  "parse_relationship_pattern ts = Inr (r, us) \<Longrightarrow>
     plain_props (rel_props r) \<and> rel_direction r \<in> {''->'', ''<-'', ''-''}"
proof -
  have "plain_props []" by (simp add: plain_props_def)
  then show "parse_relationship_pattern ts = Inr (r, us) \<Longrightarrow>
     plain_props (rel_props r) \<and> rel_direction r \<in> {''->'', ''<-'', ''-''}"
    by (auto simp: parse_relationship_pattern_def empty_rel_def split: prod.split_asm if_split_asm
        elim!: bindE_InrE dest!: optional_props_plain)
qed

lemma parse_path_loop_shape:
  "parse_path_loop n ts = Inr (p, us) \<Longrightarrow> plain_props (node_props n) \<Longrightarrow> path_shape p"
proof (induction n ts arbitrary: p rule: parse_path_loop.induct)
  case (1 n ts)
  show ?case
  proof (cases "peek_type ts = Dash \<or> peek_type ts = Arrow_left")
    case False
    with 1(2,3) show ?thesis by (auto simp: parse_path_loop.simps)
  next
    case True
    then obtain rel ts1 n' ts2 es where
        r: "parse_relationship_pattern ts = Inr (rel, ts1)" and
        n': "parse_node_pattern ts1 = Inr (n', ts2)" and
        es: "parse_path_loop n' ts2 = Inr (es, us)" and
        p: "p = \<lparr>elem_node = n, elem_rel = Some rel\<rparr> # es"
      using 1(2) by (auto simp: parse_path_loop.simps[of n ts] elim!: bindE_InrE)
    have "path_shape es" using 1(1)[OF True r refl n' refl es parse_node_plain[OF n']] .
    then show ?thesis using p parse_rel_plain[OF r] 1(3) by (cases es) auto
  qed
qed

lemma parse_path_shape: "parse_pattern_path ts = Inr (p, us) \<Longrightarrow> path_shape p"
  by (auto simp: parse_pattern_path_def elim!: bindE_InrE intro: parse_path_loop_shape parse_node_plain)

lemma parse_clause_shape:
  assumes "parse_clause ts = Inr (c, us)"
  shows "clause_shape c"
proof -
  have item: "parse_return_item ts = Inr (i, us) \<Longrightarrow> plain_expr (item_expr i)" for ts i us
    by (auto simp: parse_return_item_def split: prod.split_asm elim!: bindE_InrE dest!: parse_plain(1))
  have asgn: "parse_assignment ts = Inr (a, us) \<Longrightarrow> plain_expr (asgn_value a)" for ts a us
    by (auto simp: parse_assignment_def Let_def split: if_split_asm elim!: bindE_InrE dest!: parse_plain(1))
  have wh: "parse_where ts = Inr (c, us) \<Longrightarrow> clause_shape c" for ts c us
    by (auto simp: parse_where_def Let_def where_of_def split: if_split_asm expression.splits
        elim!: bindE_InrE dest!: parse_plain(1)) force
  have vars: "parse_delete_vars ts \<noteq> Inr ([], us)" for ts us
    using vars.loop_all[where P = "\<lambda>_. True"] by blast
  show ?thesis
    using assms
    by (auto simp: parse_clause_def parse_create_def parse_match_def parse_return_def
        parse_delete_impl_def parse_set_def parse_unwind_def Let_def vars
        split: if_split_asm elim!: bindE_InrE
        dest: paths.loop_all[where P = path_shape, OF _ parse_path_shape]
          items.loop_all[where P = "\<lambda>i. plain_expr (item_expr i)", OF _ item]
          asgns.loop_all[where P = "\<lambda>a. plain_expr (asgn_value a)", OF _ asgn] parse_plain(1) wh)
qed

lemma parse_loop_shape: "parse_loop ts = Inr s \<Longrightarrow> \<forall>c\<in>set s. clause_shape c"
proof (induction ts arbitrary: s rule: parse_loop.induct)
  case (1 ts)
  then show ?case
    by (subst (asm) (2) parse_loop.simps)
      (auto split: if_split_asm elim!: bindE_InrE dest: parse_clause_shape)
qed

section \<open>Properties\<close>

text \<open>C6: whatever text the parser accepts, every clause of the statement has the shape the
  executor reads: lists of paths, items, variables and assignments are not empty, a path ends in
  its only node without a relationship, a relationship has one of the three directions, maps have
  strictly increasing keys, only a WHERE condition is a binary expression, and a WHERE
  clause has either a value or a variable as condition.\<close>

theorem parse_query_shape:
  assumes "parse_query input = Inr s"
  shows "\<forall>c\<in>set s. clause_shape c"
  using assms unfolding parse_query_def parse_def by (rule parse_loop_shape)

lemma parse_query_shape_witness:
  "list_all clause_shape (projr (parse_query ''MATCH (n:Person)-[:KNOWS]->(m) WHERE n.age > 30 RETURN m''))"
  unfolding list_all_iff
proof (rule parse_query_shape)
  show "parse_query ''MATCH (n:Person)-[:KNOWS]->(m) WHERE n.age > 30 RETURN m'' =
    Inr (projr (parse_query ''MATCH (n:Person)-[:KNOWS]->(m) WHERE n.age > 30 RETURN m''))"
    by code_simp
qed

end
