(* ===== verification/Printer.thy ===== *)
theory Printer
  imports Parser
begin

text \<open>
  The grammar the parser accepts, stated as a printer: \<open>statement_lexemes\<close> writes a syntax
  tree as the lexemes of a query, \<open>statement_ok\<close> says which trees a query can denote, and the
  parser inverts the printer on them.  This is the parser's specification: nothing here models
  code of its own.
\<close>

abbreviation sym :: "token_type \<Rightarrow> token_type \<times> string" where
  "sym ty \<equiv> (ty, hd (symbol_texts ty))"

definition ident_ok :: "string \<Rightarrow> bool" where
  "ident_ok w \<longleftrightarrow> word_ok w \<and> keyword_type w = Identifier"

lemma map_append2E:
  assumes "map f us = a @ b"
  obtains x y where "us = x @ y" "map f x = a" "map f y = b"
  using assms by (metis map_eq_append_conv)

lemma map_append3E:
  assumes "map f us = a @ b @ c"
  obtains x y z where "us = x @ y @ z" "map f x = a" "map f y = b" "map f z = c"
  using assms by (metis map_eq_append_conv)

section \<open>Expressions\<close>

fun printable :: "expression \<Rightarrow> bool" where
  "printable (Variable n) = ident_ok n"
| "printable (Literal v is_str) =
     (if is_str then string_body_ok dquote v \<and> fits v else number_ok v)"
| "printable (Property_access v k) = (ident_ok v \<and> ident_ok k)"
| "printable (Binary l op r) = False"
| "printable (List_literal es) = (\<forall>e\<in>set es. printable e)"
| "printable (Map_literal m) = (sorted_map m \<and> (\<forall>p\<in>set m. ident_ok (fst p) \<and> printable (snd p)))"

definition printable_props :: "property_map \<Rightarrow> bool" where
  "printable_props m \<longleftrightarrow> sorted_map m \<and> (\<forall>p\<in>set m. ident_ok (fst p) \<and> printable (snd p))"

fun expr_lexemes :: "expression \<Rightarrow> (token_type \<times> string) list" where
  "expr_lexemes (Variable n) = [(Identifier, n)]"
| "expr_lexemes (Literal v is_str) = [(if is_str then String_literal else Number_literal, v)]"
| "expr_lexemes (Property_access v k) = [(Identifier, v), sym Dot, (Identifier, k)]"
| "expr_lexemes (Binary l op r) = []"
| "expr_lexemes (List_literal es) = sym Lbracket # comma_join (map expr_lexemes es) @ [sym Rbracket]"
| "expr_lexemes (Map_literal m) =
     sym Lbrace # comma_join (map (\<lambda>p. (Identifier, fst p) # (Colon, '':'') # expr_lexemes (snd p)) m)
       @ [sym Rbrace]"

definition props_lexemes :: "property_map \<Rightarrow> (token_type \<times> string) list" where
  "props_lexemes m = expr_lexemes (Map_literal m)"

abbreviation not_dot :: "token list \<Rightarrow> bool" where
  "not_dot r \<equiv> peek_type r \<noteq> Dot"

lemma expr_lexemes_start:
  "printable e \<Longrightarrow> \<exists>x xs. expr_lexemes e = x # xs
     \<and> fst x \<in> {Identifier, String_literal, Number_literal, Lbracket, Lbrace}"
  by (cases e) auto

lemma parse_elements_reads:
  assumes "\<forall>e\<in>set es. printable e \<and> reads not_dot parse_expression (expr_lexemes e) e"
  shows "reads (\<lambda>r. peek_type r = Rbracket) parse_elements (comma_join (map expr_lexemes es)) es"
  using assms
proof (induction es)
  case Nil
  show ?case by (rule readsI) (simp add: parse_elements.simps)
next
  case (Cons e es)
  have e: "reads not_dot parse_expression (expr_lexemes e) e" and pe: "printable e"
    using Cons.prems by simp_all
  show ?case
  proof (rule readsI)
    fix us rest
    assume us: "map lexeme_of us = comma_join (map expr_lexemes (e # es))"
      and rest: "peek_type rest = Rbracket"
    obtain vs ws where us_eq: "us = vs @ ws" and vs: "map lexeme_of vs = expr_lexemes e"
        and ws: "map lexeme_of ws = (if es = [] then [] else comma_lex # comma_join (map expr_lexemes es))"
      using us by (cases es) (auto simp: map_eq_append_conv map_eq_Cons_conv)
    have start: "peek_type (vs @ r) \<noteq> Rbracket \<and> peek_type (vs @ r) \<noteq> Eof" for r
      using expr_lexemes_start[OF pe] vs by (cases vs) (auto simp: lexeme_of_def)
    show "parse_elements (us @ rest) = Inr (e # es, rest)"
    proof (cases es)
      case Nil
      then have "parse_expression (us @ rest) = Inr (e, rest)"
        using readsD[OF e vs, of rest] rest us_eq ws by simp
      then show ?thesis
        using Nil start[of rest] rest us_eq ws
        by (simp add: parse_elements.simps[of "vs @ rest"] p_match_other)
    next
      case (Cons f fs)
      then obtain t xs where ws_eq: "ws = t # xs" and t: "lexeme_of t = comma_lex"
          and xs: "map lexeme_of xs = comma_join (map expr_lexemes es)"
        using ws by (auto simp: map_eq_Cons_conv)
      have "parse_expression (vs @ t # xs @ rest) = Inr (e, t # xs @ rest)"
        using readsD[OF e vs] t by (simp add: lexeme_of_def)
      moreover have "parse_elements (xs @ rest) = Inr (es, rest)"
        using readsD[OF Cons.IH xs rest] Cons.prems by simp
      ultimately show ?thesis
        using start[of "t # xs @ rest"] t
        by (simp add: us_eq ws_eq parse_elements.simps[of "vs @ t # xs @ rest"] lexeme_of_def)
    qed
  qed
qed

lemma parse_expression_reads: "printable e \<Longrightarrow> reads not_dot parse_expression (expr_lexemes e) e"
proof (induction e)
  case (Variable n)
  show ?case
    by (rule readsI) (auto simp: map_eq_Cons_conv lexeme_of_def parse_expression.simps Let_def)
next
  case (Literal v b)
  show ?case
    by (rule readsI, cases b) (auto simp: map_eq_Cons_conv lexeme_of_def parse_expression.simps)
next
  case (Property_access v k)
  show ?case
    by (rule readsI) (auto simp: map_eq_Cons_conv lexeme_of_def parse_expression.simps)
next
  case (Binary l op r)
  then show ?case by simp
next
  case (List_literal es)
  show ?case
  proof (rule readsI)
    fix us rest assume us: "map lexeme_of us = expr_lexemes (List_literal es)"
    then obtain t vs u where us_eq: "us = t # vs @ [u]" and t: "tok_type t = Lbracket"
        and u: "tok_type u = Rbracket" and vs: "map lexeme_of vs = comma_join (map expr_lexemes es)"
      by (auto simp: map_eq_append_conv map_eq_Cons_conv lexeme_of_def)
    have "parse_elements (vs @ u # rest) = Inr (es, u # rest)"
      using List_literal u by (intro readsD[OF parse_elements_reads vs]) auto
    then show "parse_expression (us @ rest) = Inr (List_literal es, rest)"
      using t u by (simp add: us_eq parse_expression.simps)
  qed
next
  case (Map_literal m)
  let ?src = "\<lambda>p. (Identifier, fst p) # (Colon, '':'') # expr_lexemes (snd p)"
  show ?case
  proof (rule readsI)
    fix us rest assume us: "map lexeme_of us = expr_lexemes (Map_literal m)"
    then obtain t vs u where us_eq: "us = t # vs @ [u]" and t: "tok_type t = Lbrace"
        and u: "tok_type u = Rbrace" and vs: "map lexeme_of vs = comma_join (map ?src m)"
      by (auto simp: map_eq_append_conv map_eq_Cons_conv lexeme_of_def)
    have "\<forall>p\<in>set m. reads not_dot parse_expression (expr_lexemes (snd p)) (snd p)"
      using Map_literal by (auto simp: snds.simps)
    then have "parse_entries (vs @ u # rest) [] = Inr (fold (\<lambda>(k, v) m. map_put k v m) m [], u # rest)"
      using u by (intro readsD[OF entries.entries_read vs]) auto
    then show "parse_expression (us @ rest) = Inr (Map_literal m, rest)"
      using t u Map_literal.prems map_from_sorted[of m] by (simp add: us_eq parse_expression.simps map_from_def)
  qed
qed

lemma parse_props_reads:
  assumes "printable_props m"
  shows "reads (\<lambda>r. True) parse_properties_map (props_lexemes m) m"
proof (rule readsI)
  let ?src = "\<lambda>p. (Identifier, fst p) # (Colon, '':'') # expr_lexemes (snd p)"
  fix us rest assume us: "map lexeme_of us = props_lexemes m"
  then obtain t vs u where us_eq: "us = t # vs @ [u]" and t: "tok_type t = Lbrace"
      and u: "tok_type u = Rbrace" and vs: "map lexeme_of vs = comma_join (map ?src m)"
    by (auto simp: props_lexemes_def map_eq_append_conv map_eq_Cons_conv lexeme_of_def)
  have "\<forall>p\<in>set m. reads not_dot parse_expression (expr_lexemes (snd p)) (snd p)"
    using assms by (auto simp: printable_props_def intro: parse_expression_reads)
  then have "parse_props_loop (vs @ u # rest) [] = Inr (fold (\<lambda>(k, v) m. map_put k v m) m [], u # rest)"
    using u by (intro readsD[OF props.entries_read vs]) auto
  then show "parse_properties_map (us @ rest) = Inr (m, rest)"
    using t u assms map_from_sorted[of m]
    by (simp add: us_eq parse_properties_map_def printable_props_def map_from_def)
qed

section \<open>Patterns\<close>

text \<open>An empty property map is written as no map at all; an empty name or label likewise.\<close>

definition opt_ident :: "string \<Rightarrow> (token_type \<times> string) list" where
  "opt_ident v = (if v = [] then [] else [(Identifier, v)])"

definition opt_label :: "string \<Rightarrow> (token_type \<times> string) list" where
  "opt_label v = (if v = [] then [] else [sym Colon, (Identifier, v)])"

definition opt_props :: "property_map \<Rightarrow> (token_type \<times> string) list" where
  "opt_props m = (if m = [] then [] else props_lexemes m)"

definition body_lexemes :: "string \<Rightarrow> string \<Rightarrow> property_map \<Rightarrow> (token_type \<times> string) list" where
  "body_lexemes v l m = opt_ident v @ opt_label l @ opt_props m"

definition name_ok :: "string \<Rightarrow> bool" where
  "name_ok v \<longleftrightarrow> v = [] \<or> ident_ok v"

definition node_ok :: "pattern_node \<Rightarrow> bool" where
  "node_ok n \<longleftrightarrow> name_ok (node_variable n) \<and> name_ok (node_label n) \<and> printable_props (node_props n)"

definition rel_ok :: "pattern_relationship \<Rightarrow> bool" where
  "rel_ok r \<longleftrightarrow> name_ok (rel_variable r) \<and> name_ok (rel_type r) \<and> printable_props (rel_props r)
     \<and> rel_direction r \<in> {''->'', ''<-'', ''-''}"

definition node_lexemes :: "pattern_node \<Rightarrow> (token_type \<times> string) list" where
  "node_lexemes n =
     sym Lparen # body_lexemes (node_variable n) (node_label n) (node_props n) @ [sym Rparen]"

definition rel_lexemes :: "pattern_relationship \<Rightarrow> (token_type \<times> string) list" where
  "rel_lexemes r =
     (if rel_direction r = ''<-'' then sym Arrow_left else sym Dash)
     # sym Lbracket # body_lexemes (rel_variable r) (rel_type r) (rel_props r)
     @ [sym Rbracket, if rel_direction r = ''->'' then sym Arrow_right else sym Dash]"

text \<open>The part between the brackets, read by the three optional parsers in turn.\<close>

lemma body_reads:
  assumes "map lexeme_of us = body_lexemes v l m" "name_ok v" "name_ok l" "printable_props m"
    and rest: "peek_type rest \<notin> {Identifier, Colon, Lbrace}"
  shows "\<exists>vs ws. optional_identifier (us @ rest) = (v, vs) \<and> optional_label vs = (l, ws)
           \<and> optional_props ws = Inr (m, rest)"
proof -
  obtain a b c where us: "us = a @ b @ c" and a: "map lexeme_of a = opt_ident v"
      and b: "map lexeme_of b = opt_label l" and c: "map lexeme_of c = opt_props m"
    using assms(1) by (auto simp: body_lexemes_def map_eq_append_conv append_eq_map_conv)
  have c_start: "peek_type (c @ rest) \<notin> {Identifier, Colon}"
    using c rest by (auto simp: opt_props_def props_lexemes_def lexeme_of_def map_eq_Cons_conv split: if_splits)
  have b_start: "peek_type (b @ c @ rest) \<noteq> Identifier"
    using b c_start by (auto simp: opt_label_def lexeme_of_def map_eq_Cons_conv split: if_splits)
  have "optional_identifier (us @ rest) = (v, b @ c @ rest)"
    using a b_start
    by (auto simp: us optional_identifier_def opt_ident_def lexeme_of_def map_eq_Cons_conv split: if_splits)
  moreover have "optional_label (b @ c @ rest) = (l, c @ rest)"
    using b c_start
    by (auto simp: optional_label_def optional_identifier_def opt_label_def lexeme_of_def p_match_def
        map_eq_Cons_conv split: if_splits)
  moreover have "optional_props (c @ rest) = Inr (m, rest)"
    using readsD[OF parse_props_reads[OF assms(4)], of c rest] c rest
    by (cases "m = []")
      (auto simp: optional_props_def opt_props_def props_lexemes_def lexeme_of_def map_eq_Cons_conv)
  ultimately show ?thesis by blast
qed

lemma parse_node_reads: "node_ok n \<Longrightarrow> reads (\<lambda>r. True) parse_node_pattern (node_lexemes n) n"
proof (rule readsI)
  fix us rest assume ok: "node_ok n" and us: "map lexeme_of us = node_lexemes n"
  obtain t vs u where us_eq: "us = t # vs @ [u]" and t: "tok_type t = Lparen" and u: "tok_type u = Rparen"
      and vs: "map lexeme_of vs = body_lexemes (node_variable n) (node_label n) (node_props n)"
    using us by (auto simp: node_lexemes_def map_eq_append_conv map_eq_Cons_conv lexeme_of_def)
  obtain b c where "optional_identifier (vs @ u # rest) = (node_variable n, b)"
      "optional_label b = (node_label n, c)" "optional_props c = Inr (node_props n, u # rest)"
    using body_reads[OF vs, of "u # rest"] ok u by (auto simp: node_ok_def)
  then show "parse_node_pattern (us @ rest) = Inr (n, rest)"
    using t u by (simp add: us_eq parse_node_pattern_def)
qed

lemma parse_rel_reads:
  "rel_ok r \<Longrightarrow> reads (\<lambda>ts. True) parse_relationship_pattern (rel_lexemes r) r"
proof (rule readsI)
  fix us rest assume ok: "rel_ok r" and us: "map lexeme_of us = rel_lexemes r"
  obtain s t vs u d where us_eq: "us = s # t # vs @ [u, d]"
      and s: "tok_type s = (if rel_direction r = ''<-'' then Arrow_left else Dash)"
      and t: "tok_type t = Lbracket" and u: "tok_type u = Rbracket"
      and d: "tok_type d = (if rel_direction r = ''->'' then Arrow_right else Dash)"
      and vs: "map lexeme_of vs = body_lexemes (rel_variable r) (rel_type r) (rel_props r)"
    using us by (auto simp: rel_lexemes_def map_eq_append_conv map_eq_Cons_conv lexeme_of_def split: if_splits)
  obtain b c where body: "optional_identifier (vs @ u # d # rest) = (rel_variable r, b)"
      "optional_label b = (rel_type r, c)" "optional_props c = Inr (rel_props r, u # d # rest)"
    using body_reads[OF vs, of "u # d # rest"] ok u by (auto simp: rel_ok_def)
  show "parse_relationship_pattern (us @ rest) = Inr (r, rest)"
    using s t u d body ok
    by (cases r) (auto simp: us_eq parse_relationship_pattern_def rel_ok_def empty_rel_def Let_def)
qed

text \<open>A path ends with a node; every other node has a relationship to the next one.\<close>

fun path_ok :: "pattern_path \<Rightarrow> bool" where
  "path_ok [] = False"
| "path_ok [e] = (node_ok (elem_node e) \<and> elem_rel e = None)"
| "path_ok (e # f # es) =
     (node_ok (elem_node e) \<and> (case elem_rel e of None \<Rightarrow> False | Some r \<Rightarrow> rel_ok r) \<and> path_ok (f # es))"

fun path_lexemes :: "pattern_path \<Rightarrow> (token_type \<times> string) list" where
  "path_lexemes [] = []"
| "path_lexemes (e # es) =
     node_lexemes (elem_node e) @ (case elem_rel e of None \<Rightarrow> [] | Some r \<Rightarrow> rel_lexemes r)
     @ path_lexemes es"

abbreviation path_end :: "token list \<Rightarrow> bool" where
  "path_end r \<equiv> peek_type r \<noteq> Dash \<and> peek_type r \<noteq> Arrow_left"

lemma rel_start:
  assumes "map lexeme_of us = rel_lexemes r"
  shows "peek_type (us @ rest) = Dash \<or> peek_type (us @ rest) = Arrow_left"
  using assms by (cases us) (auto simp: rel_lexemes_def lexeme_of_def split: if_splits)

lemma parse_path_loop_reads:
  "path_ok (e # es) \<Longrightarrow>
     reads path_end (parse_path_loop (elem_node e))
       ((case elem_rel e of None \<Rightarrow> [] | Some r \<Rightarrow> rel_lexemes r) @ path_lexemes es) (e # es)"
proof (induction es arbitrary: e)
  case Nil
  then show ?case by (cases e) (auto intro!: readsI simp: parse_path_loop.simps)
next
  case (Cons f es)
  obtain n r where e: "e = \<lparr>elem_node = n, elem_rel = Some r\<rparr>" and r: "rel_ok r"
      and f: "node_ok (elem_node f)" and rest_ok: "path_ok (f # es)"
    using Cons.prems by (cases e; cases es) (auto split: option.splits)
  show ?case
  proof (rule readsI)
    fix us rest
    assume us: "map lexeme_of us =
        (case elem_rel e of None \<Rightarrow> [] | Some r \<Rightarrow> rel_lexemes r) @ path_lexemes (f # es)"
      and rest: "path_end rest"
    obtain a b c where us_eq: "us = a @ b @ c" and a: "map lexeme_of a = rel_lexemes r"
        and b: "map lexeme_of b = node_lexemes (elem_node f)"
        and c: "map lexeme_of c = (case elem_rel f of None \<Rightarrow> [] | Some r \<Rightarrow> rel_lexemes r) @ path_lexemes es"
      using us by (auto simp: e elim: map_append3E)
    have "parse_relationship_pattern (a @ b @ c @ rest) = Inr (r, b @ c @ rest)"
      using readsD[OF parse_rel_reads[OF r] a] by simp
    moreover have "parse_node_pattern (b @ c @ rest) = Inr (elem_node f, c @ rest)"
      using readsD[OF parse_node_reads[OF f] b] by simp
    moreover have "parse_path_loop (elem_node f) (c @ rest) = Inr (f # es, rest)"
      using readsD[OF Cons.IH[OF rest_ok] c rest] .
    ultimately show "parse_path_loop (elem_node e) (us @ rest) = Inr (e # f # es, rest)"
      using rel_start[OF a, of "b @ c @ rest"]
      by (simp add: us_eq e parse_path_loop.simps[of n "a @ b @ c @ rest"])
  qed
qed

lemma parse_path_reads:
  assumes "path_ok p"
  shows "reads path_end parse_pattern_path (path_lexemes p) p"
proof (rule readsI)
  fix us rest
  assume us: "map lexeme_of us = path_lexemes p" and rest: "path_end rest"
  obtain e es where p: "p = e # es" using assms by (cases p) auto
  have n: "node_ok (elem_node e)" using assms p by (cases es) auto
  obtain a b where us_eq: "us = a @ b" and a: "map lexeme_of a = node_lexemes (elem_node e)"
      and b: "map lexeme_of b = (case elem_rel e of None \<Rightarrow> [] | Some r \<Rightarrow> rel_lexemes r) @ path_lexemes es"
    using us by (auto simp: p elim: map_append2E)
  show "parse_pattern_path (us @ rest) = Inr (p, rest)"
    using readsD[OF parse_node_reads[OF n] a, of "b @ rest"]
      readsD[OF parse_path_loop_reads b rest] assms
    by (simp add: us_eq p parse_pattern_path_def)
qed

section \<open>Clauses and statements\<close>

definition cmp_type :: "string \<Rightarrow> token_type" where
  "cmp_type op =
     (if op = ''='' then Equals else if op = ''<'' \<or> op = ''<='' then Less_than else Greater_than)"

definition cmp_ok :: "string \<Rightarrow> bool" where
  "cmp_ok op \<longleftrightarrow> op \<in> {''='', ''<'', ''<='', ''>'', ''>='', ''<>''}"

definition plain_where :: "expression \<Rightarrow> where_clause" where
  "plain_where e = \<lparr>where_condition = e, where_variable = [], where_property = [],
     where_op = [], where_val = No_value\<rparr>"

fun where_ok :: "where_clause \<Rightarrow> bool" where
  "where_ok w = (case where_condition w of
       Binary l op r \<Rightarrow> printable l \<and> printable r \<and> cmp_ok op \<and> w = where_of l op r
     | e \<Rightarrow> printable e \<and> w = plain_where e)"

fun where_lexemes :: "where_clause \<Rightarrow> (token_type \<times> string) list" where
  "where_lexemes w = (case where_condition w of
       Binary l op r \<Rightarrow> expr_lexemes l @ (cmp_type op, op) # expr_lexemes r
     | e \<Rightarrow> expr_lexemes e)"

definition item_ok :: "return_item \<Rightarrow> bool" where
  "item_ok i \<longleftrightarrow> printable (item_expr i) \<and> name_ok (item_alias i)"

definition item_lexemes :: "return_item \<Rightarrow> (token_type \<times> string) list" where
  "item_lexemes i = expr_lexemes (item_expr i)
     @ (if item_alias i = [] then [] else [(Keyword_as, ''AS''), (Identifier, item_alias i)])"

definition asgn_ok :: "assignment \<Rightarrow> bool" where
  "asgn_ok a \<longleftrightarrow> ident_ok (asgn_variable a) \<and> ident_ok (asgn_property a) \<and> printable (asgn_value a)"

definition asgn_lexemes :: "assignment \<Rightarrow> (token_type \<times> string) list" where
  "asgn_lexemes a =
     [(Identifier, asgn_variable a), sym Dot, (Identifier, asgn_property a), sym Equals]
     @ expr_lexemes (asgn_value a)"

fun clause_ok :: "clause \<Rightarrow> bool" where
  "clause_ok (Create_clause ps) = (ps \<noteq> [] \<and> (\<forall>p\<in>set ps. path_ok p))"
| "clause_ok (Match_clause ps) = (ps \<noteq> [] \<and> (\<forall>p\<in>set ps. path_ok p))"
| "clause_ok (Return_clause is) = (is \<noteq> [] \<and> (\<forall>i\<in>set is. item_ok i))"
| "clause_ok (Where_clause w) = where_ok w"
| "clause_ok (Delete_clause vs d) = (vs \<noteq> [] \<and> (\<forall>v\<in>set vs. ident_ok v))"
| "clause_ok (Set_clause as) = (as \<noteq> [] \<and> (\<forall>a\<in>set as. asgn_ok a))"
| "clause_ok (Unwind_clause e a) = (printable e \<and> ident_ok a)"

fun clause_lexemes :: "clause \<Rightarrow> (token_type \<times> string) list" where
  "clause_lexemes (Create_clause ps) = (Keyword_create, ''CREATE'') # comma_join (map path_lexemes ps)"
| "clause_lexemes (Match_clause ps) = (Keyword_match, ''MATCH'') # comma_join (map path_lexemes ps)"
| "clause_lexemes (Return_clause is) = (Keyword_return, ''RETURN'') # comma_join (map item_lexemes is)"
| "clause_lexemes (Where_clause w) = (Keyword_where, ''WHERE'') # where_lexemes w"
| "clause_lexemes (Delete_clause vs d) =
     (if d then [(Keyword_delete, ''DETACH'')] else [])
     @ (Keyword_delete, ''DELETE'') # comma_join (map (\<lambda>v. [(Identifier, v)]) vs)"
| "clause_lexemes (Set_clause as) = (Keyword_set, ''SET'') # comma_join (map asgn_lexemes as)"
| "clause_lexemes (Unwind_clause e a) =
     (Keyword_unwind, ''UNWIND'') # expr_lexemes e @ [(Keyword_as, ''AS''), (Identifier, a)]"

definition statement_ok :: "statement \<Rightarrow> bool" where
  "statement_ok s \<longleftrightarrow> (\<forall>c\<in>set s. clause_ok c)"

definition statement_lexemes :: "statement \<Rightarrow> (token_type \<times> string) list" where
  "statement_lexemes s = concat (map clause_lexemes s)"

definition query_text :: "statement \<Rightarrow> string" where
  "query_text s = render (statement_lexemes s)"

definition clause_end :: "token list \<Rightarrow> bool" where
  "clause_end r \<longleftrightarrow> peek_type r \<in> {Eof, Keyword_create, Keyword_match, Keyword_return,
     Keyword_where, Keyword_delete, Keyword_set, Keyword_unwind}"

lemma clause_end_not:
  "clause_end r \<Longrightarrow> peek_type r \<notin> {Dot, Comma, Dash, Arrow_left, Keyword_as, Equals, Less_than, Greater_than, Identifier}"
  by (auto simp: clause_end_def)

text \<open>Each comma-separated body, from its interpretation of the loop.\<close>

lemma paths_read:
  assumes "ps \<noteq> []" "\<forall>p\<in>set ps. path_ok p"
  shows "reads clause_end parse_paths (comma_join (map path_lexemes ps)) ps"
proof (rule reads_mono)
  show "reads (\<lambda>r. path_end r \<and> peek_type r \<noteq> Comma) parse_paths (comma_join (map path_lexemes ps)) ps"
    by (rule paths.loop_reads) (use assms in \<open>auto intro: parse_path_reads\<close>)
qed (use clause_end_not in blast)

definition item_end :: "token list \<Rightarrow> bool" where
  "item_end r \<longleftrightarrow> peek_type r \<noteq> Dot \<and> peek_type r \<noteq> Keyword_as"

lemma item_reads: "item_ok i \<Longrightarrow> reads item_end parse_return_item (item_lexemes i) i"
proof (rule readsI)
  fix us rest assume ok: "item_ok i" and us: "map lexeme_of us = item_lexemes i" and rest: "item_end rest"
  obtain a b where us_eq: "us = a @ b" and a: "map lexeme_of a = expr_lexemes (item_expr i)"
      and b: "map lexeme_of b = (if item_alias i = [] then []
                else [(Keyword_as, ''AS''), (Identifier, item_alias i)])"
    using us by (auto simp: item_lexemes_def map_eq_append_conv append_eq_map_conv)
  have "not_dot (b @ rest)"
    using b rest by (auto simp: item_end_def map_eq_Cons_conv lexeme_of_def split: if_splits)
  then have "parse_expression (us @ rest) = Inr (item_expr i, b @ rest)"
    using ok readsD[OF parse_expression_reads a] by (simp add: us_eq item_ok_def)
  then show "parse_return_item (us @ rest) = Inr (i, rest)"
    using b rest
    by (cases i) (auto simp: parse_return_item_def item_end_def p_match_other optional_identifier_def
        map_eq_Cons_conv lexeme_of_def split: if_splits)
qed

lemma items_read:
  assumes "is \<noteq> []" "\<forall>i\<in>set is. item_ok i"
  shows "reads clause_end parse_return_items (comma_join (map item_lexemes is)) is"
proof (rule reads_mono)
  show "reads (\<lambda>r. item_end r \<and> peek_type r \<noteq> Comma) parse_return_items (comma_join (map item_lexemes is)) is"
    by (rule items.loop_reads) (use assms in \<open>auto simp: item_end_def intro: item_reads[unfolded item_end_def]\<close>)
qed (auto dest: clause_end_not simp: item_end_def)

lemma vars_read:
  assumes "vs \<noteq> []"
  shows "reads clause_end parse_delete_vars (comma_join (map (\<lambda>v. [(Identifier, v)]) vs)) vs"
proof (rule reads_mono)
  show "reads (\<lambda>r. True \<and> peek_type r \<noteq> Comma) parse_delete_vars
          (comma_join (map (\<lambda>v. [(Identifier, v)]) vs)) vs"
    by (rule vars.loop_reads)
      (use assms in \<open>auto intro!: readsI simp: parse_delete_var_def map_eq_Cons_conv lexeme_of_def\<close>)
qed (auto dest: clause_end_not)

lemma asgn_reads: "asgn_ok a \<Longrightarrow> reads not_dot parse_assignment (asgn_lexemes a) a"
proof (rule readsI)
  fix us rest assume ok: "asgn_ok a" and us: "map lexeme_of us = asgn_lexemes a" and rest: "not_dot rest"
  obtain t1 t2 t3 t4 vs where us_eq: "us = t1 # t2 # t3 # t4 # vs"
      and t: "lexeme_of t1 = (Identifier, asgn_variable a)" "tok_type t2 = Dot"
        "lexeme_of t3 = (Identifier, asgn_property a)" "tok_type t4 = Equals"
      and vs: "map lexeme_of vs = expr_lexemes (asgn_value a)"
    using us by (auto simp: asgn_lexemes_def map_eq_Cons_conv lexeme_of_def)
  have "parse_expression (vs @ rest) = Inr (asgn_value a, rest)"
    using ok readsD[OF parse_expression_reads vs rest] by (simp add: asgn_ok_def)
  then show "parse_assignment (us @ rest) = Inr (a, rest)"
    using t by (cases a) (simp add: us_eq parse_assignment_def lexeme_of_def)
qed

lemma asgns_read:
  assumes "as \<noteq> []" "\<forall>a\<in>set as. asgn_ok a"
  shows "reads clause_end parse_assignments (comma_join (map asgn_lexemes as)) as"
proof (rule reads_mono)
  show "reads (\<lambda>r. not_dot r \<and> peek_type r \<noteq> Comma) parse_assignments (comma_join (map asgn_lexemes as)) as"
    by (rule asgns.loop_reads) (use assms in \<open>auto intro: asgn_reads\<close>)
qed (auto dest: clause_end_not)

lemma where_reads: "where_ok w \<Longrightarrow> reads clause_end parse_where (where_lexemes w) (Where_clause w)"
proof (rule readsI)
  fix us rest assume ok: "where_ok w" and us: "map lexeme_of us = where_lexemes w" and rest: "clause_end rest"
  show "parse_where (us @ rest) = Inr (Where_clause w, rest)"
  proof (cases "\<exists>l op r. where_condition w = Binary l op r")
    case True
    then obtain l op r where w: "w = where_of l op r" and c: "where_condition w = Binary l op r"
        and pl: "printable l" and pr: "printable r" and op: "cmp_ok op"
      using ok by auto
    obtain a t b where us_eq: "us = a @ t # b" and a: "map lexeme_of a = expr_lexemes l"
        and t: "lexeme_of t = (cmp_type op, op)" and b: "map lexeme_of b = expr_lexemes r"
      using us c by (auto simp: map_eq_append_conv append_eq_map_conv map_eq_Cons_conv Cons_eq_map_conv)
    have cmp: "is_comparison (tok_type t)" "tok_type t \<noteq> Dot"
      using t op by (auto simp: lexeme_of_def cmp_type_def cmp_ok_def is_comparison_def)
    have "parse_expression (a @ t # b @ rest) = Inr (l, t # b @ rest)"
      using readsD[OF parse_expression_reads[OF pl] a, of "t # b @ rest"] cmp by simp
    moreover have "parse_expression (b @ rest) = Inr (r, rest)"
      using readsD[OF parse_expression_reads[OF pr] b, of rest] clause_end_not[OF rest] by simp
    ultimately show ?thesis
      using cmp t by (simp add: us_eq w parse_where_def lexeme_of_def)
  next
    case False
    then have e: "printable (where_condition w)" and w: "w = plain_where (where_condition w)"
        and us': "map lexeme_of us = expr_lexemes (where_condition w)"
      using ok us by (auto split: expression.splits)
    have "parse_expression (us @ rest) = Inr (where_condition w, rest)"
      using readsD[OF parse_expression_reads[OF e] us', of rest] clause_end_not[OF rest] by simp
    then show ?thesis
      using clause_end_not[OF rest] w
      by (simp add: parse_where_def is_comparison_def plain_where_def)
  qed
qed

lemma parse_clause_reads: "clause_ok c \<Longrightarrow> reads clause_end parse_clause (clause_lexemes c) c"
proof (rule readsI)
  fix us rest
  assume ok: "clause_ok c" and us: "map lexeme_of us = clause_lexemes c" and rest: "clause_end rest"
  show "parse_clause (us @ rest) = Inr (c, rest)"
  proof (cases c)
    case (Create_clause ps)
    then show ?thesis using ok us rest readsD[OF paths_read _ rest]
      by (auto simp: parse_clause_def parse_create_def map_eq_Cons_conv lexeme_of_def)
  next
    case (Match_clause ps)
    then show ?thesis using ok us rest readsD[OF paths_read _ rest]
      by (auto simp: parse_clause_def parse_match_def map_eq_Cons_conv lexeme_of_def)
  next
    case (Return_clause rs)
    then show ?thesis using ok us rest readsD[OF items_read _ rest]
      by (auto simp: parse_clause_def parse_return_def map_eq_Cons_conv lexeme_of_def)
  next
    case (Where_clause w)
    then have "where_ok w" using ok by simp
    then show ?thesis using Where_clause us rest readsD[OF where_reads _ rest]
      by (auto simp: parse_clause_def map_eq_Cons_conv lexeme_of_def simp del: where_ok.simps where_lexemes.simps)
  next
    case (Delete_clause vs d)
    then have nonempty: "vs \<noteq> []" using ok by simp
    have upper: "map to_upper ''DETACH'' = ''DETACH''" "map to_upper ''DELETE'' = ''DELETE''"
      by (simp_all add: to_upper_def is_lower_def)
    obtain a k ws where us_eq: "us = a @ k # ws" and k: "lexeme_of k = (Keyword_delete, ''DELETE'')"
        and a: "map lexeme_of a = (if d then [(Keyword_delete, ''DETACH'')] else [])"
        and ws: "map lexeme_of ws = comma_join (map (\<lambda>v. [(Identifier, v)]) vs)"
      using us Delete_clause by (auto simp: Cons_eq_map_conv elim!: map_append2E dest!: sym[of "_ # _"])
    have vs: "parse_delete_vars (ws @ rest) = Inr (vs, rest)"
      using readsD[OF vars_read[OF nonempty] ws rest] .
    show ?thesis
    proof (cases d)
      case True
      then obtain t where "a = [t]" "lexeme_of t = (Keyword_delete, ''DETACH'')"
        using a by (auto simp: map_eq_Cons_conv)
      then show ?thesis
        using k vs upper True Delete_clause
        by (simp add: us_eq parse_clause_def parse_delete_impl_def lexeme_of_def)
    next
      case False
      then show ?thesis
        using a k vs upper Delete_clause
        by (simp add: us_eq parse_clause_def parse_delete_impl_def lexeme_of_def)
    qed
  next
    case (Set_clause as)
    then show ?thesis using ok us rest readsD[OF asgns_read _ rest]
      by (auto simp: parse_clause_def parse_set_def map_eq_Cons_conv lexeme_of_def)
  next
    case (Unwind_clause e a)
    then obtain k vs t1 t2 where us_eq: "us = k # vs @ [t1, t2]" and k: "tok_type k = Keyword_unwind"
        and vs: "map lexeme_of vs = expr_lexemes e" and t1: "tok_type t1 = Keyword_as"
        and t2: "lexeme_of t2 = (Identifier, a)"
      using us by (auto simp: map_eq_append_conv append_eq_map_conv map_eq_Cons_conv lexeme_of_def)
    have "parse_expression (vs @ t1 # t2 # rest) = Inr (e, t1 # t2 # rest)"
      using readsD[OF parse_expression_reads vs, of "t1 # t2 # rest"] ok Unwind_clause t1 by simp
    then show ?thesis
      using k t1 t2 Unwind_clause by (simp add: us_eq parse_clause_def parse_unwind_def lexeme_of_def)
  qed
qed

text \<open>The start of a clause ends the clause before it.\<close>

lemma clause_start:
  assumes "clause_ok c" "map lexeme_of us = clause_lexemes c"
  shows "clause_end (us @ rest) \<and> peek_type (us @ rest) \<noteq> Eof"
  using assms by (cases c; cases us) (auto simp: clause_end_def lexeme_of_def split: if_splits)

lemma parse_loop_reads:
  assumes "\<forall>c\<in>set s. clause_ok c" "map lexeme_of us = concat (map clause_lexemes s)"
    and "peek_type rest = Eof"
  shows "parse_loop (us @ rest) = Inr s"
  using assms(1,2)
proof (induction s arbitrary: us)
  case Nil
  then show ?case using assms(3) by (simp add: parse_loop.simps)
next
  case (Cons c s)
  obtain a b where us_eq: "us = a @ b" and a: "map lexeme_of a = clause_lexemes c"
      and b: "map lexeme_of b = concat (map clause_lexemes s)"
    using Cons.prems by (auto elim: map_append2E)
  have c: "clause_ok c" using Cons.prems by simp
  have b_end: "clause_end (b @ rest)"
  proof (cases s)
    case Nil
    then show ?thesis using b assms(3) by (simp add: clause_end_def)
  next
    case (Cons c' s')
    then obtain x y where "b = x @ y" "map lexeme_of x = clause_lexemes c'"
      using b by (auto elim: map_append2E)
    then show ?thesis using clause_start[of c' x "y @ rest"] Cons Cons.prems by simp
  qed
  have "parse_clause (a @ b @ rest) = Inr (c, b @ rest)"
    using readsD[OF parse_clause_reads[OF c] a b_end] .
  moreover have "parse_loop (b @ rest) = Inr s"
    using Cons.IH[OF _ b] Cons.prems by simp
  ultimately show ?case
    using clause_start[OF c a, of "b @ rest"] by (simp add: us_eq parse_loop.simps[of "a @ b @ rest"])
qed

section \<open>Every printed lexeme is one the lexer returns\<close>

lemma lexeme_ok_sym: "symbol_texts ty \<noteq> [] \<Longrightarrow> lexeme_ok (sym ty)"
  by (cases ty) (auto simp: lexeme_ok_def)

lemma lexeme_ok_ident: "ident_ok v \<Longrightarrow> lexeme_ok (Identifier, v)"
  by (simp add: lexeme_ok_def ident_ok_def)

lemma lexeme_ok_keyword:
  "lexeme_ok (Keyword_create, ''CREATE'')" "lexeme_ok (Keyword_match, ''MATCH'')"
  "lexeme_ok (Keyword_return, ''RETURN'')" "lexeme_ok (Keyword_where, ''WHERE'')"
  "lexeme_ok (Keyword_delete, ''DELETE'')" "lexeme_ok (Keyword_delete, ''DETACH'')"
  "lexeme_ok (Keyword_set, ''SET'')" "lexeme_ok (Keyword_unwind, ''UNWIND'')"
  "lexeme_ok (Keyword_as, ''AS'')"
  by code_simp+

lemma lexeme_ok_cmp: "cmp_ok op \<Longrightarrow> lexeme_ok (cmp_type op, op)"
  by (auto simp: cmp_ok_def cmp_type_def lexeme_ok_def)

lemma set_comma_join: "set (comma_join xss) \<subseteq> insert comma_lex (\<Union>xs\<in>set xss. set xs)"
  by (induction xss rule: comma_join.induct) auto

lemma all_comma_join:
  assumes "\<forall>xs\<in>set xss. \<forall>x\<in>set xs. lexeme_ok x"
  shows "\<forall>x\<in>set (comma_join xss). lexeme_ok x"
  using assms set_comma_join[of xss] lexeme_ok_sym[of Comma] by auto

lemmas lexeme_oks [intro] = lexeme_ok_ident lexeme_ok_cmp

lemma printable_lexemes: "printable e \<Longrightarrow> \<forall>x\<in>set (expr_lexemes e). lexeme_ok x"
proof (induction e)
  case (List_literal es)
  then have "\<forall>x\<in>set (comma_join (map expr_lexemes es)). lexeme_ok x"
    by (intro all_comma_join) auto
  then show ?case using lexeme_ok_sym[of Lbracket] lexeme_ok_sym[of Rbracket] by auto
next
  case (Map_literal m)
  have "\<forall>x\<in>set (comma_join (map (\<lambda>p. (Identifier, fst p) # (Colon, '':'') # expr_lexemes (snd p)) m)).
      lexeme_ok x"
    using Map_literal lexeme_ok_sym[of Colon] by (intro all_comma_join) (fastforce simp: snds.simps)
  then show ?case using lexeme_ok_sym[of Lbrace] lexeme_ok_sym[of Rbrace] by auto
qed (auto simp: lexeme_ok_def ident_ok_def)

lemma body_lexemes_ok:
  assumes "name_ok v" "name_ok l" "printable_props m"
  shows "\<forall>x\<in>set (body_lexemes v l m). lexeme_ok x"
  using assms printable_lexemes[of "Map_literal m"] lexeme_ok_sym[of Colon]
  by (auto simp: body_lexemes_def opt_ident_def opt_label_def opt_props_def props_lexemes_def name_ok_def
      printable_props_def simp del: expr_lexemes.simps)

lemma node_lexemes_ok: "node_ok n \<Longrightarrow> \<forall>x\<in>set (node_lexemes n). lexeme_ok x"
  using body_lexemes_ok[of "node_variable n" "node_label n" "node_props n"]
    lexeme_ok_sym[of Lparen] lexeme_ok_sym[of Rparen]
  by (simp add: node_lexemes_def node_ok_def ball_Un)

lemma rel_lexemes_ok: "rel_ok r \<Longrightarrow> \<forall>x\<in>set (rel_lexemes r). lexeme_ok x"
  using body_lexemes_ok[of "rel_variable r" "rel_type r" "rel_props r"]
    lexeme_ok_sym[of Lbracket] lexeme_ok_sym[of Rbracket] lexeme_ok_sym[of Dash]
    lexeme_ok_sym[of Arrow_left] lexeme_ok_sym[of Arrow_right]
  by (simp add: rel_lexemes_def rel_ok_def ball_Un)

lemma path_lexemes_ok: "path_ok p \<Longrightarrow> \<forall>x\<in>set (path_lexemes p). lexeme_ok x"
proof (induction p rule: path_ok.induct)
  case (2 e)
  then show ?case using node_lexemes_ok[of "elem_node e"] by simp
next
  case (3 e f es)
  obtain r where r: "elem_rel e = Some r" "rel_ok r"
    using 3(2) by (cases "elem_rel e") simp_all
  show ?case
    using 3(2) r 3(1) node_lexemes_ok[of "elem_node e"] rel_lexemes_ok[of r]
    by (simp add: ball_Un)
qed simp

lemma clause_lexemes_ok: "clause_ok c \<Longrightarrow> \<forall>x\<in>set (clause_lexemes c). lexeme_ok x"
proof (cases c)
  case (Create_clause ps)
  assume "clause_ok c"
  then have "\<forall>x\<in>set (comma_join (map path_lexemes ps)). lexeme_ok x"
    using Create_clause path_lexemes_ok by (intro all_comma_join) auto
  then show ?thesis using Create_clause lexeme_ok_keyword by auto
next
  case (Match_clause ps)
  assume "clause_ok c"
  then have "\<forall>x\<in>set (comma_join (map path_lexemes ps)). lexeme_ok x"
    using Match_clause path_lexemes_ok by (intro all_comma_join) auto
  then show ?thesis using Match_clause lexeme_ok_keyword by auto
next
  case (Return_clause rs)
  assume "clause_ok c"
  then have "\<forall>x\<in>set (comma_join (map item_lexemes rs)). lexeme_ok x"
    using Return_clause printable_lexemes lexeme_ok_keyword
    by (intro all_comma_join) (auto simp: item_ok_def item_lexemes_def name_ok_def split: if_splits)
  then show ?thesis using Return_clause lexeme_ok_keyword by auto
next
  case (Where_clause w)
  assume "clause_ok c"
  then show ?thesis
    using Where_clause printable_lexemes lexeme_ok_keyword
    by (auto split: expression.splits simp del: expr_lexemes.simps printable.simps)
next
  case (Delete_clause vs d)
  assume "clause_ok c"
  then have "\<forall>x\<in>set (comma_join (map (\<lambda>v. [(Identifier, v)]) vs)). lexeme_ok x"
    using Delete_clause by (intro all_comma_join) auto
  then show ?thesis using Delete_clause lexeme_ok_keyword by auto
next
  case (Set_clause as)
  assume "clause_ok c"
  then have "\<forall>x\<in>set (comma_join (map asgn_lexemes as)). lexeme_ok x"
    using Set_clause printable_lexemes lexeme_ok_sym[of Dot] lexeme_ok_sym[of Equals]
    by (intro all_comma_join) (auto simp: asgn_ok_def asgn_lexemes_def)
  then show ?thesis using Set_clause lexeme_ok_keyword by auto
next
  case (Unwind_clause e a)
  assume "clause_ok c"
  then show ?thesis using Unwind_clause printable_lexemes lexeme_ok_keyword by auto
qed

lemma statement_roundtrip:
  assumes "statement_ok s"
  shows "parse_query (query_text s) = Inr s"
proof -
  have "\<forall>x\<in>set (statement_lexemes s). lexeme_ok x"
    using assms clause_lexemes_ok by (auto simp: statement_ok_def statement_lexemes_def)
  then have "map lexeme_of (tokenize (query_text s)) = statement_lexemes s @ [(Eof, [])]"
    unfolding query_text_def by (rule tokenize_render)
  then obtain us t where ts: "tokenize (query_text s) = us @ [t]"
      and us: "map lexeme_of us = statement_lexemes s" and t: "tok_type t = Eof"
    by (auto simp: map_eq_append_conv lexeme_of_def)
  show ?thesis
    using parse_loop_reads[of s us "[t]"] assms us t
    by (simp add: parse_query_def parse_def ts statement_ok_def statement_lexemes_def)
qed

section \<open>Properties\<close>

text \<open>C1: every statement that can be written in the language is read back from its text as
  itself: lexing and parsing the printed form of all seven kinds of clauses, with their paths,
  property maps, nested literals, aliases and comparisons, gives the same tree.\<close>

theorem parse_print_roundtrip:
  assumes "statement_ok s"
  shows "parse_query (query_text s) = Inr s"
  by (rule statement_roundtrip[OF assms])

definition sample_statement :: statement where
  "sample_statement =
     [Match_clause
        [[\<lparr>elem_node = \<lparr>node_variable = ''n'', node_label = ''Person'',
              node_props = [(''name'', Literal ''Ann'' True)]\<rparr>,
           elem_rel = Some \<lparr>rel_variable = ''r'', rel_type = ''KNOWS'', rel_direction = ''->'', rel_props = []\<rparr>\<rparr>,
          \<lparr>elem_node = \<lparr>node_variable = ''m'', node_label = [], node_props = []\<rparr>, elem_rel = None\<rparr>]],
      Where_clause \<lparr>where_condition = Binary (Property_access ''m'' ''age'') ''>='' (Literal ''30'' False),
        where_variable = ''m'', where_property = ''age'', where_op = ''>='', where_val = Shared_right\<rparr>,
      Set_clause [\<lparr>asgn_variable = ''m'', asgn_property = ''tags'',
        asgn_value = List_literal [Literal ''1'' False, Map_literal [(''k'', Variable ''x'')]]\<rparr>],
      Delete_clause [''r'', ''n''] True,
      Return_clause [\<lparr>item_expr = Property_access ''m'' ''age'', item_alias = ''years''\<rparr>]]"

lemma parse_print_roundtrip_witness: "parse_query (query_text sample_statement) = Inr sample_statement"
proof (rule parse_print_roundtrip)
  show "statement_ok sample_statement" by code_simp
qed

end
