(* ===== verification/Query_Cache.thy ===== *)
theory Query_Cache
  imports Graph_Prelude
begin

text \<open>
  The LRU cache of parsed statements, \<open>query_cache\<close> in \<open>core/query_cache.h\<close>.  The hash maps
  \<open>cache_\<close> and \<open>lru_map_\<close> are association lists, which give their size; \<open>lru_order_\<close> is a
  list of nodes, each with an identity of its own, because \<open>lru_map_\<close> stores iterators: an
  iterator is the identity of a node and erasing through it removes that node.  The mutex makes
  each operation atomic and is not modelled further.  The cached type is a parameter.
\<close>

section \<open>State and operations\<close>

record 'v query_cache =
  max_size :: nat
  cache :: "(string \<times> 'v) list"
  lru_order :: "(nat \<times> string) list"
  lru_map :: "(string \<times> nat) list"
  next_node :: nat

text \<open>\<open>unordered_map::at\<close> throws; an unset iterator and \<open>back()\<close> of an empty list are
  undefined behaviour.\<close>

datatype cache_error = Out_of_range | Undefined_behaviour

definition new_cache :: "nat \<Rightarrow> 'v query_cache" where
  "new_cache n = \<lparr>max_size = n, cache = [], lru_order = [], lru_map = [], next_node = 0\<rparr>"

definition list_erase :: "nat \<Rightarrow> (nat \<times> string) list \<Rightarrow> (nat \<times> string) list" where
  "list_erase i xs = filter (\<lambda>p. fst p \<noteq> i) xs"

text \<open>\<open>lru_order_.push_front(query); lru_map_[query] = lru_order_.begin();\<close>\<close>

definition push_front :: "string \<Rightarrow> 'v query_cache \<Rightarrow> 'v query_cache" where
  "push_front k q = q\<lparr>lru_order := (next_node q, k) # lru_order q,
     lru_map := AList.update k (next_node q) (lru_map q), next_node := Suc (next_node q)\<rparr>"

definition cache_get :: "string \<Rightarrow> 'v query_cache \<Rightarrow> cache_error + ('v option \<times> 'v query_cache)" where
  "cache_get k q =
     (case map_of (cache q) k of
        None \<Rightarrow> Inr (None, q)
      | Some v \<Rightarrow>
          (case map_of (lru_map q) k of
             None \<Rightarrow> Inl Out_of_range
           | Some i \<Rightarrow> Inr (Some v, push_front k (q\<lparr>lru_order := list_erase i (lru_order q)\<rparr>))))"

definition cache_evict :: "'v query_cache \<Rightarrow> cache_error + 'v query_cache" where
  "cache_evict q =
     (if length (cache q) \<ge> max_size q then
        (if lru_order q = [] then Inl Undefined_behaviour
         else let lru_key = snd (last (lru_order q)) in
           Inr (q\<lparr>cache := AList.delete lru_key (cache q), lru_map := AList.delete lru_key (lru_map q),
                  lru_order := butlast (lru_order q)\<rparr>))
      else Inr q)"

definition cache_put :: "string \<Rightarrow> 'v \<Rightarrow> 'v query_cache \<Rightarrow> cache_error + 'v query_cache" where
  "cache_put k v q =
     (if map_of (cache q) k \<noteq> None then
        (case map_of (lru_map q) k of
           None \<Rightarrow> Inl Undefined_behaviour
         | Some i \<Rightarrow>
             Inr (push_front k (q\<lparr>cache := AList.update k v (cache q),
                                  lru_order := list_erase i (lru_order q)\<rparr>)))
      else
        (case cache_evict q of
           Inl e \<Rightarrow> Inl e
         | Inr q' \<Rightarrow> Inr (push_front k (q'\<lparr>cache := AList.update k v (cache q')\<rparr>))))"

definition cache_clear :: "'v query_cache \<Rightarrow> 'v query_cache" where
  "cache_clear q = q\<lparr>cache := [], lru_order := [], lru_map := []\<rparr>"

definition cache_size :: "'v query_cache \<Rightarrow> nat" where
  "cache_size q = length (cache q)"

section \<open>What an LRU cache is\<close>

text \<open>
  The contract: a list of entries, most recently used first.  A lookup moves its entry to the
  front; a store puts its entry in front and, when the key is new and the capacity reached,
  drops the last entry.
\<close>

definition touch :: "'k \<Rightarrow> ('k \<times> 'v) list \<Rightarrow> ('k \<times> 'v) list" where
  "touch k xs = (case map_of xs k of None \<Rightarrow> xs | Some v \<Rightarrow> (k, v) # filter (\<lambda>p. fst p \<noteq> k) xs)"

definition store :: "nat \<Rightarrow> 'k \<Rightarrow> 'v \<Rightarrow> ('k \<times> 'v) list \<Rightarrow> ('k \<times> 'v) list" where
  "store n k v xs =
     (if k \<in> fst ` set xs then (k, v) # filter (\<lambda>p. fst p \<noteq> k) xs
      else if length xs \<ge> n then (k, v) # butlast xs
      else (k, v) # xs)"

datatype ('k, 'v) cache_op = Get 'k | Put 'k 'v | Clear

locale lru_cache =
  fixes get :: "'k \<Rightarrow> 'c \<Rightarrow> 'e + ('v option \<times> 'c)"
    and put :: "'k \<Rightarrow> 'v \<Rightarrow> 'c \<Rightarrow> 'e + 'c"
    and clear :: "'c \<Rightarrow> 'c"
    and entries :: "'c \<Rightarrow> ('k \<times> 'v) list"
    and inv :: "'c \<Rightarrow> bool"
    and cap :: "'c \<Rightarrow> nat"
  assumes get_refines: "inv c \<Longrightarrow>
      \<exists>c'. get k c = Inr (map_of (entries c) k, c') \<and> inv c' \<and> entries c' = touch k (entries c) \<and> cap c' = cap c"
    and put_refines: "inv c \<Longrightarrow>
      \<exists>c'. put k v c = Inr c' \<and> inv c' \<and> entries c' = store (cap c) k v (entries c) \<and> cap c' = cap c"
    and clear_refines: "inv c \<Longrightarrow> inv (clear c) \<and> entries (clear c) = [] \<and> cap (clear c) = cap c"
    and inv_cap: "inv c \<Longrightarrow> distinct (map fst (entries c)) \<and> length (entries c) \<le> cap c \<and> 0 < cap c"
begin

lemma get_after_put:
  assumes "inv c" "put k v c = Inr c'"
  shows "\<exists>c''. get k c' = Inr (Some v, c'')"
proof -
  have "inv c'" "entries c' = store (cap c) k v (entries c)"
    using put_refines[OF assms(1), of k v] assms(2) by auto
  then show ?thesis using get_refines[of c' k] by (auto simp: store_def)
qed

text \<open>Another key's entry survives a store unless it is the last one of a full cache.\<close>

lemma get_other_after_put:
  assumes "inv c" "put k v c = Inr c'" "k' \<noteq> k"
    and "k \<in> fst ` set (entries c) \<or> length (entries c) < cap c \<or> fst (last (entries c)) \<noteq> k'"
  shows "\<exists>c''. get k' c' = Inr (map_of (entries c) k', c'')"
proof -
  have c': "inv c'" "entries c' = store (cap c) k v (entries c)"
    using put_refines[OF assms(1), of k v] assms(2) by auto
  have "map_of (entries c') k' = map_of (entries c) k'"
    using assms(3,4) inv_cap[OF assms(1)] map_of_butlast[of "entries c" k']
    by (auto simp: c'(2) store_def map_of_filter_key)
  then show ?thesis using get_refines[OF c'(1), of k'] by auto
qed

end

section \<open>The implementation meets the contract\<close>

text \<open>The hash maps, the list and the stored iterators agree; only live nodes are below
  \<open>next_node\<close>.\<close>

definition linked :: "'v query_cache \<Rightarrow> bool" where
  "linked q \<longleftrightarrow>
     distinct (map fst (cache q)) \<and> distinct (map fst (lru_order q)) \<and> distinct (map snd (lru_order q))
     \<and> snd ` set (lru_order q) = fst ` set (cache q)
     \<and> (\<forall>i k. map_of (lru_map q) k = Some i \<longleftrightarrow> (i, k) \<in> set (lru_order q))
     \<and> (\<forall>p\<in>set (lru_order q). fst p < next_node q)"

definition cache_inv :: "'v query_cache \<Rightarrow> bool" where
  "cache_inv q \<longleftrightarrow> linked q \<and> 0 < max_size q \<and> length (cache q) \<le> max_size q"

definition cache_entries :: "'v query_cache \<Rightarrow> (string \<times> 'v) list" where
  "cache_entries q = map (\<lambda>p. (snd p, the (map_of (cache q) (snd p)))) (lru_order q)"

lemma linkedD:
  assumes "linked q"
  shows "distinct (map fst (cache q))" "distinct (map fst (lru_order q))" "distinct (map snd (lru_order q))"
    "snd ` set (lru_order q) = fst ` set (cache q)"
    "\<And>i k. map_of (lru_map q) k = Some i \<longleftrightarrow> (i, k) \<in> set (lru_order q)"
    "\<And>p. p \<in> set (lru_order q) \<Longrightarrow> fst p < next_node q"
  using assms by (simp_all add: linked_def)

lemma map_of_entries:
  assumes "linked q"
  shows "map_of (cache_entries q) k = map_of (cache q) k"
proof -
  have "cache_entries q = map (\<lambda>k. (k, the (map_of (cache q) k))) (map snd (lru_order q))"
    by (simp add: cache_entries_def comp_def)
  then have "map_of (cache_entries q) k =
      (if k \<in> fst ` set (cache q) then Some (the (map_of (cache q) k)) else None)"
    using linkedD(4)[OF assms] by (simp only: map_of_graph list.set_map)
  then show ?thesis
    by (metis map_of_eq_None_iff option.collapse)
qed

lemma keys_entries: "map fst (cache_entries q) = map snd (lru_order q)"
  by (simp add: cache_entries_def comp_def)

lemma length_order: "linked q \<Longrightarrow> length (lru_order q) = length (cache q)"
  unfolding linked_def by (metis distinct_card length_map list.set_map)

lemma length_entries: "linked q \<Longrightarrow> length (cache_entries q) = length (cache q)"
  by (simp add: cache_entries_def length_order)

lemma dom_cache: "map_of (cache q) k = Some v \<Longrightarrow> k \<in> fst ` set (cache q)"
  by (force dest: map_of_SomeD)

lemma iterator_of_key:
  assumes "linked q" "map_of (cache q) k = Some v"
  obtains i where "map_of (lru_map q) k = Some i"
  using dom_cache[OF assms(2)] linkedD(4,5)[OF assms(1)]
  by (metis (no_types, lifting) imageE prod.collapse)

lemma entries_filter:
  "filter (\<lambda>p. fst p \<noteq> k) (cache_entries q) =
     map (\<lambda>p. (snd p, the (map_of (cache q) (snd p)))) (filter (\<lambda>p. snd p \<noteq> k) (lru_order q))"
  by (simp add: cache_entries_def filter_map comp_def)

text \<open>Pushing a fresh node in front of a list that does not have its key.\<close>

lemma push_linked:
  assumes D: "distinct (map fst xs)" "distinct (map snd xs)" "\<And>p. p \<in> set xs \<Longrightarrow> fst p < next_node q"
    and m: "\<And>i k'. k' \<noteq> k \<Longrightarrow> map_of (lru_map q) k' = Some i \<longleftrightarrow> (i, k') \<in> set xs"
    and c: "distinct (map fst c)" "fst ` set c = insert k (snd ` set xs)" "k \<notin> snd ` set xs"
    and q': "q' = push_front k (q\<lparr>cache := c, lru_order := xs\<rparr>)"
  shows "linked q'"
proof -
  have sel: "cache q' = c" "lru_order q' = (next_node q, k) # xs" "next_node q' = Suc (next_node q)"
    "lru_map q' = AList.update k (next_node q) (lru_map q)"
    by (simp_all add: q' push_front_def)
  have fresh: "next_node q \<notin> fst ` set xs" using D(3) by force
  have "map_of (lru_map q') k' = Some i \<longleftrightarrow> (i, k') \<in> set (lru_order q')" for i k'
  proof (cases "k' = k")
    case True
    then show ?thesis using c(3) by (auto simp: sel update_conv' image_iff)
  next
    case False
    then show ?thesis using m by (simp add: sel update_conv')
  qed
  then show ?thesis
    unfolding linked_def using D c fresh by (auto simp: sel less_Suc_eq)
qed

text \<open>Erasing a node by its identity is erasing it by its key.\<close>

lemma erase_by_key:
  assumes "linked q" "(i, k) \<in> set (lru_order q)"
  shows "list_erase i (lru_order q) = filter (\<lambda>p. snd p \<noteq> k) (lru_order q)"
proof -
  have "fst p = i \<longleftrightarrow> snd p = k" if "p \<in> set (lru_order q)" for p
    using linkedD(2,3)[OF assms(1)] that assms(2) unfolding distinct_map
    by (metis fst_conv inj_on_def snd_conv)
  then show ?thesis unfolding list_erase_def by (intro filter_cong) auto
qed

text \<open>
  Both a hit and an update of an existing key end in the same state: the key's node is replaced
  by a fresh one in front.
\<close>

lemma refresh_linked:
  assumes inv: "linked q" and i: "map_of (lru_map q) k = Some i"
    and q': "q' = push_front k (q\<lparr>cache := c, lru_order := list_erase i (lru_order q)\<rparr>)"
    and c: "distinct (map fst c)" "fst ` set c = fst ` set (cache q)"
  shows "linked q'"
    and "cache_entries q' = (k, the (map_of c k)) #
           map (\<lambda>p. (snd p, the (map_of c (snd p)))) (filter (\<lambda>p. snd p \<noteq> k) (lru_order q))"
proof -
  note D = linkedD[OF inv]
  let ?xs = "filter (\<lambda>p. snd p \<noteq> k) (lru_order q)"
  have ik: "(i, k) \<in> set (lru_order q)" using i D(5) by blast
  have k: "k \<in> snd ` set (lru_order q)" using ik by force
  have q'': "q' = push_front k (q\<lparr>cache := c, lru_order := ?xs\<rparr>)"
    by (simp add: q' erase_by_key[OF inv ik])
  show "linked q'"
  proof (rule push_linked[OF _ _ _ _ c(1) _ _ q''])
    show "fst ` set c = insert k (snd ` set ?xs)"
    proof -
      have "snd ` {p \<in> set (lru_order q). snd p \<noteq> k} = snd ` set (lru_order q) - {k}" by auto
      then show ?thesis using c(2) D(4) k by auto
    qed
  qed (use D in \<open>auto simp: distinct_map_filter\<close>)
  show "cache_entries q' = (k, the (map_of c k)) #
      map (\<lambda>p. (snd p, the (map_of c (snd p)))) ?xs"
    by (simp add: q'' cache_entries_def push_front_def)
qed

text \<open>A new key: its node is pushed and its entry added.\<close>

lemma insert_linked:
  assumes inv: "linked q" and k: "k \<notin> fst ` set (cache q)"
    and q': "q' = push_front k (q\<lparr>cache := AList.update k v (cache q)\<rparr>)"
  shows "linked q'" "cache_entries q' = (k, v) # cache_entries q" "length (cache q') = Suc (length (cache q))"
    "max_size q' = max_size q"
proof -
  note D = linkedD[OF inv]
  have q'': "q' = push_front k (q\<lparr>cache := cache q @ [(k, v)], lru_order := lru_order q\<rparr>)"
    by (simp add: q' alist_update_fresh[OF k])
  show "linked q'" by (rule push_linked[OF _ _ _ _ _ _ _ q'']) (use D k in auto)
  have "map_of (cache q @ [(k, v)]) k' = map_of (cache q) k'" if "k' \<noteq> k" for k'
    using that by (simp add: map_add_def split: option.split)
  moreover have "map_of (cache q @ [(k, v)]) k = Some v"
    using k dom_cache[of q k] by (auto simp: map_add_def split: option.split)
  moreover have "snd p \<noteq> k" if "p \<in> set (lru_order q)" for p
    using that k D(4) by (metis image_eqI)
  ultimately show "cache_entries q' = (k, v) # cache_entries q"
    by (simp add: q'' cache_entries_def push_front_def del: map_of_append)
  show "length (cache q') = Suc (length (cache q))" "max_size q' = max_size q"
    by (simp_all add: q'' push_front_def)
qed

lemma keys_delete: "fst ` set (AList.delete k al) = fst ` set al - {k}"
  by (induction al) auto

text \<open>Eviction drops the last entry.\<close>

lemma evict_linked:
  assumes inv: "linked q" and "lru_order q \<noteq> []" "length (cache q) \<ge> max_size q"
  shows "\<exists>q'. cache_evict q = Inr q' \<and> linked q' \<and> cache_entries q' = butlast (cache_entries q)
           \<and> fst ` set (cache q') \<subseteq> fst ` set (cache q)
           \<and> Suc (length (cache q')) = length (cache q) \<and> max_size q' = max_size q"
proof -
  note D = linkedD[OF inv]
  define p where "p = last (lru_order q)"
  define xs where "xs = butlast (lru_order q)"
  have order: "lru_order q = xs @ [p]" using assms(2) by (simp add: xs_def p_def)
  define q' where "q' = q\<lparr>cache := AList.delete (snd p) (cache q),
    lru_map := AList.delete (snd p) (lru_map q), lru_order := xs\<rparr>"
  have p: "snd p \<notin> snd ` set xs" using D(3) by (auto simp: order)
  have keys: "fst ` set (cache q) = insert (snd p) (snd ` set xs)" using D(4) by (simp add: order)
  have neq: "snd r \<noteq> snd p" if "r \<in> set xs" for r
    using p that by (metis image_eqI)
  have lookup: "map_of (lru_map q') k = Some i \<longleftrightarrow> (i, k) \<in> set xs" for i k
  proof (cases "k = snd p")
    case True
    then show ?thesis using neq[of "(i, k)"] by (auto simp: q'_def delete_conv')
  next
    case False
    then have "(i, k) \<noteq> p" by auto
    then show ?thesis using False D(5) by (auto simp: q'_def delete_conv' order)
  qed
  have sel: "cache q' = AList.delete (snd p) (cache q)" "lru_order q' = xs" "next_node q' = next_node q"
    by (simp_all add: q'_def)
  have "fst ` set (cache q') = snd ` set xs"
    using keys p by (simp add: sel keys_delete)
  then have linked: "linked q'"
    unfolding linked_def using D lookup by (simp add: sel distinct_delete order)
  have "cache_entries q' = butlast (cache_entries q)"
    using neq by (simp add: cache_entries_def order q'_def delete_conv' map_butlast[symmetric])
  moreover have "length (cache q') = length xs"
    using length_order[OF linked] by (simp add: q'_def)
  then have "Suc (length (cache q')) = length (cache q)"
    using length_order[OF inv] by (simp add: order)
  moreover have "cache_evict q = Inr q'"
    using assms(2,3) by (simp add: cache_evict_def Let_def q'_def p_def xs_def)
  moreover have "fst ` set (cache q') \<subseteq> fst ` set (cache q)"
    by (auto simp: sel keys_delete)
  moreover have "max_size q' = max_size q" by (simp add: q'_def)
  ultimately show ?thesis using linked by blast
qed

lemma cache_get_refines:
  assumes "cache_inv q"
  shows "\<exists>q'. cache_get k q = Inr (map_of (cache_entries q) k, q') \<and> cache_inv q'
           \<and> cache_entries q' = touch k (cache_entries q) \<and> max_size q' = max_size q"
proof (cases "map_of (cache q) k")
  case None
  then show ?thesis using map_of_entries[of q k] assms by (simp add: cache_get_def touch_def cache_inv_def)
next
  case (Some v)
  have inv: "linked q" using assms by (simp add: cache_inv_def)
  obtain i where i: "map_of (lru_map q) k = Some i" by (rule iterator_of_key[OF inv Some])
  define q' where "q' = push_front k (q\<lparr>lru_order := list_erase i (lru_order q)\<rparr>)"
  have q'': "q' = push_front k (q\<lparr>cache := cache q, lru_order := list_erase i (lru_order q)\<rparr>)"
    by (simp add: q'_def)
  have "linked q'" and e: "cache_entries q' = touch k (cache_entries q)"
    using refresh_linked[OF inv i q''] linkedD(1)[OF inv] Some map_of_entries[OF inv, of k]
    by (simp_all add: touch_def entries_filter)
  moreover have sel: "max_size q' = max_size q" "cache q' = cache q"
    by (simp_all add: q'_def push_front_def)
  ultimately have "cache_inv q'" using assms by (simp add: cache_inv_def)
  moreover have "cache_get k q = Inr (map_of (cache_entries q) k, q')"
    using Some i map_of_entries[OF inv, of k] by (simp add: cache_get_def q'_def)
  ultimately show ?thesis using e sel by blast
qed

lemma cache_put_refines:
  assumes cinv: "cache_inv q"
  shows "\<exists>q'. cache_put k v q = Inr q' \<and> cache_inv q'
           \<and> cache_entries q' = store (max_size q) k v (cache_entries q) \<and> max_size q' = max_size q"
proof (cases "map_of (cache q) k")
  case (Some w)
  have inv: "linked q" using assms by (simp add: cache_inv_def)
  note D = linkedD[OF inv]
  let ?c = "AList.update k v (cache q)"
  obtain i where i: "map_of (lru_map q) k = Some i" by (rule iterator_of_key[OF inv Some])
  define q' where "q' = push_front k (q\<lparr>cache := ?c, lru_order := list_erase i (lru_order q)\<rparr>)"
  have k: "k \<in> fst ` set (cache q)" by (rule dom_cache[OF Some])
  have c: "distinct (map fst ?c)" "fst ` set ?c = fst ` set (cache q)"
    using D(1) k by (auto simp: distinct_update dom_update)
  have "length ?c = length (cache q)"
    using c D(1) by (metis distinct_card length_map list.set_map)
  moreover note e = refresh_linked[OF inv i q'_def c]
  moreover have "cache q' = ?c" "max_size q' = max_size q" by (simp_all add: q'_def push_front_def)
  ultimately have inv': "cache_inv q'" using cinv by (simp add: cache_inv_def)
  have "cache_entries q' = (k, v) # filter (\<lambda>p. fst p \<noteq> k) (cache_entries q)"
    unfolding e(2) entries_filter by (simp add: update_conv')
  moreover have "k \<in> fst ` set (cache_entries q)"
    using k D(4) keys_entries[of q] by (metis list.set_map)
  moreover have "cache_put k v q = Inr q'"
    using Some i by (simp add: cache_put_def q'_def)
  ultimately show ?thesis using inv' by (auto simp: store_def q'_def push_front_def)
next
  case None
  have inv: "linked q" using assms by (simp add: cache_inv_def)
  have k: "k \<notin> fst ` set (cache q)" using None by (simp add: map_of_eq_None_iff)
  have ke: "k \<notin> fst ` set (cache_entries q)"
    using k linkedD(4)[OF inv] keys_entries[of q] by (metis list.set_map)
  note len = length_entries[OF inv]
  show ?thesis
  proof (cases "length (cache q) \<ge> max_size q")
    case False
    define q' where "q' = push_front k (q\<lparr>cache := AList.update k v (cache q)\<rparr>)"
    note I = insert_linked[OF inv k q'_def]
    have "cache_put k v q = Inr q'"
      using None False by (simp add: cache_put_def cache_evict_def q'_def)
    then show ?thesis using I False cinv ke len by (auto simp: cache_inv_def store_def)
  next
    case True
    have "lru_order q \<noteq> []" using True cinv length_order[OF inv] by (auto simp: cache_inv_def)
    then obtain q1 where q1: "cache_evict q = Inr q1" "linked q1"
      "cache_entries q1 = butlast (cache_entries q)" "fst ` set (cache q1) \<subseteq> fst ` set (cache q)"
      "Suc (length (cache q1)) = length (cache q)" "max_size q1 = max_size q"
      using evict_linked[OF inv _ True] by blast
    define q' where "q' = push_front k (q1\<lparr>cache := AList.update k v (cache q1)\<rparr>)"
    have k1: "k \<notin> fst ` set (cache q1)" using k q1(4) by blast
    note I = insert_linked[OF q1(2) k1 q'_def]
    have "cache_put k v q = Inr q'" using None q1 by (simp add: cache_put_def q'_def)
    then show ?thesis using I True q1 cinv ke len by (auto simp: cache_inv_def store_def)
  qed
qed

lemma cache_clear_refines:
  "cache_inv q \<Longrightarrow> cache_inv (cache_clear q) \<and> cache_entries (cache_clear q) = []
     \<and> max_size (cache_clear q) = max_size q"
  by (simp add: cache_inv_def linked_def cache_clear_def cache_entries_def)

lemma new_cache_inv: "0 < n \<Longrightarrow> cache_inv (new_cache n) \<and> cache_entries (new_cache n) = []"
  by (simp add: cache_inv_def linked_def new_cache_def cache_entries_def)

interpretation query_lru: lru_cache cache_get cache_put cache_clear cache_entries cache_inv max_size
proof unfold_locales
  fix q :: "'a query_cache"
  assume "cache_inv q"
  then show "distinct (map fst (cache_entries q)) \<and> length (cache_entries q) \<le> max_size q \<and> 0 < max_size q"
    by (auto simp: cache_inv_def keys_entries length_entries linkedD)
qed (simp_all add: cache_get_refines cache_put_refines cache_clear_refines)

section \<open>Sequences of calls\<close>

fun cache_run :: "(string, 'v) cache_op list \<Rightarrow> 'v query_cache \<Rightarrow> cache_error + ('v option list \<times> 'v query_cache)" where
  "cache_run [] q = Inr ([], q)"
| "cache_run (Get k # ops) q =
     (case cache_get k q of
        Inl e \<Rightarrow> Inl e
      | Inr (r, q') \<Rightarrow> (case cache_run ops q' of Inl e \<Rightarrow> Inl e | Inr (rs, q'') \<Rightarrow> Inr (r # rs, q'')))"
| "cache_run (Put k v # ops) q =
     (case cache_put k v q of Inl e \<Rightarrow> Inl e | Inr q' \<Rightarrow> cache_run ops q')"
| "cache_run (Clear # ops) q = cache_run ops (cache_clear q)"

text \<open>The answers an LRU list of capacity \<open>n\<close> gives.\<close>

fun lru_run :: "nat \<Rightarrow> ('k, 'v) cache_op list \<Rightarrow> ('k \<times> 'v) list \<Rightarrow> 'v option list \<times> ('k \<times> 'v) list" where
  "lru_run n [] xs = ([], xs)"
| "lru_run n (Get k # ops) xs =
     (let (rs, ys) = lru_run n ops (touch k xs) in (map_of xs k # rs, ys))"
| "lru_run n (Put k v # ops) xs = lru_run n ops (store n k v xs)"
| "lru_run n (Clear # ops) xs = lru_run n ops []"

lemma cache_run_from:
  "cache_inv q \<Longrightarrow> \<exists>q'. cache_run ops q = Inr (fst (lru_run (max_size q) ops (cache_entries q)), q')
     \<and> cache_inv q' \<and> cache_entries q' = snd (lru_run (max_size q) ops (cache_entries q))
     \<and> max_size q' = max_size q"
proof (induction ops arbitrary: q)
  case (Cons x ops)
  show ?case
  proof (cases x)
    case (Get k)
    obtain q1 where "cache_get k q = Inr (map_of (cache_entries q) k, q1)" "cache_inv q1"
      "cache_entries q1 = touch k (cache_entries q)" "max_size q1 = max_size q"
      using query_lru.get_refines[OF Cons.prems] by blast
    then show ?thesis using Cons.IH[of q1] by (auto simp: Get split: prod.splits)
  next
    case (Put k v)
    obtain q1 where "cache_put k v q = Inr q1" "cache_inv q1"
      "cache_entries q1 = store (max_size q) k v (cache_entries q)" "max_size q1 = max_size q"
      using query_lru.put_refines[OF Cons.prems] by blast
    then show ?thesis using Cons.IH[of q1] by (auto simp: Put)
  next
    case Clear
    then show ?thesis using Cons.IH[of "cache_clear q"] query_lru.clear_refines[OF Cons.prems] by auto
  qed
qed simp

section \<open>Properties\<close>

text \<open>C5: for every capacity above zero and every sequence of \<open>get\<close>, \<open>put\<close> and \<open>clear\<close>, the
  cache never throws nor reaches undefined behaviour, answers every \<open>get\<close> as the LRU list of that
  capacity answers it, ends with that list's entries in that order and never holds more than
  its capacity.\<close>

theorem cache_run_is_lru:
  assumes "0 < n"
  shows "\<exists>q'. cache_run ops (new_cache n) = Inr (fst (lru_run n ops []), q')
           \<and> cache_entries q' = snd (lru_run n ops []) \<and> cache_size q' \<le> n"
proof -
  let ?q = "new_cache n :: 'a query_cache"
  have n: "max_size ?q = n" by (simp add: new_cache_def)
  have new: "cache_inv ?q" "cache_entries ?q = []" using new_cache_inv[OF assms] by blast+
  obtain q' where "cache_run ops (new_cache n) = Inr (fst (lru_run n ops []), q')" "cache_inv q'"
    "cache_entries q' = snd (lru_run n ops [])" "max_size q' = n"
    using cache_run_from[of ?q ops] by (auto simp: n new)
  then show ?thesis using query_lru.inv_cap[of q'] by (auto simp: cache_size_def cache_inv_def)
qed

lemma cache_run_is_lru_witness:
  "\<exists>q'. cache_run [Put ''a'' (1::nat), Put ''b'' 2, Get ''a'', Put ''c'' 3, Get ''b'', Get ''a''] (new_cache 2)
          = Inr ([Some 1, None, Some 1], q')"
  using cache_run_is_lru[of 2 "[Put ''a'' (1::nat), Put ''b'' 2, Get ''a'', Put ''c'' 3, Get ''b'', Get ''a'']"]
  by (auto simp: touch_def store_def)

text \<open>A stored statement is found by the next lookup of the same text.\<close>

theorem cache_get_after_put:
  assumes "cache_inv q" "cache_put k v q = Inr q'"
  shows "\<exists>q''. cache_get k q' = Inr (Some v, q'')"
  by (rule query_lru.get_after_put[OF assms])

lemma cache_get_after_put_witness:
  "\<exists>q''. cache_get ''MATCH'' (projr (cache_put ''MATCH'' (7::nat) (new_cache 1))) = Inr (Some 7, q'')"
proof (rule cache_get_after_put)
  show "cache_inv (new_cache 1)" by (simp only: new_cache_inv zero_less_one)
  show "cache_put ''MATCH'' (7::nat) (new_cache 1) = Inr (projr (cache_put ''MATCH'' 7 (new_cache 1)))"
    by (simp add: cache_put_def cache_evict_def new_cache_def)
qed

text \<open>The constructor accepts a capacity of zero, and then the first \<open>put\<close> of every text calls
  \<open>back()\<close> on an empty list, which is undefined behaviour.\<close>

theorem cache_put_capacity_zero: "cache_put k v (new_cache 0) = Inl Undefined_behaviour"
  by (simp add: cache_put_def cache_evict_def new_cache_def)

end
