(* ===== verification/Ast_Literals.thy ===== *)
theory Ast_Literals
  imports Parser
begin

text \<open>
  The functions of \<open>core/query_cache.h\<close> that take literals out of a query and put them back:
  the textual \<open>normalize_query\<close>, the traversal \<open>visit_literals\<close> with its two users, the key of
  a tree and the deep copy.  A visitor that writes through the literal's pointer is a function
  from the literal's value and a state to a new value and state.
\<close>

section \<open>Normalising the text\<close>

text \<open>The scan to the closing quote: what it passes over, and the rest from the quote on.\<close>

fun quoted_span :: "char \<Rightarrow> string \<Rightarrow> string \<times> string" where
  "quoted_span q [] = ([], [])"
| "quoted_span q (c # cs) =
     (if c = q then ([], c # cs)
      else if c = backslash then
        (case cs of [] \<Rightarrow> ([c], [])
         | d # ds \<Rightarrow> (let (b, r) = quoted_span q ds in (c # d # b, r)))
      else (let (b, r) = quoted_span q cs in (c # b, r)))"

lemma quoted_span_append: "quoted_span q s = (b, r) \<Longrightarrow> s = b @ r"
proof (induction q s arbitrary: b r rule: quoted_span.induct)
  case (2 q c cs)
  then show ?case by (auto split: if_splits list.splits prod.splits)
qed simp

definition is_word_char :: "char \<Rightarrow> bool" where
  "is_word_char c \<longleftrightarrow> is_alnum c \<or> c = CHR ''_''"

definition number_start :: "string \<Rightarrow> bool" where
  "number_start s = (case s of [] \<Rightarrow> False
     | c # cs \<Rightarrow> is_digit c \<or> c = CHR ''-'' \<and> (case cs of [] \<Rightarrow> False | d # ds \<Rightarrow> is_digit d))"

definition number_span :: "string \<Rightarrow> string \<times> string" where
  "number_span s =
     (let sign = (if hd s = CHR ''-'' then [hd s] else []);
          t = (if hd s = CHR ''-'' then tl s else s);
          num = (\<lambda>c. is_digit c \<or> c = CHR ''.'')
      in (sign @ takeWhile num t, dropWhile num t))"

text \<open>
  The loop, with the character before the position (\<open>query[i - 1]\<close>) and the number of literals
  found so far; it returns the rest of the result and of the literals.
\<close>

function normalize_from :: "char option \<Rightarrow> nat \<Rightarrow> string \<Rightarrow> string \<times> string list" where
  "normalize_from prev n [] = ([], [])"
| "normalize_from prev n (c # cs) =
     (if c = squote \<or> c = dquote then
        (let (b, r) = quoted_span c cs;
             passed = c # b;
             (out, lits) = (case r of
                 [] \<Rightarrow> normalize_from (Some (last passed)) (Suc n) []
               | q # r' \<Rightarrow> normalize_from (Some q) (Suc n) r')
         in (CHR ''$'' # to_decimal n @ out, b # lits))
      else if number_start (c # cs) then
        (case prev of
           Some p \<Rightarrow>
             if is_word_char p then
               (let (out, lits) = normalize_from (Some c) n cs in (c # out, lits))
             else
               (let (b, r) = number_span (c # cs);
                    (out, lits) = normalize_from (Some (last b)) (Suc n) r
                in (CHR ''$'' # to_decimal n @ out, b # lits))
         | None \<Rightarrow>
             (let (b, r) = number_span (c # cs);
                  (out, lits) = normalize_from (Some (last b)) (Suc n) r
              in (CHR ''$'' # to_decimal n @ out, b # lits)))
      else (let (out, lits) = normalize_from (Some c) n cs in (c # out, lits)))"
  by pat_completeness auto
termination
proof (relation "measure (\<lambda>(p, n, s). length s)", goal_cases)
  case 1
  show ?case by simp
next
  case (2 prev n c cs b r)
  then show ?case by simp
next
  case (3 prev n c cs x b r passed q r')
  then have "length cs = length b + length r" by (metis length_append quoted_span_append)
  then show ?case using 3 by simp
qed (auto simp: number_span_def number_start_def Let_def le_imp_less_Suc length_dropWhile_le
    split: if_splits list.splits)

definition normalize_query :: "string \<Rightarrow> string \<times> string list" where
  "normalize_query query = normalize_from None 0 query"

section \<open>Visiting the literals of a tree\<close>

type_synonym 's visitor = "string \<Rightarrow> 's \<Rightarrow> string \<times> 's"

text \<open>Only literals and the two sides of binary expressions are visited.\<close>

fun visit_expr :: "'s visitor \<Rightarrow> expression \<Rightarrow> 's \<Rightarrow> expression \<times> 's" where
  "visit_expr f (Literal v b) s = (let (v', s') = f v s in (Literal v' b, s'))"
| "visit_expr f (Binary l op r) s =
     (let (l', s1) = visit_expr f l s; (r', s2) = visit_expr f r s1 in (Binary l' op r', s2))"
| "visit_expr f e s = (e, s)"

fun visit_props :: "'s visitor \<Rightarrow> property_map \<Rightarrow> 's \<Rightarrow> property_map \<times> 's" where
  "visit_props f [] s = ([], s)"
| "visit_props f ((k, e) # m) s =
     (let (e', s1) = visit_expr f e s; (m', s2) = visit_props f m s1 in ((k, e') # m', s2))"

definition visit_node :: "'s visitor \<Rightarrow> pattern_node \<Rightarrow> 's \<Rightarrow> pattern_node \<times> 's" where
  "visit_node f n s = (let (m, s') = visit_props f (node_props n) s in (n\<lparr>node_props := m\<rparr>, s'))"

fun visit_rel :: "'s visitor \<Rightarrow> pattern_relationship option \<Rightarrow> 's \<Rightarrow> pattern_relationship option \<times> 's" where
  "visit_rel f None s = (None, s)"
| "visit_rel f (Some r) s = (let (m, s') = visit_props f (rel_props r) s in (Some (r\<lparr>rel_props := m\<rparr>), s'))"

fun visit_path :: "'s visitor \<Rightarrow> pattern_path \<Rightarrow> 's \<Rightarrow> pattern_path \<times> 's" where
  "visit_path f [] s = ([], s)"
| "visit_path f (x # xs) s =
     (let (n, s1) = visit_node f (elem_node x) s;
          (r, s2) = visit_rel f (elem_rel x) s1;
          (ys, s3) = visit_path f xs s2
      in (x\<lparr>elem_node := n, elem_rel := r\<rparr> # ys, s3))"

fun visit_paths :: "'s visitor \<Rightarrow> pattern_path list \<Rightarrow> 's \<Rightarrow> pattern_path list \<times> 's" where
  "visit_paths f [] s = ([], s)"
| "visit_paths f (p # ps) s =
     (let (p', s1) = visit_path f p s; (ps', s2) = visit_paths f ps s1 in (p' # ps', s2))"

fun visit_assignments :: "'s visitor \<Rightarrow> assignment list \<Rightarrow> 's \<Rightarrow> assignment list \<times> 's" where
  "visit_assignments f [] s = ([], s)"
| "visit_assignments f (a # as) s =
     (let (e, s1) = visit_expr f (asgn_value a) s; (as', s2) = visit_assignments f as s1
      in (a\<lparr>asgn_value := e\<rparr> # as', s2))"

fun visit_clause :: "'s visitor \<Rightarrow> clause \<Rightarrow> 's \<Rightarrow> clause \<times> 's" where
  "visit_clause f (Create_clause ps) s = (let (ps', s') = visit_paths f ps s in (Create_clause ps', s'))"
| "visit_clause f (Where_clause w) s =
     (let (e, s') = visit_expr f (where_condition w) s in (Where_clause (w\<lparr>where_condition := e\<rparr>), s'))"
| "visit_clause f (Set_clause as) s = (let (as', s') = visit_assignments f as s in (Set_clause as', s'))"
| "visit_clause f (Unwind_clause e a) s = (let (e', s') = visit_expr f e s in (Unwind_clause e' a, s'))"
| "visit_clause f c s = (c, s)"

fun visit_literals :: "'s visitor \<Rightarrow> statement \<Rightarrow> 's \<Rightarrow> statement \<times> 's" where
  "visit_literals f [] s = ([], s)"
| "visit_literals f (c # cs) s =
     (let (c', s1) = visit_clause f c s; (cs', s2) = visit_literals f cs s1 in (c' # cs', s2))"

text \<open>The two visitors: one appends to the vector, one reads \<open>literals[idx++]\<close> while there are any.\<close>

definition collect :: "string list visitor" where
  "collect v out = (v, out @ [v])"

definition extract_literals :: "statement \<Rightarrow> string list" where
  "extract_literals st = snd (visit_literals collect st [])"

definition replace_literal :: "string list \<Rightarrow> nat visitor" where
  "replace_literal lits v idx = (if idx < length lits then (lits ! idx, Suc idx) else (v, idx))"

definition bind_literals :: "statement \<Rightarrow> string list \<Rightarrow> statement" where
  "bind_literals st lits = fst (visit_literals (replace_literal lits) st 0)"

section \<open>The key of a tree\<close>

definition element_key :: "pattern_element \<Rightarrow> string" where
  "element_key x =
     (let n = elem_node x in
      ''('' @ (if node_label n \<noteq> [] then '':'' @ node_label n else [])
      @ (if node_props n \<noteq> [] then ''{'' @ concat (map (\<lambda>p. fst p @ '','') (node_props n)) @ ''}'' else [])
      @ '')''
      @ (case elem_rel x of None \<Rightarrow> [] | Some r \<Rightarrow> rel_direction r @ '':'' @ rel_type r))"

fun clause_key :: "clause \<Rightarrow> string" where
  "clause_key (Create_clause ps) = ''CREATE|''"
| "clause_key (Match_clause ps) = ''MATCH'' @ concat (map (\<lambda>p. concat (map element_key p)) ps) @ ''|''"
| "clause_key (Where_clause w) =
     ''WHERE '' @ where_variable w @ ''.'' @ where_property w @ '' '' @ where_op w @ '' $|''"
| "clause_key (Return_clause rs) = ''RETURN|''"
| "clause_key (Set_clause as) =
     ''SET '' @ concat (map (\<lambda>a. asgn_variable a @ ''.'' @ asgn_property a @ ''=$,'') as) @ ''|''"
| "clause_key (Delete_clause vs d) = ''DELETE|''"
| "clause_key (Unwind_clause e a) = ''UNWIND|''"

definition ast_cache_key :: "statement \<Rightarrow> string" where
  "ast_cache_key st = concat (map clause_key st)"

section \<open>The deep copy\<close>

fun clone_expr :: "expression \<Rightarrow> expression" where
  "clone_expr (Literal v b) = Literal v b"
| "clone_expr (Variable n) = Variable n"
| "clone_expr (Property_access v k) = Property_access v k"
| "clone_expr (Binary l op r) = Binary (clone_expr l) op (clone_expr r)"
| "clone_expr (List_literal es) = List_literal (map clone_expr es)"
| "clone_expr (Map_literal m) = Map_literal (map_from (map (\<lambda>p. (fst p, clone_expr (snd p))) m))"

definition clone_props :: "property_map \<Rightarrow> property_map" where
  "clone_props m = map_from (map (\<lambda>p. (fst p, clone_expr (snd p))) m)"

definition clone_path :: "pattern_path \<Rightarrow> pattern_path" where
  "clone_path p = map (\<lambda>x.
     \<lparr>elem_node = \<lparr>node_variable = node_variable (elem_node x), node_label = node_label (elem_node x),
        node_props = clone_props (node_props (elem_node x))\<rparr>,
      elem_rel = (case elem_rel x of None \<Rightarrow> None
        | Some r \<Rightarrow> Some \<lparr>rel_variable = rel_variable r, rel_type = rel_type r,
            rel_direction = rel_direction r, rel_props = clone_props (rel_props r)\<rparr>)\<rparr>) p"

text \<open>The copied WHERE clause shares its value with the copied condition whenever that is binary.\<close>

definition copy_where :: "where_clause \<Rightarrow> where_clause" where
  "copy_where w =
     \<lparr>where_condition = clone_expr (where_condition w), where_variable = where_variable w,
      where_property = where_property w, where_op = where_op w,
      where_val = (case clone_expr (where_condition w) of
          Binary l op r \<Rightarrow> Shared_right
        | _ \<Rightarrow> (case deref_value w of None \<Rightarrow> No_value | Some e \<Rightarrow> Own_value (clone_expr e)))\<rparr>"

fun copy_clause :: "clause \<Rightarrow> clause" where
  "copy_clause (Create_clause ps) = Create_clause (map clone_path ps)"
| "copy_clause (Match_clause ps) = Match_clause (map clone_path ps)"
| "copy_clause (Where_clause w) = Where_clause (copy_where w)"
| "copy_clause (Return_clause rs) =
     Return_clause (map (\<lambda>r. \<lparr>item_expr = clone_expr (item_expr r), item_alias = item_alias r\<rparr>) rs)"
| "copy_clause (Set_clause as) =
     Set_clause (map (\<lambda>a. \<lparr>asgn_variable = asgn_variable a, asgn_property = asgn_property a,
       asgn_value = clone_expr (asgn_value a)\<rparr>) as)"
| "copy_clause (Delete_clause vs d) = Delete_clause vs d"
| "copy_clause (Unwind_clause e a) = Unwind_clause (clone_expr e) a"

definition deep_copy_statement :: "statement \<Rightarrow> statement" where
  "deep_copy_statement st = map copy_clause st"

section \<open>The literals in traversal order\<close>

text \<open>What the traversal reaches, as plain lists.\<close>

fun expr_lits :: "expression \<Rightarrow> string list" where
  "expr_lits (Literal v b) = [v]"
| "expr_lits (Binary l op r) = expr_lits l @ expr_lits r"
| "expr_lits e = []"

definition props_lits :: "property_map \<Rightarrow> string list" where
  "props_lits m = concat (map (\<lambda>p. expr_lits (snd p)) m)"

definition element_lits :: "pattern_element \<Rightarrow> string list" where
  "element_lits x = props_lits (node_props (elem_node x))
     @ (case elem_rel x of None \<Rightarrow> [] | Some r \<Rightarrow> props_lits (rel_props r))"

definition path_lits :: "pattern_path \<Rightarrow> string list" where
  "path_lits p = concat (map element_lits p)"

fun clause_lits :: "clause \<Rightarrow> string list" where
  "clause_lits (Create_clause ps) = concat (map path_lits ps)"
| "clause_lits (Where_clause w) = expr_lits (where_condition w)"
| "clause_lits (Set_clause as) = concat (map (\<lambda>a. expr_lits (asgn_value a)) as)"
| "clause_lits (Unwind_clause e a) = expr_lits e"
| "clause_lits c = []"

definition statement_lits :: "statement \<Rightarrow> string list" where
  "statement_lits st = concat (map clause_lits st)"

named_theorems visit_laws

lemma collect_expr [visit_laws]: "visit_expr collect e out = (e, out @ expr_lits e)"
  by (induction collect e out arbitrary: out rule: visit_expr.induct) (auto simp: collect_def split: prod.split)

lemma collect_props [visit_laws]: "visit_props collect m out = (m, out @ props_lits m)"
  by (induction collect m out arbitrary: out rule: visit_props.induct) (simp_all add: visit_laws props_lits_def)

lemma collect_rel [visit_laws]:
  "visit_rel collect r out = (r, out @ (case r of None \<Rightarrow> [] | Some r \<Rightarrow> props_lits (rel_props r)))"
  by (cases r) (simp_all add: visit_laws)

lemma collect_path [visit_laws]: "visit_path collect p out = (p, out @ path_lits p)"
  by (induction collect p out arbitrary: out rule: visit_path.induct)
    (simp_all add: visit_laws visit_node_def path_lits_def element_lits_def)

lemma collect_paths [visit_laws]: "visit_paths collect ps out = (ps, out @ concat (map path_lits ps))"
  by (induction collect ps out arbitrary: out rule: visit_paths.induct) (simp_all add: visit_laws)

lemma collect_assignments [visit_laws]:
  "visit_assignments collect as out = (as, out @ concat (map (\<lambda>a. expr_lits (asgn_value a)) as))"
  by (induction collect as out arbitrary: out rule: visit_assignments.induct) (simp_all add: visit_laws)

lemma collect_clause [visit_laws]: "visit_clause collect c out = (c, out @ clause_lits c)"
  by (cases c) (simp_all add: visit_laws)

lemma collect_statement: "visit_literals collect st out = (st, out @ statement_lits st)"
  by (induction collect st out arbitrary: out rule: visit_literals.induct)
    (simp_all add: visit_laws statement_lits_def)

lemma extract_lits: "extract_literals st = statement_lits st"
  by (simp add: extract_literals_def collect_statement)

text \<open>
  Binding from position \<open>i\<close> on reads one segment of the vector, as long as the tree has
  literals; the tree then has that segment as its literals, and is unchanged when the segment
  is what it had.
\<close>

definition seg :: "'a list \<Rightarrow> nat \<Rightarrow> nat \<Rightarrow> 'a list" where
  "seg ls i n = take n (drop i ls)"

lemma seg_0 [simp]: "seg ls i 0 = []"
  by (simp add: seg_def)

lemma seg_add: "seg ls i (m + n) = seg ls i m @ seg ls (i + m) n"
  by (simp add: seg_def take_add add.commute)

lemma seg_append:
  "i + (length xs + length ys) \<le> length ls \<Longrightarrow>
     seg ls i (length xs + length ys) = xs @ ys \<longleftrightarrow>
       seg ls i (length xs) = xs \<and> seg ls (i + length xs) (length ys) = ys"
  by (simp add: seg_add) (simp add: seg_def)

definition binds :: "string list \<Rightarrow> ('x \<Rightarrow> string list) \<Rightarrow> 'x \<Rightarrow> nat \<Rightarrow> 'x \<times> nat \<Rightarrow> bool" where
  "binds ls lits x i y \<longleftrightarrow>
     snd y = i + length (lits x) \<and> lits (fst y) = seg ls i (length (lits x))
     \<and> (seg ls i (length (lits x)) = lits x \<longrightarrow> fst y = x)"

lemma bindsD:
  assumes "binds ls lits x i (x', j)"
  shows "j = i + length (lits x)" "lits x' = seg ls i (length (lits x))"
    "seg ls i (length (lits x)) = lits x \<Longrightarrow> x' = x"
  using assms by (auto simp: binds_def)

lemma binds_both:
  assumes "binds ls la a i (a', i1)" "binds ls lb b i1 (b', i2)"
    and "i + (length (la a) + length (lb b)) \<le> length ls"
  shows "i2 = i + (length (la a) + length (lb b))"
    "la a' @ lb b' = seg ls i (length (la a) + length (lb b))"
    "seg ls i (length (la a) + length (lb b)) = la a @ lb b \<Longrightarrow> a' = a \<and> b' = b"
  using bindsD[OF assms(1)] bindsD[OF assms(2)] assms(3) by (auto simp: seg_append) (simp add: seg_add)

lemma bind_expr:
  "i + length (expr_lits e) \<le> length ls \<Longrightarrow> binds ls expr_lits e i (visit_expr (replace_literal ls) e i)"
proof (induction e arbitrary: i)
  case (Literal v b)
  then show ?case
    by (auto simp: binds_def replace_literal_def seg_def take_Suc hd_drop_conv_nth)
next
  case (Binary l op r)
  obtain l' i1 where l: "visit_expr (replace_literal ls) l i = (l', i1)" by fastforce
  obtain r' i2 where r: "visit_expr (replace_literal ls) r i1 = (r', i2)" by fastforce
  have L: "binds ls expr_lits l i (l', i1)" using Binary.IH(1)[of i] Binary.prems l by simp
  have R: "binds ls expr_lits r i1 (r', i2)"
    using Binary.IH(2)[of i1] Binary.prems r bindsD(1)[OF L] by simp
  have "visit_expr (replace_literal ls) (Binary l op r) i = (Binary l' op r', i2)"
    by (simp add: l r)
  then show ?case
    using binds_both[OF L R] Binary.prems by (auto simp: binds_def)
qed (simp_all add: binds_def)

text \<open>A list whose elements are visited in turn is visited by its elements' rule.\<close>

lemma bind_list:
  assumes elem: "\<And>x i. x \<in> set xs \<Longrightarrow> i + length (lits x) \<le> length ls \<Longrightarrow> binds ls lits x i (v x i)"
    and run: "\<And>i. run [] i = ([], i)"
      "\<And>x xs i. run (x # xs) i = (let (x', i1) = v x i; (xs', i2) = run xs i1 in (x' # xs', i2))"
    and bound: "i + length (concat (map lits xs)) \<le> length ls"
  shows "binds ls (\<lambda>xs. concat (map lits xs)) xs i (run xs i)"
  using elem bound
proof (induction xs arbitrary: i)
  case Nil
  then show ?case by (simp add: binds_def run)
next
  case (Cons x xs)
  obtain x' i1 where x: "v x i = (x', i1)" by fastforce
  obtain xs' i2 where xs: "run xs i1 = (xs', i2)" by fastforce
  have b: "i + (length (lits x) + length (concat (map lits xs))) \<le> length ls"
    using Cons.prems(2) by simp
  have X: "binds ls lits x i (x', i1)" using Cons.prems(1)[of x i] x b by simp
  have XS: "binds ls (\<lambda>xs. concat (map lits xs)) xs i1 (xs', i2)"
    using Cons.IH[of i1] Cons.prems(1) xs bindsD(1)[OF X] b by simp
  have "run (x # xs) i = (x' # xs', i2)" by (simp add: run(2) x xs)
  then show ?case
    using binds_both[OF X XS b] by (auto simp: binds_def simp del: length_concat)
qed

lemma bind_props:
  "i + length (props_lits m) \<le> length ls \<Longrightarrow> binds ls props_lits m i (visit_props (replace_literal ls) m i)"
proof -
  let ?v = "\<lambda>p i. let (e, j) = visit_expr (replace_literal ls) (snd p) i in ((fst p, e), j)"
  have "binds ls (\<lambda>p. expr_lits (snd p)) p i (?v p i)"
    if "i + length (expr_lits (snd p)) \<le> length ls" for p :: "string \<times> expression" and i
    using bind_expr[OF that] by (cases p) (auto simp: binds_def split: prod.split)
  then have "i + length (concat (map (\<lambda>p. expr_lits (snd p)) m)) \<le> length ls \<Longrightarrow>
      binds ls (\<lambda>m. concat (map (\<lambda>p. expr_lits (snd p)) m)) m i (visit_props (replace_literal ls) m i)"
    by (intro bind_list[where v = ?v]) (auto split: prod.split)
  then show "i + length (props_lits m) \<le> length ls \<Longrightarrow> ?thesis"
    by (simp add: props_lits_def[abs_def])
qed

definition visit_element :: "'s visitor \<Rightarrow> pattern_element \<Rightarrow> 's \<Rightarrow> pattern_element \<times> 's" where
  "visit_element f x s =
     (let (n, s1) = visit_node f (elem_node x) s; (r, s2) = visit_rel f (elem_rel x) s1
      in (x\<lparr>elem_node := n, elem_rel := r\<rparr>, s2))"

lemma bind_node:
  assumes "i + length (props_lits (node_props n)) \<le> length ls"
  shows "binds ls (\<lambda>n. props_lits (node_props n)) n i (visit_node (replace_literal ls) n i)"
  using bind_props[OF assms] by (auto simp: binds_def visit_node_def split: prod.split)

abbreviation rel_lits :: "pattern_relationship option \<Rightarrow> string list" where
  "rel_lits r \<equiv> (case r of None \<Rightarrow> [] | Some r \<Rightarrow> props_lits (rel_props r))"

lemma bind_rel:
  assumes "i + length (rel_lits r) \<le> length ls"
  shows "binds ls rel_lits r i (visit_rel (replace_literal ls) r i)"
proof (cases r)
  case (Some a)
  then show ?thesis
    using assms bind_props[of i "rel_props a" ls] by (auto simp: binds_def split: prod.split)
qed (simp add: binds_def)

lemma bind_element:
  assumes "i + length (element_lits x) \<le> length ls"
  shows "binds ls element_lits x i (visit_element (replace_literal ls) x i)"
proof -
  obtain n i1 where n: "visit_node (replace_literal ls) (elem_node x) i = (n, i1)" by fastforce
  obtain r i2 where r: "visit_rel (replace_literal ls) (elem_rel x) i1 = (r, i2)" by fastforce
  have b: "i + (length (props_lits (node_props (elem_node x))) + length (rel_lits (elem_rel x))) \<le> length ls"
    using assms by (simp add: element_lits_def)
  have N: "binds ls (\<lambda>n. props_lits (node_props n)) (elem_node x) i (n, i1)"
    using bind_node[of i "elem_node x" ls] n b by simp
  have R: "binds ls rel_lits (elem_rel x) i1 (r, i2)"
    using bind_rel[of i1 "elem_rel x" ls] r bindsD(1)[OF N] b by simp
  have "visit_element (replace_literal ls) x i = (x\<lparr>elem_node := n, elem_rel := r\<rparr>, i2)"
    by (simp add: visit_element_def n r)
  then show ?thesis
    using binds_both[OF N R b] by (auto simp: binds_def element_lits_def)
qed

lemma bind_paths:
  assumes "i + length (concat (map path_lits ps)) \<le> length ls"
  shows "binds ls (\<lambda>ps. concat (map path_lits ps)) ps i (visit_paths (replace_literal ls) ps i)"
proof (rule bind_list[where v = "visit_path (replace_literal ls)"])
  fix p i assume "i + length (path_lits p) \<le> length ls"
  then have "binds ls (\<lambda>p. concat (map element_lits p)) p i (visit_path (replace_literal ls) p i)"
  proof (intro bind_list[where v = "visit_element (replace_literal ls)"])
    fix x xs i
    show "visit_path (replace_literal ls) (x # xs) i =
        (let (x', i1) = visit_element (replace_literal ls) x i; (xs', i2) = visit_path (replace_literal ls) xs i1
         in (x' # xs', i2))"
      by (simp add: visit_element_def split: prod.split)
  qed (simp_all add: bind_element path_lits_def)
  then show "binds ls path_lits p i (visit_path (replace_literal ls) p i)"
    by (simp add: path_lits_def[abs_def])
qed (use assms in auto)

lemma bind_assignments:
  assumes "i + length (concat (map (\<lambda>a. expr_lits (asgn_value a)) as)) \<le> length ls"
  shows "binds ls (\<lambda>as. concat (map (\<lambda>a. expr_lits (asgn_value a)) as)) as i
           (visit_assignments (replace_literal ls) as i)"
proof (rule bind_list[where v = "\<lambda>a i. let (e, j) = visit_expr (replace_literal ls) (asgn_value a) i
      in (a\<lparr>asgn_value := e\<rparr>, j)"])
  fix a :: assignment and i assume "i + length (expr_lits (asgn_value a)) \<le> length ls"
  then show "binds ls (\<lambda>a. expr_lits (asgn_value a)) a i
      (let (e, j) = visit_expr (replace_literal ls) (asgn_value a) i in (a\<lparr>asgn_value := e\<rparr>, j))"
    using bind_expr[of i "asgn_value a" ls] by (auto simp: binds_def split: prod.split)
qed (use assms in \<open>auto split: prod.split\<close>)

lemma bind_clause:
  assumes "i + length (clause_lits c) \<le> length ls"
  shows "binds ls clause_lits c i (visit_clause (replace_literal ls) c i)"
proof (cases c)
  case (Create_clause ps)
  then show ?thesis using assms bind_paths[of i ps ls] by (auto simp: binds_def split: prod.split)
next
  case (Where_clause w)
  then show ?thesis
    using assms bind_expr[of i "where_condition w" ls] by (auto simp: binds_def split: prod.split)
next
  case (Set_clause as)
  then show ?thesis using assms bind_assignments[of i as ls] by (auto simp: binds_def split: prod.split)
next
  case (Unwind_clause e a)
  then show ?thesis using assms bind_expr[of i e ls] by (auto simp: binds_def split: prod.split)
qed (simp_all add: binds_def)

lemma bind_statement:
  assumes "i + length (statement_lits st) \<le> length ls"
  shows "binds ls statement_lits st i (visit_literals (replace_literal ls) st i)"
proof -
  have "binds ls (\<lambda>st. concat (map clause_lits st)) st i (visit_literals (replace_literal ls) st i)"
    by (rule bind_list[where v = "visit_clause (replace_literal ls)"])
      (use assms in \<open>auto simp: bind_clause statement_lits_def split: prod.split\<close>)
  then show ?thesis by (simp add: statement_lits_def[abs_def])
qed

text \<open>Binding changes nothing that the key of a tree reads.\<close>

lemma visit_clause_key: "clause_key (fst (visit_clause f c s)) = clause_key c"
proof (cases c)
  case (Set_clause as)
  have "map (\<lambda>a. asgn_variable a @ ''.'' @ asgn_property a @ ''=$,'') (fst (visit_assignments f as s)) =
      map (\<lambda>a. asgn_variable a @ ''.'' @ asgn_property a @ ''=$,'') as"
    by (induction as arbitrary: s) (simp_all add: case_prod_beta Let_def)
  then show ?thesis using Set_clause by (simp add: case_prod_beta Let_def)
qed (simp_all split: prod.split)

lemma visit_statement_key: "ast_cache_key (fst (visit_literals f st s)) = ast_cache_key st"
proof (induction f st s rule: visit_literals.induct)
  case (2 f c cs s)
  then show ?case
    using visit_clause_key[of f c s] by (auto simp: ast_cache_key_def split: prod.split)
qed simp

section \<open>What the deep copy preserves\<close>

lemma clone_expr_ok: "expr_ok e \<Longrightarrow> clone_expr e = e"
proof (induction e)
  case (List_literal es)
  then show ?case by (auto intro: map_idI)
next
  case (Map_literal m)
  have "map (\<lambda>p. (fst p, clone_expr (snd p))) m = m"
    using Map_literal by (intro map_idI) (auto simp: prod_eq_iff snds.simps)
  then show ?case using Map_literal.prems by (simp add: map_from_sorted)
qed auto

lemma plain_expr_ok: "plain_expr e \<Longrightarrow> expr_ok e"
  by (induction e) (auto simp: snds.simps)

lemma clone_plain: "plain_expr e \<Longrightarrow> clone_expr e = e"
  by (rule clone_expr_ok[OF plain_expr_ok])

lemma clone_props_plain: "plain_props m \<Longrightarrow> clone_props m = m"
  using clone_plain[of "Map_literal m"] by (simp add: plain_props_def clone_props_def)

lemma clone_path_shape: "path_shape p \<Longrightarrow> clone_path p = p"
  by (induction p rule: path_shape.induct)
    (auto simp: clone_path_def clone_props_plain split: option.splits)

text \<open>The legacy value of a WHERE clause whose condition is a comparison refers to the
  condition in the copy even where the parser left it null.\<close>

fun share_right :: "clause \<Rightarrow> clause" where
  "share_right (Where_clause w) =
     Where_clause (case where_condition w of Binary l op r \<Rightarrow> w\<lparr>where_val := Shared_right\<rparr> | _ \<Rightarrow> w)"
| "share_right c = c"

lemma copy_clause_shape: "clause_shape c \<Longrightarrow> copy_clause c = share_right c"
proof (cases c)
  case (Where_clause w)
  assume "clause_shape c"
  then show ?thesis
    using Where_clause
    by (cases w; cases "where_condition w")
      (auto simp: copy_where_def clone_plain clone_expr_ok plain_expr_ok where_of_def
        split: expression.splits simp del: clone_expr.simps(5,6))
qed (auto simp: clone_path_shape clone_plain map_idI)

section \<open>Properties\<close>

text \<open>Binding the literals that were extracted from a statement leaves it as it was.\<close>

lemma bind_extracted_literals: "bind_literals st (extract_literals st) = st"
  using bind_statement[of 0 st "extract_literals st"]
  by (simp add: bind_literals_def extract_lits binds_def seg_def)

text \<open>Binding as many values as the statement has literals makes them its literals, in order,
  so that the two traversals agree; and it does not change the statement's key.\<close>

lemma extract_bound_literals:
  assumes "length lits = length (extract_literals st)"
  shows "extract_literals (bind_literals st lits) = lits
    \<and> ast_cache_key (bind_literals st lits) = ast_cache_key st"
  using bind_statement[of 0 st lits] assms visit_statement_key[of "replace_literal lits" st 0]
  by (simp add: bind_literals_def extract_lits binds_def seg_def)

lemma extract_bound_literals_witness:
  "extract_literals (bind_literals (projr (parse_query ''CREATE (n:P {b: 1, a: 2}) SET n.c = 3'')) [''x'', ''y'', ''z'']) =
     [''x'', ''y'', ''z'']"
proof -
  have "length [''x'', ''y'', ''z''] =
      length (extract_literals (projr (parse_query ''CREATE (n:P {b: 1, a: 2}) SET n.c = 3'')))"
    by code_simp
  from extract_bound_literals[OF this] show ?thesis by blast
qed

text \<open>C37: the deep copy of a parsed statement is the statement itself, except that the legacy
  value of a WHERE comparison always refers to the right side of the copied condition.\<close>

theorem deep_copy_parsed:
  assumes "parse_query q = Inr st"
  shows "deep_copy_statement st = map share_right st"
proof -
  have "\<forall>c\<in>set st. clause_shape c"
    using assms unfolding parse_query_def parse_def by (rule parse_loop_shape)
  then show ?thesis by (simp add: deep_copy_statement_def copy_clause_shape)
qed

lemma deep_copy_parsed_witness:
  "deep_copy_statement (projr (parse_query ''MATCH (n) WHERE 3 = n.age RETURN n'')) =
     map share_right (projr (parse_query ''MATCH (n) WHERE 3 = n.age RETURN n''))"
proof (rule deep_copy_parsed)
  show "parse_query ''MATCH (n) WHERE 3 = n.age RETURN n'' =
    Inr (projr (parse_query ''MATCH (n) WHERE 3 = n.age RETURN n''))"
    by code_simp
qed

lemma digit_not_quote: "is_digit c \<Longrightarrow> c \<noteq> squote \<and> c \<noteq> dquote"
  by (auto simp: is_digit_def)

lemma number_span_shorter: "number_start (c # cs) \<Longrightarrow> length (snd (number_span (c # cs))) \<le> length cs"
  by (auto simp: number_span_def number_start_def Let_def length_dropWhile_le split: list.splits)

lemma normalize_from_no_quote:
  assumes x: "x = squote \<or> x = dquote"
  shows "x \<notin> set (fst (normalize_from prev n s))"
proof (induction s arbitrary: prev n rule: length_induct)
  case (1 s)
  have IH: "x \<notin> set (fst (normalize_from prev n t))" if "length t < length s" for prev n t
    using 1 that by blast
  have dec: "x \<notin> set (to_decimal n)" "x \<noteq> CHR ''$''" for n
    using x to_decimal_digits digit_not_quote by auto
  show ?case
  proof (cases s)
    case (Cons c cs)
    obtain b r where span: "quoted_span c cs = (b, r)" by fastforce
    obtain m t where num: "number_span (c # cs) = (m, t)" by fastforce
    have "length r \<le> length cs" using quoted_span_append[OF span] by simp
    then have r: "x \<notin> set (fst (normalize_from prev n (tl r)))" "x \<notin> set (fst (normalize_from prev n cs))" for prev n
      by (auto intro!: IH simp: Cons)
    have t: "x \<notin> set (fst (normalize_from prev n t))" if "number_start (c # cs)" for prev n
      using number_span_shorter[OF that] num by (intro IH) (simp add: Cons)
    show ?thesis
    proof (cases "c = squote \<or> c = dquote")
      case True
      then show ?thesis
        using dec r(1) by (cases r) (simp_all add: Cons span case_prod_beta Let_def)
    next
      case False
      then show ?thesis
        using dec r(2) t x by (auto simp: Cons num case_prod_beta Let_def split: option.split)
    qed
  qed simp
qed

text \<open>The normalised query, which is meant as a cache key, never contains a quote: no
  string literal of the query is left in it, closed or not.\<close>

theorem normalize_query_no_quotes:
  "squote \<notin> set (fst (normalize_query q)) \<and> dquote \<notin> set (fst (normalize_query q))"
  by (simp add: normalize_query_def normalize_from_no_quote)

text \<open>The literals that \<open>normalize_query\<close> takes from a text come in the order of the text and
  include those of MATCH and RETURN, while \<open>bind_literals\<close> goes through the maps in the order of
  their keys and skips MATCH and RETURN: binding a query's own literals into its own tree
  already changes the tree, and two queries with one key can have no bindable literal.\<close>

theorem normalize_bind_disagree:
  "bind_literals (projr (parse_query ''CREATE (n {name: 7, age: 30})''))
       (snd (normalize_query ''CREATE (n {name: 7, age: 30})''))
     = projr (parse_query ''CREATE (n {name: 30, age: 7})'')
   \<and> fst (normalize_query ''MATCH (n {age: 7}) RETURN n'') = fst (normalize_query ''MATCH (n {age: 8}) RETURN n'')
   \<and> bind_literals (projr (parse_query ''MATCH (n {age: 7}) RETURN n'')) (snd (normalize_query ''MATCH (n {age: 8}) RETURN n''))
     \<noteq> projr (parse_query ''MATCH (n {age: 8}) RETURN n'')"
  by code_simp

text \<open>The key of a tree forgets everything of CREATE, RETURN, DELETE and UNWIND clauses, so
  different statements share it.\<close>

theorem ast_cache_key_collision:
  "ast_cache_key [Create_clause ps, Return_clause rs, Delete_clause vs d, Unwind_clause e a]
     = ''CREATE|RETURN|DELETE|UNWIND|''"
  by (simp add: ast_cache_key_def)

end
