(* ===== verification/Key_Codec.thy ===== *)
theory Key_Codec
  imports Graph_Prelude
begin

text \<open>
  The byte encodings of \<open>storage.cpp\<close>: big-endian keys made with \<open>__builtin_bswap64\<close> and
  \<open>memcpy\<close> on a little-endian machine, packed id lists, index keys and the value of an edge.
  A byte string is a \<open>string\<close>; its order is the byte-wise order of \<open>memcmp\<close> and
  \<open>std::string\<close>.
\<close>

section \<open>Words in memory\<close>

lemma code_less: "code c < 256"
  by simp

lemma unat_of_nat_small: "n < 2 ^ 64 \<Longrightarrow> unat (of_nat n :: u64) = n"
  by (simp add: unat_of_nat take_bit_nat_eq_self_iff)

text \<open>The \<open>k\<close> lowest bytes of a number as they lie in little-endian memory, and back.\<close>

fun le_chars :: "nat \<Rightarrow> nat \<Rightarrow> bytes" where
  "le_chars 0 n = []"
| "le_chars (Suc k) n = char_of n # le_chars k (n div 256)"

fun le_value :: "bytes \<Rightarrow> nat" where
  "le_value [] = 0"
| "le_value (c # cs) = code c + 256 * le_value cs"

lemma length_le_chars [simp]: "length (le_chars k n) = k"
  by (induction k n rule: le_chars.induct) auto

lemma le_value_chars: "le_value (le_chars k n) = n mod 256 ^ k"
proof (induction k n rule: le_chars.induct)
  case (2 k n)
  have "n mod (256 * 256 ^ k) = 256 * (n div 256 mod 256 ^ k) + n mod 256" by (rule mod_mult2_eq)
  with 2 show ?case by simp
qed simp

lemma le_value_less: "le_value bs < 256 ^ length bs"
proof (induction bs)
  case (Cons c cs)
  have "code c + 256 * le_value cs < 256 * Suc (le_value cs)" using code_less[of c] by simp
  also have "\<dots> \<le> 256 * 256 ^ length cs" using Cons by (intro mult_le_mono2) simp
  finally show ?case by simp
qed simp

lemma le_chars_value: "length bs = k \<Longrightarrow> le_chars k (le_value bs) = bs"
proof (induction bs arbitrary: k)
  case (Cons c cs)
  have "char_of (code c + 256 * le_value cs) = c"
    by (metis char_of_char char_of_mod_256 mod_mult_self2)
  moreover have "(code c + 256 * le_value cs) div 256 = le_value cs" by simp
  ultimately show ?case using Cons by auto
qed simp

definition bswap64 :: "u64 \<Rightarrow> u64" where
  "bswap64 w = of_nat (le_value (rev (le_chars 8 (unat w))))"

definition write_key :: "u64 \<Rightarrow> bytes" where
  \<comment> \<open>the eight bytes that the call leaves in the buffer\<close>
  "write_key w = le_chars 8 (unat (bswap64 w))"

definition to_key :: "u64 \<Rightarrow> bytes" where
  "to_key w = write_key w"

definition from_key_ptr :: "bytes \<Rightarrow> u64" where
  \<comment> \<open>reads eight bytes at the pointer\<close>
  "from_key_ptr p = bswap64 (of_nat (le_value (take 8 p)))"

definition from_key :: "bytes \<Rightarrow> u64" where
  "from_key s = (if length s < 8 then 0 else from_key_ptr s)"

lemma unat_bswap64: "unat (bswap64 w) = le_value (rev (le_chars 8 (unat w)))"
proof -
  have "le_value (rev (le_chars 8 (unat w))) < 2 ^ 64"
    using le_value_less[of "rev (le_chars 8 (unat w))"] by simp
  then show ?thesis by (simp add: bswap64_def unat_of_nat_small)
qed

lemma unat_u64_less: "unat (w :: u64) < 2 ^ 64"
proof -
  have "unat w < 2 ^ LENGTH(64)" by (rule unsigned_less)
  then show ?thesis by simp
qed

lemma unat_u64_mod: "unat (w :: u64) mod 256 ^ 8 = unat w"
  using unat_u64_less[of w] by simp

lemma bswap64_bswap64 [simp]: "bswap64 (bswap64 w) = w"
proof -
  have "le_chars 8 (unat (bswap64 w)) = rev (le_chars 8 (unat w))"
    by (simp add: unat_bswap64 le_chars_value)
  then have "bswap64 (bswap64 w) = of_nat (le_value (le_chars 8 (unat w)))"
    by (simp add: bswap64_def[of "bswap64 w"])
  then show ?thesis by (simp add: le_value_chars unat_u64_mod del: power_numeral)
qed

lemma to_key_rev: "to_key w = rev (le_chars 8 (unat w))"
  by (simp add: to_key_def write_key_def unat_bswap64 le_chars_value)

lemma length_to_key [simp]: "length (to_key w) = 8"
  by (simp add: to_key_rev)

lemma write_key_to_key [simp]: "write_key w = to_key w"
  by (simp add: to_key_def)

lemma from_to_key [simp]: "from_key_ptr (to_key w @ r) = w"
proof -
  have "(of_nat (le_value (to_key w)) :: u64) = bswap64 w"
    by (simp add: to_key_rev bswap64_def)
  then show ?thesis by (simp add: from_key_ptr_def)
qed

lemma from_to_key' [simp]: "from_key_ptr (to_key w) = w"
  using from_to_key[of w "[]"] by simp

lemma to_from_key: "8 \<le> length p \<Longrightarrow> to_key (from_key_ptr p) = take 8 p"
proof -
  assume p: "8 \<le> length p"
  have "le_value (take 8 p) < 2 ^ 64" using le_value_less[of "take 8 p"] p by simp
  then have "unat (of_nat (le_value (take 8 p)) :: u64) = le_value (take 8 p)"
    by (simp add: unat_of_nat_small)
  then have "le_chars 8 (unat (of_nat (le_value (take 8 p)) :: u64)) = take 8 p"
    using p by (simp add: le_chars_value)
  then show ?thesis
    by (simp only: to_key_def write_key_def from_key_ptr_def bswap64_bswap64)
qed

lemma to_key_inj [simp]: "to_key a = to_key b \<longleftrightarrow> a = b"
  by (metis from_to_key')

section \<open>The order of keys\<close>

text \<open>Equally long byte strings are ordered as the big-endian numbers they spell.\<close>

fun be_value :: "bytes \<Rightarrow> nat" where
  "be_value [] = 0"
| "be_value (c # cs) = code c * 256 ^ length cs + be_value cs"

lemma be_value_less: "be_value bs < 256 ^ length bs"
proof (induction bs)
  case (Cons c cs)
  have "code c \<le> 255" using code_less[of c] by linarith
  then have "code c * 256 ^ length cs \<le> 255 * 256 ^ length cs" by simp
  with Cons show ?case by (simp only: be_value.simps length_Cons power_Suc)
qed simp

lemma be_value_append: "be_value (xs @ ys) = be_value xs * 256 ^ length ys + be_value ys"
  by (induction xs) (simp_all add: algebra_simps power_add)

lemma be_value_rev: "be_value (rev bs) = le_value bs"
  by (induction bs) (simp_all add: be_value_append)

lemma be_value_to_key: "be_value (to_key w) = unat w"
  by (simp only: to_key_rev be_value_rev le_value_chars unat_u64_mod)

lemma less_be_value:
  "length xs = length ys \<Longrightarrow> xs < ys \<longleftrightarrow> be_value xs < be_value ys"
proof (induction xs ys rule: list_induct2)
  case (Cons x xs y ys)
  have b: "be_value xs < 256 ^ length ys" "be_value ys < 256 ^ length ys"
    using be_value_less[of xs] be_value_less[of ys] Cons.hyps by simp_all
  have code_less: "x < y \<longleftrightarrow> code x < code y" by (simp add: less_char_def)
  have "code x < code y \<Longrightarrow> be_value (x # xs) < be_value (y # ys)"
  proof -
    assume "code x < code y"
    then have "(code x + 1) * 256 ^ length ys \<le> code y * 256 ^ length ys" by (intro mult_le_mono1) simp
    then show ?thesis using b Cons.hyps by (simp add: algebra_simps)
  qed
  moreover have "code y < code x \<Longrightarrow> be_value (y # ys) < be_value (x # xs)"
  proof -
    assume "code y < code x"
    then have "(code y + 1) * 256 ^ length ys \<le> code x * 256 ^ length ys" by (intro mult_le_mono1) simp
    then show ?thesis using b Cons.hyps by (simp add: algebra_simps)
  qed
  ultimately show ?case
    using Cons code_less by (cases "code x" "code y" rule: linorder_cases) auto
qed simp

lemma to_key_less: "to_key a < to_key b \<longleftrightarrow> a < b"
  by (simp add: less_be_value be_value_to_key word_less_nat_alt)

section \<open>Packed id lists\<close>

function unpack_ids :: "bytes \<Rightarrow> u64 list" where
  "unpack_ids packed =
     (if 8 \<le> length packed then from_key_ptr packed # unpack_ids (drop 8 packed) else [])"
  by pat_completeness auto
termination by (relation "measure length") auto

function remove_packed_id :: "bytes \<Rightarrow> u64 \<Rightarrow> bytes" where
  "remove_packed_id existing node_id =
     (if 8 \<le> length existing then
        (if take 8 existing \<noteq> write_key node_id then take 8 existing else [])
        @ remove_packed_id (drop 8 existing) node_id
      else [])"
  by pat_completeness auto
termination by (relation "measure (\<lambda>(e, i). length e)") auto

declare unpack_ids.simps [simp del] remove_packed_id.simps [simp del]

lemma unpack_nil [simp]: "unpack_ids [] = []"
  by (simp add: unpack_ids.simps)

lemma unpack_to_key [simp]: "unpack_ids (to_key i @ r) = i # unpack_ids r"
  by (subst unpack_ids.simps) simp

definition pack_ids :: "u64 list \<Rightarrow> bytes" where
  "pack_ids ids = concat (map to_key ids)"

lemma unpack_pack: "unpack_ids (pack_ids ids) = ids"
  by (induction ids) (simp_all add: pack_ids_def)

text \<open>Every whole number of records is the packing of some list.\<close>

lemma packed_exists: "length p mod 8 = 0 \<Longrightarrow> \<exists>ids. p = pack_ids ids"
proof (induction "length p" arbitrary: p rule: less_induct)
  case less
  show ?case
  proof (cases "8 \<le> length p")
    case True
    then obtain ids where "drop 8 p = pack_ids ids"
      using less by (metis (no_types, lifting) diff_less dvd_diff_nat dvd_refl length_drop less_le_trans mod_0_imp_dvd mod_eq_0_iff_dvd zero_less_numeral)
    then have "p = pack_ids (from_key_ptr p # ids)"
      using True append_take_drop_id[of 8 p] by (simp add: pack_ids_def to_from_key)
    then show ?thesis by blast
  next
    case False
    then have "p = pack_ids []" using less.prems by (simp add: pack_ids_def)
    then show ?thesis by blast
  qed
qed

lemma remove_pack: "remove_packed_id (pack_ids ids) i = pack_ids (filter (\<lambda>j. j \<noteq> i) ids)"
proof (induction ids)
  case Nil
  then show ?case by (simp add: pack_ids_def remove_packed_id.simps)
next
  case (Cons j ids)
  then show ?case
    by (subst remove_packed_id.simps) (simp add: pack_ids_def)
qed

lemma unpack_remove: "unpack_ids (remove_packed_id p i) = filter (\<lambda>j. j \<noteq> i) (unpack_ids p)"
proof (induction p i rule: remove_packed_id.induct)
  case (1 p i)
  show ?case
  proof (cases "8 \<le> length p")
    case True
    then have t: "take 8 p = to_key (from_key_ptr p)" by (simp add: to_from_key)
    show ?thesis
      using True 1 by (subst remove_packed_id.simps, subst (2) unpack_ids.simps) (auto simp: t)
  next
    case False
    then show ?thesis by (subst remove_packed_id.simps, subst (2) unpack_ids.simps) simp
  qed
qed

lemma unpack_append: "length p mod 8 = 0 \<Longrightarrow> unpack_ids (p @ r) = unpack_ids p @ unpack_ids r"
proof -
  assume "length p mod 8 = 0"
  from packed_exists[OF this] obtain ids where "p = pack_ids ids" ..
  moreover have "unpack_ids (pack_ids ids @ r) = ids @ unpack_ids r"
    by (induction ids) (simp_all add: pack_ids_def)
  ultimately show ?thesis by (simp add: unpack_pack)
qed

section \<open>Edge values\<close>

record edge_data =
  from_id :: u64
  to_id :: u64
  edge_label :: string
  edge_properties :: string

definition encode_edge :: "u64 \<Rightarrow> u64 \<Rightarrow> string \<Rightarrow> string \<Rightarrow> bytes" where
  \<comment> \<open>from(8) + to(8) + label size(4) + label + properties; the size is cast to 32 bits\<close>
  "encode_edge from to label props =
     write_key from @ write_key to @ le_chars 4 (unat (of_nat (length label) :: u32)) @ label @ props"

text \<open>
  Decoding: \<open>Ok None\<close> of the code is \<open>return false\<close>.  The bound is computed in
  \<open>uint32_t\<close>, so a label size above \<open>2\<^sup>3\<^sup>2 - 21\<close> passes the test and the read leaves the
  buffer.
\<close>

datatype 'a decoded = Decoded 'a | Rejected | Out_of_bounds

definition decode_edge :: "bytes \<Rightarrow> edge_data decoded" where
  "decode_edge value =
     (if length value < 20 then Rejected
      else
        let label_size = (of_nat (le_value (take 4 (drop 16 value))) :: u32);
            header = 20 + label_size
        in if unat header > length value then Rejected
           else if 20 + unat label_size > length value then Out_of_bounds
           else Decoded \<lparr>from_id = from_key_ptr value, to_id = from_key_ptr (drop 8 value),
                  edge_label = take (unat label_size) (drop 20 value),
                  edge_properties = drop (unat header) value\<rparr>)"

lemma decode_encode_edge:
  assumes "length label + 20 < 2 ^ 32"
  shows "decode_edge (encode_edge f t label props) =
    Decoded \<lparr>from_id = f, to_id = t, edge_label = label, edge_properties = props\<rparr>"
proof -
  let ?v = "encode_edge f t label props"
  let ?n = "of_nat (length label) :: u32"
  have n: "unat ?n = length label"
    using assms by (simp add: unat_of_nat)
  have n20: "unat (20 + ?n) = 20 + length label"
  proof -
    have "20 + ?n = of_nat (20 + length label)" by simp
    then show ?thesis using assms by (simp only: unat_of_nat) simp
  qed
  have le: "le_value (le_chars 4 (length label)) = length label"
    using assms by (simp add: le_value_chars)
  have v: "?v = to_key f @ to_key t @ le_chars 4 (length label) @ label @ props"
    by (simp add: encode_edge_def n)
  have "take 4 (drop 16 ?v) = le_chars 4 (length label)" "take (length label) (drop 20 ?v) = label"
    "drop (20 + length label) ?v = props" "from_key_ptr (drop 8 ?v) = t" "from_key_ptr ?v = f"
    unfolding v by simp_all
  moreover have "length ?v = 20 + length label + length props" unfolding v by simp
  ultimately show ?thesis
    by (simp add: decode_edge_def Let_def le n n20)
qed

end
