(* ===== verification/Cpp_Double.thy ===== *)
theory Cpp_Double
  imports Key_Codec
begin

text \<open>
  \<open>double\<close> as the 64 bits of IEEE 754 binary64, with what the storage and the executor use of
  it: the comparisons, \<open>std::stod\<close> and the sortable encoding of ADR-0013.  Numbers are
  exact integers in units of \<open>2\<^sup>-\<^sup>1\<^sup>0\<^sup>7\<^sup>4\<close>, the least positive double, so that everything
  here computes.  \<open>stod\<close> rounds to nearest, ties to even; it throws out of range on
  overflow and on an inexact subnormal result; the payload of \<open>nan(...)\<close>, which the C
  standard leaves to the implementation, is not represented.
\<close>

type_synonym double = u64

section \<open>Values and comparisons\<close>

definition sign_bit :: "double \<Rightarrow> bool" where
  "sign_bit w \<longleftrightarrow> bit w 63"

definition magnitude :: "double \<Rightarrow> int" where
  "magnitude w = uint w mod 2 ^ 63"

definition mag_value :: "int \<Rightarrow> int" where
  "mag_value m = (let e = m div 2 ^ 52; f = m mod 2 ^ 52 in
     if e = 0 then f else (2 ^ 52 + f) * 2 ^ nat (e - 1))"

definition double_value :: "double \<Rightarrow> int" where
  "double_value w = (if sign_bit w then - mag_value (magnitude w) else mag_value (magnitude w))"

definition is_nan :: "double \<Rightarrow> bool" where
  "is_nan w \<longleftrightarrow> magnitude w > 2047 * 2 ^ 52"

definition double_less :: "double \<Rightarrow> double \<Rightarrow> bool" where
  "double_less a b \<longleftrightarrow> \<not> is_nan a \<and> \<not> is_nan b \<and> double_value a < double_value b"

definition double_eq :: "double \<Rightarrow> double \<Rightarrow> bool" where
  "double_eq a b \<longleftrightarrow> \<not> is_nan a \<and> \<not> is_nan b \<and> double_value a = double_value b"

definition double_le :: "double \<Rightarrow> double \<Rightarrow> bool" where
  "double_le a b \<longleftrightarrow> double_less a b \<or> double_eq a b"

section \<open>The sortable encoding\<close>

definition encode_sortable_bits :: "double \<Rightarrow> u64" where
  "encode_sortable_bits bits =
     (if bits AND push_bit 63 1 \<noteq> 0 then NOT bits else bits XOR push_bit 63 1)"

definition encode_sortable_double :: "double \<Rightarrow> bytes" where
  "encode_sortable_double val = le_chars 8 (unat (bswap64 (encode_sortable_bits val)))"

definition decode_sortable_double :: "bytes \<Rightarrow> double" where
  "decode_sortable_double buf =
     (let bits = bswap64 (of_nat (le_value (take 8 buf))) in
      if bits AND push_bit 63 1 \<noteq> 0 then bits XOR push_bit 63 1 else NOT bits)"

section \<open>Reading a number\<close>

definition round_half_even :: "int \<Rightarrow> int \<Rightarrow> int" where
  "round_half_even n d =
     (let q = n div d; r = n mod d in if 2 * r > d \<or> 2 * r = d \<and> odd q then q + 1 else q)"

function bit_length :: "int \<Rightarrow> nat" where
  "bit_length n = (if n \<le> 0 then 0 else Suc (bit_length (n div 2)))"
  by pat_completeness auto
termination by (relation "measure nat") auto

declare bit_length.simps [simp del]

text \<open>The bits of the double nearest to the rational \<open>n / d\<close>, in \<open>[0, 2\<^sup>6\<^sup>3)\<close> unless it overflows.\<close>

definition nearest_bits :: "int \<Rightarrow> int \<Rightarrow> int" where
  "nearest_bits n d =
     (let N = n * 2 ^ 1074; sh = bit_length (N div d) - 53
      in int sh * 2 ^ 52 + round_half_even N (d * 2 ^ sh))"

datatype stod_result = Stod double | Invalid_argument | Stod_out_of_range

definition to_double :: "bool \<Rightarrow> int \<Rightarrow> int \<Rightarrow> stod_result" where
  "to_double neg n d =
     (let b = nearest_bits n d in
      if b \<ge> 2047 * 2 ^ 52 then Stod_out_of_range
      else if b < 2 ^ 52 \<and> b * d \<noteq> n * 2 ^ 1074 then Stod_out_of_range
      else Stod (of_int b OR (if neg then push_bit 63 1 else 0)))"

definition digit_value :: "char \<Rightarrow> int" where
  "digit_value c =
     (if is_digit c then int (code c) - 48
      else if is_lower c then int (code c) - 87 else int (code c) - 55)"

definition is_hex_digit :: "char \<Rightarrow> bool" where
  "is_hex_digit c \<longleftrightarrow> is_digit c \<or> 65 \<le> code c \<and> code c \<le> 70 \<or> 97 \<le> code c \<and> code c \<le> 102"

fun number_value :: "int \<Rightarrow> int \<Rightarrow> string \<Rightarrow> int" where
  "number_value base acc [] = acc"
| "number_value base acc (c # cs) = number_value base (base * acc + digit_value c) cs"

text \<open>Digits with an optional point: all digits, how many follow the point, and the rest.\<close>

definition span_number :: "(char \<Rightarrow> bool) \<Rightarrow> string \<Rightarrow> string \<times> nat \<times> string" where
  "span_number P s =
     (let whole = takeWhile P s; r = dropWhile P s in
      case r of
        [] \<Rightarrow> (whole, 0, [])
      | c # cs \<Rightarrow>
          if c = CHR ''.'' then (whole @ takeWhile P cs, length (takeWhile P cs), dropWhile P cs)
          else (whole, 0, r))"

text \<open>An exponent \<open>e[+-]digits\<close>; without digits there is none.\<close>

definition span_exponent :: "char \<Rightarrow> string \<Rightarrow> int" where
  "span_exponent letter s =
     (case s of
        [] \<Rightarrow> 0
      | c # cs \<Rightarrow>
          if to_upper c \<noteq> letter then 0
          else
            let neg = (cs \<noteq> [] \<and> hd cs = CHR ''-'');
                t = (if cs \<noteq> [] \<and> (hd cs = CHR ''-'' \<or> hd cs = CHR ''+'') then tl cs else cs);
                e = number_value 10 0 (takeWhile is_digit t)
            in if neg then - e else e)"

definition scaled :: "bool \<Rightarrow> int \<Rightarrow> int \<Rightarrow> int \<Rightarrow> stod_result" where
  "scaled neg m base e =
     (if m = 0 then Stod (if neg then push_bit 63 1 else 0)
      else if e \<ge> 0 then to_double neg (m * base ^ nat e) 1
      else to_double neg m (base ^ nat (- e)))"

definition starts_ci :: "string \<Rightarrow> string \<Rightarrow> bool" where
  "starts_ci kw s \<longleftrightarrow> map to_upper (take (length kw) s) = kw"

definition stod_decimal :: "bool \<Rightarrow> string \<Rightarrow> stod_result" where
  "stod_decimal neg s =
     (let (ds, frac, r) = span_number is_digit s in
      if ds = [] then Invalid_argument
      else scaled neg (number_value 10 0 ds) 10 (span_exponent CHR ''E'' r - int frac))"

definition stod :: "string \<Rightarrow> stod_result" where
  "stod str =
     (let s = dropWhile is_space (takeWhile (\<lambda>c. c \<noteq> nul) str);
          neg = (s \<noteq> [] \<and> hd s = CHR ''-'');
          t = (if s \<noteq> [] \<and> (hd s = CHR ''-'' \<or> hd s = CHR ''+'') then tl s else s);
          sign = (if neg then push_bit 63 1 else 0)
      in if starts_ci ''INF'' t then Stod (of_int (2047 * 2 ^ 52) OR sign)
         else if starts_ci ''NAN'' t then Stod (of_int (2047 * 2 ^ 52 + 2 ^ 51) OR sign)
         else if starts_ci ''0X'' t then
           (let (ds, frac, r) = span_number is_hex_digit (drop 2 t) in
            if ds = [] then stod_decimal neg t
            else scaled neg (number_value 16 0 ds) 2 (span_exponent CHR ''P'' r - 4 * int frac))
         else stod_decimal neg t)"

section \<open>The encoding is a bijection and keeps the order\<close>

lemma push_bit_63: "(push_bit 63 1 :: u64) = 0x8000000000000000"
  by simp

lemma top_bit_test: "(w AND push_bit 63 1 \<noteq> 0) = bit (w :: u64) 63"
  by (simp only: push_bit_eq_mult mult_1 and_exp_eq_0_iff_not_bit) simp

lemma decode_encode_bits:
  "(let bits = encode_sortable_bits w in
      if bits AND push_bit 63 1 \<noteq> 0 then bits XOR push_bit 63 1 else NOT bits) = w"
proof -
  define m where "m = (push_bit 63 1 :: u64)"
  have flip: "bit (v XOR m) 63 = (\<not> bit v 63)" for v
    by (simp add: m_def bit_simps)
  have not: "bit (NOT v) 63 = (\<not> bit v 63)" for v :: u64
    by (simp add: bit_simps)
  show ?thesis
    unfolding encode_sortable_bits_def Let_def top_bit_test unfolding m_def[symmetric]
    by (cases "bit w 63") (simp_all add: flip not xor.assoc)
qed

lemma encode_double_key: "encode_sortable_double w = to_key (encode_sortable_bits w)"
  by (simp only: encode_sortable_double_def to_key_def write_key_def)

lemma decode_encode_double: "decode_sortable_double (encode_sortable_double w @ r) = w"
  using from_to_key[of "encode_sortable_bits w" r] decode_encode_bits[of w]
  by (simp only: decode_sortable_double_def encode_double_key from_key_ptr_def)

lemma uint_u64_bounds: "0 \<le> uint (w :: u64)" "uint (w :: u64) < 2 ^ 64"
proof -
  have "uint w < 2 ^ LENGTH(64)" by (rule unsigned_less)
  then show "uint w < 2 ^ 64" by simp
qed simp

lemma sign_bit_uint: "sign_bit w \<longleftrightarrow> 2 ^ 63 \<le> uint w"
proof -
  have "bit w 63 \<longleftrightarrow> odd (uint w div 2 ^ 63)"
    by (simp only: bit_iff_odd[of "uint w" 63, symmetric] bit_unsigned_iff) simp
  moreover have "uint w div 2 ^ 63 = (if 2 ^ 63 \<le> uint w then 1 else 0)"
    using uint_u64_bounds[of w] by (auto simp: div_pos_pos_trivial intro: int_div_pos_eq[where r = "uint w - 2 ^ 63"])
  ultimately show ?thesis by (simp add: sign_bit_def)
qed

lemma magnitude_bounds: "0 \<le> magnitude w" "magnitude w < 2 ^ 63"
  by (simp_all add: magnitude_def)

lemma uint_magnitude: "uint w = (if sign_bit w then 2 ^ 63 else 0) + magnitude w"
proof (cases "sign_bit w")
  case True
  then have "(uint w - 2 ^ 63) mod 2 ^ 63 = uint w - 2 ^ 63"
    using uint_u64_bounds[of w] by (intro mod_pos_pos_trivial) (auto simp: sign_bit_uint)
  then show ?thesis using True by (simp add: magnitude_def mod_diff_right_eq)
next
  case False
  then show ?thesis using uint_u64_bounds[of w] by (simp add: magnitude_def sign_bit_uint)
qed

lemma uint_encode:
  "uint (encode_sortable_bits w) = (if sign_bit w then 2 ^ 63 - 1 - magnitude w else 2 ^ 63 + magnitude w)"
proof (cases "sign_bit w")
  case True
  have "uint (NOT w) = (- uint w - 1) mod 2 ^ 64"
    by (simp only: unsigned_not_eq) (simp add: not_eq_complement take_bit_eq_mod)
  also have "\<dots> = ((- uint w - 1) + 2 ^ 64) mod 2 ^ 64"
    by (simp only: mod_add_self2)
  also have "(- uint w - 1) + 2 ^ 64 = 2 ^ 64 - 1 - uint w" by simp
  also have "(2 ^ 64 - 1 - uint w) mod 2 ^ 64 = 2 ^ 64 - 1 - uint w"
    using uint_u64_bounds[of w] by (intro mod_pos_pos_trivial) linarith+
  finally show ?thesis
    using True uint_magnitude[of w] unfolding encode_sortable_bits_def top_bit_test
    by (simp add: sign_bit_def)
next
  case False
  have "uint w AND 2 ^ 63 = 0"
    using False by (simp only: and_exp_eq_0_iff_not_bit bit_unsigned_iff sign_bit_def) simp
  then have "uint w XOR 2 ^ 63 = uint w + 2 ^ 63"
    by (simp add: disjunctive_add_eq_xor)
  moreover have "uint (w XOR push_bit 63 1) = uint w XOR 2 ^ 63"
    by (simp add: unsigned_xor_eq)
  ultimately show ?thesis
    using False uint_magnitude[of w] unfolding encode_sortable_bits_def top_bit_test
    by (simp add: sign_bit_def)
qed

lemma mag_value_mono:
  assumes "0 \<le> m" "m < n"
  shows "mag_value m < mag_value n"
proof -
  let ?e = "\<lambda>x :: int. x div 2 ^ 52" let ?f = "\<lambda>x :: int. x mod 2 ^ 52"
  have f: "0 \<le> ?f x" "?f x < 2 ^ 52" for x by simp_all
  have e: "0 \<le> ?e m" using assms(1) by (simp add: pos_imp_zdiv_nonneg_iff)
  have "?e m \<le> ?e n" using assms(2) by (intro zdiv_mono1) auto
  then consider "?e m = ?e n" | "?e m < ?e n" by linarith
  then show ?thesis
  proof cases
    case 1
    have "m = 2 ^ 52 * ?e m + ?f m" "n = 2 ^ 52 * ?e n + ?f n" by simp_all
    then have "?f m < ?f n" using assms(2) 1 by (metis add_less_cancel_left)
    then show ?thesis using 1 assms(2) by (simp add: mag_value_def Let_def)
  next
    case 2
    have "mag_value m < 2 ^ 52 * 2 ^ nat (?e m)"
    proof (cases "?e m = 0")
      case True
      then show ?thesis using f[of m] by (simp add: mag_value_def Let_def)
    next
      case False
      then have p: "(2 :: int) ^ nat (?e m) = 2 * 2 ^ nat (?e m - 1)"
        using e by (simp add: power_Suc[symmetric] Suc_nat_eq_nat_zadd1 del: power_Suc)
      have "(2 ^ 52 + ?f m) * 2 ^ nat (?e m - 1) < (2 * 2 ^ 52) * 2 ^ nat (?e m - 1)"
        using f[of m] by (intro mult_strict_right_mono) auto
      then show ?thesis using False p by (simp add: mag_value_def Let_def)
    qed
    also have "\<dots> \<le> 2 ^ 52 * 2 ^ nat (?e n - 1)"
      using 2 e by (intro mult_left_mono power_increasing) auto
    also have "\<dots> \<le> (2 ^ 52 + ?f n) * 2 ^ nat (?e n - 1)"
      using f[of n] by (intro mult_right_mono) auto
    also have "\<dots> = mag_value n" using 2 e by (simp add: mag_value_def Let_def)
    finally show ?thesis .
  qed
qed

lemma mag_value_0 [simp]: "mag_value 0 = 0"
  by (simp add: mag_value_def)

lemma mag_value_less: "0 \<le> m \<Longrightarrow> 0 \<le> n \<Longrightarrow> mag_value m < mag_value n \<longleftrightarrow> m < n"
  by (metis linorder_neqE_linordered_idom mag_value_mono not_less_iff_gr_or_eq)

lemma mag_value_nonneg: "0 \<le> m \<Longrightarrow> 0 \<le> mag_value m"
  by (metis mag_value_0 mag_value_less not_less order.refl)

text \<open>
  The order of the encodings is the order of the values, where the two zeros, which are equal as
  values, are ordered with the negative one first.
\<close>

lemma encode_less:
  "encode_sortable_double a < encode_sortable_double b \<longleftrightarrow>
     double_value a < double_value b
     \<or> double_value a = double_value b \<and> sign_bit a \<and> \<not> sign_bit b"
proof -
  note m = magnitude_bounds[of a] magnitude_bounds[of b]
  have v: "mag_value (magnitude a) < mag_value (magnitude b) \<longleftrightarrow> magnitude a < magnitude b"
    "mag_value (magnitude b) < mag_value (magnitude a) \<longleftrightarrow> magnitude b < magnitude a"
    using m by (simp_all add: mag_value_less)
  have n: "0 \<le> mag_value (magnitude a)" "0 \<le> mag_value (magnitude b)"
    using m by (simp_all add: mag_value_nonneg)
  have "encode_sortable_double a < encode_sortable_double b \<longleftrightarrow>
      uint (encode_sortable_bits a) < uint (encode_sortable_bits b)"
    by (simp add: encode_double_key to_key_less word_less_def)
  then show ?thesis
    unfolding uint_encode double_value_def using m v n by auto
qed

section \<open>Integers are read exactly\<close>

lemma bit_length_pos: "0 < n \<Longrightarrow> bit_length n = Suc (bit_length (n div 2))"
  by (subst bit_length.simps) simp

lemma bit_length_double: "0 < n \<Longrightarrow> bit_length (n * 2 ^ k) = bit_length n + k"
proof (induction k)
  case (Suc k)
  have "n * 2 ^ Suc k div 2 = n * 2 ^ k" by simp
  then show ?case using Suc by (subst bit_length_pos) simp_all
qed simp

lemma bit_length_bounds: "0 < n \<Longrightarrow> 2 ^ (bit_length n - 1) \<le> n \<and> n < 2 ^ bit_length n"
proof (induction n rule: bit_length.induct)
  case (1 n)
  show ?case
  proof (cases "n = 1")
    case True
    then show ?thesis by (simp add: bit_length.simps)
  next
    case False
    let ?h = "n div 2"
    have h: "0 < ?h" using 1(2) False by linarith
    then have IH: "2 ^ (bit_length ?h - 1) \<le> ?h" "?h < 2 ^ bit_length ?h"
      using 1 by auto
    have "bit_length ?h = Suc (bit_length ?h - 1)" using h bit_length_pos by simp
    then have "(2 :: int) ^ bit_length ?h = 2 * 2 ^ (bit_length ?h - 1)" by (metis power_Suc)
    moreover have "2 * ?h \<le> n" "n < 2 * (?h + 1)" by presburger+
    ultimately show ?thesis
      using IH 1(2) by (subst (1 2) bit_length_pos) auto
  qed
qed

lemma double_value_of_int:
  assumes "0 \<le> b" "b < 2 ^ 63"
  shows "double_value (of_int b) = mag_value b" "magnitude (of_int b) = b"
proof -
  have u: "uint (of_int b :: u64) = b"
    using assms by (simp add: unsigned_of_int take_bit_eq_mod)
  then show m: "magnitude (of_int b) = b" using assms by (simp add: magnitude_def)
  show "double_value (of_int b) = mag_value b"
    using assms by (simp add: double_value_def m sign_bit_uint u)
qed

lemma round_exact: "0 < d \<Longrightarrow> round_half_even (f * d) d = f"
  by (simp add: round_half_even_def)

lemma to_double_int:
  assumes "0 < n" "n < 2 ^ 53"
  shows "to_double False n 1 = Stod (of_int (int (bit_length n + 1021) * 2 ^ 52 + n * 2 ^ (53 - bit_length n)))
    \<and> double_value (of_int (int (bit_length n + 1021) * 2 ^ 52 + n * 2 ^ (53 - bit_length n))) = n * 2 ^ 1074
    \<and> \<not> is_nan (of_int (int (bit_length n + 1021) * 2 ^ 52 + n * 2 ^ (53 - bit_length n)))"
proof -
  define b where "b = bit_length n"
  define sh where "sh = b + 1021"
  define f where "f = n * 2 ^ (53 - b)"
  have bounds: "2 ^ (b - 1) \<le> n" "n < 2 ^ b" using bit_length_bounds[OF assms(1)] by (auto simp: b_def)
  have b0: "0 < b" using assms(1) by (simp add: b_def bit_length_pos)
  have b53: "b \<le> 53"
  proof (rule ccontr)
    assume "\<not> b \<le> 53"
    then have "(2 :: int) ^ 53 \<le> 2 ^ (b - 1)" by (intro power_increasing) auto
    then show False using bounds assms(2) by linarith
  qed
  have two: "(2 :: int) ^ (b - 1) * 2 ^ (53 - b) = 2 ^ 52" "(2 :: int) ^ b * 2 ^ (53 - b) = 2 ^ 53"
    using b0 b53 by (simp_all add: power_add[symmetric])
  have f: "2 ^ 52 \<le> f" "f < 2 ^ 53"
    unfolding f_def two[symmetric] using bounds by (auto intro: mult_right_mono mult_strict_right_mono)
  have N: "n * 2 ^ 1074 = f * 2 ^ sh"
  proof -
    have "(2 :: int) ^ 1074 = 2 ^ ((53 - b) + sh)" using b53 by (simp add: sh_def)
    then show ?thesis unfolding f_def by (simp only: power_add mult.assoc)
  qed
  have "bit_length (n * 2 ^ 1074) = b + 1074"
    unfolding b_def by (rule bit_length_double[OF assms(1)])
  then have len: "bit_length (f * 2 ^ sh) - 53 = sh"
    unfolding N by (simp add: sh_def)
  have near: "nearest_bits n 1 = int sh * 2 ^ 52 + f"
    unfolding nearest_bits_def Let_def div_by_1 mult_1 N len by (simp add: round_exact)
  let ?bits = "int sh * 2 ^ 52 + f"
  have "sh \<le> 1074" using b53 by (simp add: sh_def)
  then have top: "?bits < 2047 * 2 ^ 52" using f by simp
  have low: "2 ^ 52 \<le> ?bits" using f by simp
  have bits: "?bits = (int sh + 1) * 2 ^ 52 + (f - 2 ^ 52)" by simp
  have "(f - 2 ^ 52) div 2 ^ 52 = 0" "(f - 2 ^ 52) mod 2 ^ 52 = f - 2 ^ 52"
    using f by (intro div_pos_pos_trivial mod_pos_pos_trivial; simp)+
  then have "?bits div 2 ^ 52 = int sh + 1" "?bits mod 2 ^ 52 = f - 2 ^ 52"
    unfolding bits by (simp_all only: mod_mult_self3) (subst div_mult_self3; simp)
  then have "mag_value ?bits = n * 2 ^ 1074"
    unfolding N by (simp add: mag_value_def Let_def del: power_numeral)
  moreover have "0 \<le> ?bits" "?bits < 2 ^ 63" using top f by simp_all
  note double_value_of_int[OF this]
  moreover have "to_double False n 1 = Stod (of_int ?bits)"
    using top low unfolding to_double_def near Let_def by (simp del: power_numeral)
  ultimately show ?thesis using top unfolding f_def sh_def b_def by (simp add: is_nan_def)
qed

lemmas to_double_bits = to_double_int[THEN conjunct1]

lemma number_value_append: "number_value b acc (xs @ ys) = number_value b (number_value b acc xs) ys"
  by (induction b acc xs rule: number_value.induct) auto

lemma number_value_decimal: "number_value 10 0 (to_decimal n) = int n"
proof (induction n rule: to_decimal.induct)
  case (1 n)
  have digit: "digit_value (char_of (48 + k)) = int k" if "k < 10" for k :: nat
    using that by (simp add: digit_value_def is_digit_def)
  show ?case
  proof (cases "n < 10")
    case True
    then show ?thesis by (subst to_decimal.simps) (simp add: digit)
  next
    case False
    then have "int n = 10 * int (n div 10) + int (n mod 10)"
      by (metis mult_div_mod_eq of_nat_add of_nat_mult of_nat_numeral)
    then show ?thesis
      using 1 False by (subst to_decimal.simps) (simp add: number_value_append digit)
  qed
qed

lemma starts_ci_digits:
  assumes "\<And>c. c \<in> set s \<Longrightarrow> is_digit c" "\<exists>k\<in>set kw. \<not> is_digit k"
  shows "\<not> starts_ci kw s"
proof
  assume "starts_ci kw s"
  then have kw: "map to_upper (take (length kw) s) = kw" by (simp add: starts_ci_def)
  obtain k where "k \<in> set kw" "\<not> is_digit k" using assms(2) by blast
  then obtain c where c: "c \<in> set (take (length kw) s)" "to_upper c = k"
    using kw by (metis imageE list.set_map)
  then have "is_digit c" using assms(1) by (meson in_set_takeD)
  then show False
    using c(2) \<open>\<not> is_digit k\<close> by (auto simp: to_upper_def is_digit_def is_lower_def split: if_splits)
qed

lemma stod_digit_string:
  assumes digits: "\<And>c. c \<in> set s \<Longrightarrow> is_digit c" and "s \<noteq> []"
  shows "stod s = scaled False (number_value 10 0 s) 10 0"
proof -
  obtain d ds where s: "s = d # ds" using assms(2) by (cases s) auto
  have d: "is_digit d" using digits s by simp
  have all: "\<forall>c\<in>set s. is_digit c" using digits by blast
  have 1: "takeWhile (\<lambda>c. c \<noteq> nul) s = s"
    by (rule takeWhile_eq_all_conv[THEN iffD2]) (auto dest: digits simp: is_digit_def)
  have 2: "dropWhile is_space s = s"
    using d by (simp add: s char_class_defs)
  have 3: "hd s \<noteq> CHR ''-''" "hd s \<noteq> CHR ''+''" using d by (auto simp: s is_digit_def)
  have 4: "\<not> starts_ci ''INF'' s" "\<not> starts_ci ''NAN'' s" "\<not> starts_ci ''0X'' s"
    by (rule starts_ci_digits[OF digits]; simp add: is_digit_def)+
  have "stod s = stod_decimal False s"
    by (simp only: stod_def Let_def 1 2 3 4 if_False simp_thms)
  moreover have "takeWhile is_digit s = s" "dropWhile is_digit s = []"
    using all by (simp_all add: takeWhile_eq_all_conv dropWhile_eq_Nil_conv)
  then have "span_number is_digit s = (s, 0, [])"
    by (simp only: span_number_def Let_def list.case)
  ultimately show ?thesis
    using assms(2) by (simp add: stod_decimal_def span_exponent_def)
qed

text \<open>\<open>stod(std::to_string(n))\<close> is \<open>n\<close>, up to \<open>2\<^sup>5\<^sup>3\<close>.\<close>

lemma stod_to_decimal:
  assumes "n < 2 ^ 53"
  shows "\<exists>w. stod (to_decimal n) = Stod w \<and> double_value w = int n * 2 ^ 1074 \<and> \<not> is_nan w"
proof -
  have "stod (to_decimal n) = scaled False (int n) 10 0"
    using stod_digit_string[of "to_decimal n"] to_decimal_digits to_decimal_nonempty
    by (simp only: number_value_decimal not_False_eq_True simp_thms)
  moreover have "\<exists>w. scaled False (int n) 10 0 = Stod w \<and> double_value w = int n * 2 ^ 1074 \<and> \<not> is_nan w"
  proof (cases "n = 0")
    case True
    have "double_value 0 = 0" "\<not> is_nan 0"
      by (simp_all add: double_value_def magnitude_def is_nan_def)
    then show ?thesis using True by (simp add: scaled_def)
  next
    case False
    have "int n < 2 ^ 53" using assms by simp
    then show ?thesis using to_double_int[of "int n"] False by (auto simp: scaled_def simp del: power_numeral)
  qed
  ultimately show ?thesis by simp
qed

text \<open>Some texts with the bits read from them.\<close>

lemma scaled_samples:
  "scaled False 30 10 0 = Stod 0x403e000000000000" "scaled False 12 10 0 = Stod 0x4028000000000000"
proof -
  have bits: "bit_length 30 = 5" "bit_length 12 = 4" by code_simp+
  show "scaled False 30 10 0 = Stod 0x403e000000000000" "scaled False 12 10 0 = Stod 0x4028000000000000"
    using to_double_bits[of 30] to_double_bits[of 12] by (simp_all add: scaled_def bits)
qed

lemma stod_numbers: 
  "stod ''30'' = Stod 0x403e000000000000"
  "stod ''12 Main'' = Stod 0x4028000000000000" "stod ''12 Oak'' = Stod 0x4028000000000000"
proof -
  have "stod ''30'' = scaled False 30 10 0" "stod ''12 Main'' = scaled False 12 10 0" "stod ''12 Oak'' = scaled False 12 10 0"
    by (simp_all add: stod_def stod_decimal_def starts_ci_def span_number_def span_exponent_def
      char_class_defs is_digit_def to_upper_def is_lower_def digit_value_def)
  then show "stod ''30'' = Stod 0x403e000000000000"
    "stod ''12 Main'' = Stod 0x4028000000000000" "stod ''12 Oak'' = Stod 0x4028000000000000"
    by (simp_all add: scaled_samples)
qed

lemma stod_texts:
  "stod ''Nancy'' = Stod 0x7ff8000000000000" "stod ''Nanette'' = Stod 0x7ff8000000000000"
  "stod ''Bob'' = Invalid_argument"
  by code_simp+

lemmas stod_samples = stod_numbers stod_texts

section \<open>Properties\<close>

text \<open>The sortable encoding of ADR-0013 loses nothing: decoding gives back every double, bit
  for bit, NaNs and zeros included.\<close>

lemma sortable_double_roundtrip: "decode_sortable_double (encode_sortable_double w @ rest) = w"
  by (rule decode_encode_double)

text \<open>C33: the byte order of the encodings of two numbers is their numeric order, so a range of
  numbers is a range of index keys; two encodings that the byte order separates and the
  numeric order does not are those of the two zeros.\<close>

theorem sortable_double_order:
  "\<not> is_nan a \<Longrightarrow> \<not> is_nan b \<Longrightarrow>
     encode_sortable_double a < encode_sortable_double b \<longleftrightarrow>
       double_less a b \<or> double_eq a b \<and> sign_bit a \<and> \<not> sign_bit b"
  by (simp add: encode_less double_less_def double_eq_def)

lemma sortable_double_order_witness:
  "encode_sortable_double 0xc097700000000000 < encode_sortable_double 0x403e000000000000"
proof -
  have "\<not> is_nan 0xc097700000000000" "\<not> is_nan 0x403e000000000000"
    "double_less 0xc097700000000000 0x403e000000000000" by code_simp+
  from sortable_double_order[OF this(1,2)] this(3) show ?thesis by blast
qed

text \<open>Every natural number below \<open>2\<^sup>5\<^sup>3\<close> printed in decimal is read by \<open>std::stod\<close>
  without an exception as the double of exactly that value.\<close>

lemma stod_exact_integers:
  assumes "n < 2 ^ 53"
  shows "\<exists>w. stod (to_decimal n) = Stod w \<and> double_value w = int n * 2 ^ 1074 \<and> \<not> is_nan w"
  by (rule stod_to_decimal[OF assms])

lemma stod_exact_integers_witness:
  "\<exists>w. stod (to_decimal 30) = Stod w \<and> double_value w = int 30 * 2 ^ 1074 \<and> \<not> is_nan w"
  by (rule stod_exact_integers) simp

text \<open>\<open>std::stod\<close> reads a numeric prefix, so texts that are not numbers are taken as numbers:
  different names starting with \<open>nan\<close> or with the same digits give one double, and that of
  \<open>nan\<close> is not even equal to itself.\<close>

theorem stod_reads_prefixes:
  "stod ''Nancy'' = stod ''Nanette'' \<and> stod ''12 Main'' = stod ''12 Oak''
   \<and> (case stod ''Nancy'' of Stod w \<Rightarrow> \<not> double_eq w w | _ \<Rightarrow> False)"
proof -
  have "is_nan 0x7ff8000000000000" by code_simp
  then show ?thesis by (simp add: stod_samples double_eq_def)
qed

end
