(* ===== verification/Json_Props.thy ===== *)
theory Json_Props
  imports Graph_Prelude
begin

text \<open>
  The JSON text of a node's or an edge's properties: \<open>parse_json_properties\<close> of
  \<open>storage.cpp\<close>, \<open>get_json_value\<close> and \<open>update_json_property\<close> of \<open>executor.cpp\<close>, and the
  text that \<open>evaluate_properties\<close> writes.  The position in the text is the unread suffix:
  \<open>find\<close> from a position is \<open>from_char\<close> on the suffix, with the empty suffix for
  \<open>npos\<close>.
\<close>

section \<open>Reading\<close>

definition value_end :: "char \<Rightarrow> bool" where
  "value_end c \<longleftrightarrow> c = CHR '','' \<or> c = CHR ''}'' \<or> c = CHR '' ''"

definition skip_blanks :: "string \<Rightarrow> string" where
  "skip_blanks s = dropWhile (\<lambda>c. c = CHR '' '') s"

definition skip_commas :: "string \<Rightarrow> string" where
  "skip_commas s = dropWhile (\<lambda>c. c = CHR '','' \<or> c = CHR '' '') s"

text \<open>A value at the head of the suffix, and what follows it; \<open>None\<close> when a string does not end.\<close>

definition read_value :: "string \<Rightarrow> (string \<times> string) option" where
  "read_value s =
     (if hd s = dquote then
        (let u = tl s; r = from_char dquote u in
         if r = [] then None else Some (upto_char dquote u, tl r))
      else Some (takeWhile (\<lambda>c. \<not> value_end c) s, dropWhile (\<lambda>c. \<not> value_end c) s))"

lemma read_value_length: "read_value s = Some (v, r) \<Longrightarrow> length r \<le> length s"
  using length_from_char[of dquote "tl s"]
  by (auto simp: read_value_def Let_def length_dropWhile_le split: if_splits)

text \<open>One round of the loop: key, colon, blanks, value, then the separator.\<close>

definition read_entry :: "string \<Rightarrow> ((string \<times> string) \<times> string) option" where
  "read_entry s =
     (let s1 = from_char dquote s in
      if s1 = [] then None
      else let s2 = from_char dquote (tl s1) in
        if s2 = [] then None
        else let s3 = from_char CHR '':'' (tl s2) in
          if s3 = [] then None
          else let s4 = skip_blanks (tl s3) in
            if s4 = [] then None
            else case read_value s4 of
              None \<Rightarrow> None
            | Some (v, r) \<Rightarrow> Some ((upto_char dquote (tl s1), v), r))"

lemma skip_blanks_length: "length (skip_blanks s) \<le> length s"
  by (simp add: skip_blanks_def length_dropWhile_le)

lemma skip_commas_length: "length (skip_commas s) \<le> length s"
  by (simp add: skip_commas_def length_dropWhile_le)

lemma read_entry_shorter: "read_entry s = Some (e, r) \<Longrightarrow> length r < length s"
proof -
  assume a: "read_entry s = Some (e, r)"
  let ?s1 = "from_char dquote s" let ?s2 = "from_char dquote (tl ?s1)"
  let ?s3 = "from_char CHR '':'' (tl ?s2)" let ?s4 = "skip_blanks (tl ?s3)"
  have n: "?s1 \<noteq> []" "?s4 \<noteq> []" and v: "\<exists>v. read_value ?s4 = Some (v, r)"
    using a by (auto simp: read_entry_def Let_def split: if_splits option.splits)
  have "length r \<le> length ?s4" using v read_value_length by blast
  also have "\<dots> \<le> length (tl ?s3)" by (rule skip_blanks_length)
  also have "\<dots> \<le> length (tl ?s2)" using length_from_char[of "CHR '':''" "tl ?s2"] by simp
  also have "\<dots> \<le> length (tl ?s1)" using length_from_char[of dquote "tl ?s1"] by simp
  also have "\<dots> < length ?s1" using n by simp
  also have "\<dots> \<le> length s" by (rule length_from_char)
  finally show ?thesis .
qed

function parse_json_loop :: "string \<Rightarrow> (string \<times> string) list" where
  "parse_json_loop s =
     (if s = [] then []
      else case read_entry s of
        None \<Rightarrow> []
      | Some (e, r) \<Rightarrow>
          (let t = skip_commas r in
           if t \<noteq> [] \<and> hd t = CHR ''}'' then [e] else e # parse_json_loop t))"
  by pat_completeness auto
termination
  by (relation "measure length") (auto dest!: read_entry_shorter intro: le_less_trans[OF skip_commas_length])

declare parse_json_loop.simps [simp del]

definition parse_json_properties :: "string \<Rightarrow> (string \<times> string) list" where
  "parse_json_properties json =
     (if length json < 2 \<or> hd json \<noteq> CHR ''{'' then [] else parse_json_loop (tl json))"

function get_json_loop :: "string \<Rightarrow> string \<Rightarrow> string" where
  "get_json_loop key s =
     (if s = [] then []
      else let s1 = from_char dquote s in
        if s1 = [] then []
        else let t = tl s1 in
          if length key < length t \<and> t ! length key = dquote \<and> take (length key) t = key then
            (let u = from_char CHR '':'' (drop (length key + 1) t) in
             if u = [] then []
             else let w = skip_blanks (tl u) in
               if w = [] then []
               else case read_value w of None \<Rightarrow> [] | Some (v, r) \<Rightarrow> v)
          else let u = from_char dquote t in
            if u = [] then [] else get_json_loop key (tl u))"
  by pat_completeness auto
termination
proof (relation "measure (\<lambda>(k, s). length s)", goal_cases)
  case 1
  show ?case by simp
next
  case (2 key s s1 t u)
  have "length u \<le> length t" using 2(6) length_from_char[of dquote t] by simp
  moreover have "length s1 \<le> length s" using 2(2) length_from_char[of dquote s] by simp
  moreover have "length t < length s1" "u \<noteq> []" using 2(3,4,7) by simp_all
  ultimately show ?case by simp
qed

declare get_json_loop.simps [simp del]

definition get_json_value :: "string \<Rightarrow> string \<Rightarrow> string" where
  "get_json_value json key = get_json_loop key json"

section \<open>Writing\<close>

text \<open>The position of the first occurrence of a text.\<close>

fun find_text :: "string \<Rightarrow> string \<Rightarrow> nat option" where
  "find_text p [] = (if p = [] then Some 0 else None)"
| "find_text p (c # cs) =
     (if take (length p) (c # cs) = p then Some 0 else map_option Suc (find_text p cs))"

text \<open>What stands before the last occurrence of a character.\<close>

definition before_last :: "char \<Rightarrow> string \<Rightarrow> string" where
  "before_last c s = rev (tl (dropWhile (\<lambda>d. d \<noteq> c) (rev s)))"

text \<open>\<open>None\<close> is the \<open>std::out_of_range\<close> that \<open>result.append(json, npos)\<close> throws.\<close>

definition update_json_property :: "string \<Rightarrow> string \<Rightarrow> string \<Rightarrow> bool \<Rightarrow> string option" where
  "update_json_property json key val is_str =
     (let search = dquote # key @ [dquote];
          new_val = (if is_str then dquote # val @ [dquote] else val) in
      case find_text search json of
        Some pos \<Rightarrow>
          (let after = drop (pos + length search) json; c = from_char CHR '':'' after in
           if c = [] then Some json
           else
             let r = skip_blanks (tl c);
                 kept = take (length json - length r) json
             in if r \<noteq> [] \<and> hd r = dquote then
                  (let e = from_char dquote (tl r) in
                   if e = [] then None else Some (kept @ new_val @ tl e))
                else Some (kept @ new_val
                       @ dropWhile (\<lambda>c. \<not> (c = CHR '','' \<or> c = CHR ''}'')) r))
      | None \<Rightarrow>
          (if CHR ''}'' \<notin> set json then Some json
           else
             let b = before_last CHR ''}'' json in
             Some (b @ (if length b > 1 \<and> last b \<noteq> CHR ''{'' then '', '' else [])
                   @ dquote # key @ dquote # '': '' @ new_val @ ''}'')))"

section \<open>The text of a property list\<close>

datatype json_value = Jstring string | Jraw string

fun json_text :: "json_value \<Rightarrow> string" where
  "json_text (Jstring v) = dquote # v @ [dquote]"
| "json_text (Jraw v) = v"

fun json_raw :: "json_value \<Rightarrow> string" where
  "json_raw (Jstring v) = v"
| "json_raw (Jraw v) = v"

definition entry_text :: "string \<times> json_value \<Rightarrow> string" where
  "entry_text e = dquote # fst e @ dquote # '': '' @ json_text (snd e)"

fun entries_text :: "(string \<times> json_value) list \<Rightarrow> string" where
  "entries_text [] = []"
| "entries_text [e] = entry_text e"
| "entries_text (e # f # es) = entry_text e @ '', '' @ entries_text (f # es)"

definition props_text :: "(string \<times> json_value) list \<Rightarrow> string" where
  "props_text m = ''{'' @ entries_text m @ ''}''"

section \<open>What is written is read back\<close>

text \<open>The keys and values that survive: no quotes inside, and raw values without separators.\<close>

fun value_ok :: "json_value \<Rightarrow> bool" where
  "value_ok (Jstring v) = (dquote \<notin> set v)"
| "value_ok (Jraw v) = (dquote \<notin> set v \<and> CHR ''{'' \<notin> set v \<and> (\<forall>c\<in>set v. \<not> value_end c))"

definition key_ok :: "string \<Rightarrow> bool" where
  "key_ok k \<longleftrightarrow> dquote \<notin> set k \<and> CHR '' '' \<notin> set k"

definition entry_ok :: "string \<times> json_value \<Rightarrow> bool" where
  "entry_ok e \<longleftrightarrow> key_ok (fst e) \<and> value_ok (snd e)"

definition at_end :: "string \<Rightarrow> bool" where
  "at_end s \<longleftrightarrow> (\<exists>c cs. s = c # cs \<and> (c = CHR '','' \<or> c = CHR ''}''))"

lemma at_endE:
  assumes "at_end s"
  obtains c cs where "s = c # cs" "c = CHR '','' \<or> c = CHR ''}''"
  using assms by (auto simp: at_end_def)

lemma read_value_text:
  assumes "value_ok v" "at_end r"
  shows "skip_blanks (CHR '' '' # json_text v @ r) = json_text v @ r"
    and "read_value (json_text v @ r) = Some (json_raw v, r)"
    and "json_text v @ r \<noteq> []"
proof -
  obtain c cs where r: "r = c # cs" and c: "c = CHR '','' \<or> c = CHR ''}''"
    by (rule at_endE[OF assms(2)])
  have e: "value_end c" "c \<noteq> CHR '' ''" "c \<noteq> dquote" using c by (auto simp: value_end_def)
  show "skip_blanks (CHR '' '' # json_text v @ r) = json_text v @ r"
  proof (cases v)
    case (Jraw w)
    then show ?thesis using assms e r by (cases w) (auto simp: skip_blanks_def value_end_def)
  qed (simp add: skip_blanks_def)
  show "read_value (json_text v @ r) = Some (json_raw v, r)"
  proof (cases v)
    case (Jstring w)
    then show ?thesis using assms
      by (simp add: read_value_def Let_def scan_laws)
  next
    case (Jraw w)
    have "takeWhile (\<lambda>c. \<not> value_end c) (w @ c # cs) = w" "dropWhile (\<lambda>c. \<not> value_end c) (w @ c # cs) = c # cs"
      using assms(1) e Jraw by (auto intro!: takeWhile_stop dropWhile_stop)
    moreover have "hd (w @ c # cs) \<noteq> dquote" using assms(1) e Jraw by (cases w) auto
    ultimately show ?thesis by (simp add: read_value_def Jraw r)
  qed
  show "json_text v @ r \<noteq> []" by (simp add: r)
qed

lemma entry_parts: "entry_text e @ r = dquote # fst e @ dquote # CHR '':'' # CHR '' '' # json_text (snd e) @ r"
  by (simp add: entry_text_def)

lemma read_entry_text:
  assumes "entry_ok e" "at_end r"
  shows "read_entry (entry_text e @ r) = Some ((fst e, json_raw (snd e)), r)"
proof -
  have k: "dquote \<notin> set (fst e)" and v: "value_ok (snd e)" using assms by (auto simp: entry_ok_def key_ok_def)
  have 1: "from_char dquote (entry_text e @ r) = entry_text e @ r"
    unfolding entry_parts by (simp add: from_char_def)
  show ?thesis
    unfolding read_entry_def Let_def 1 unfolding entry_parts using k read_value_text[OF v assms(2)]
    by (simp add: from_char_append upto_char_append) (simp add: from_char_def upto_char_append)
qed

lemma parse_entries_text:
  "m \<noteq> [] \<Longrightarrow> \<forall>e\<in>set m. entry_ok e \<Longrightarrow>
     parse_json_loop (entries_text m @ ''}'') = map (\<lambda>e. (fst e, json_raw (snd e))) m"
proof (induction m rule: entries_text.induct)
  case (2 e)
  have "read_entry (entry_text e @ ''}'') = Some ((fst e, json_raw (snd e)), ''}'')"
    using 2 by (intro read_entry_text) (auto simp: at_end_def)
  then show ?case
    by (subst parse_json_loop.simps) (simp add: entry_text_def skip_commas_def)
next
  case (3 e f es)
  let ?r = "'', '' @ entries_text (f # es) @ ''}''"
  have "read_entry (entry_text e @ ?r) = Some ((fst e, json_raw (snd e)), ?r)"
    using 3(3) by (intro read_entry_text) (auto simp: at_end_def)
  moreover have "skip_commas ?r = entries_text (f # es) @ ''}''" "hd (entries_text (f # es)) \<noteq> CHR ''}''"
    by (cases es; simp add: skip_commas_def entry_text_def)+
  moreover have "entries_text (f # es) \<noteq> []" by (cases es) (simp_all add: entry_text_def)
  ultimately show ?case
    using 3 by (subst parse_json_loop.simps) (simp add: entry_text_def)
qed simp

lemma parse_props_text:
  assumes "\<forall>e\<in>set m. entry_ok e"
  shows "parse_json_properties (props_text m) = map (\<lambda>e. (fst e, json_raw (snd e))) m"
proof (cases "m = []")
  case True
  have "parse_json_loop ''}'' = []"
    by (subst parse_json_loop.simps) (simp add: read_entry_def from_char_def)
  then show ?thesis using True by (simp add: parse_json_properties_def props_text_def)
next
  case False
  then show ?thesis
    using parse_entries_text[OF False assms] by (simp add: parse_json_properties_def props_text_def)
qed

section \<open>Lookup\<close>

definition before_text :: "(string \<times> json_value) list \<Rightarrow> string" where
  "before_text es = concat (map (\<lambda>e. entry_text e @ '', '') es)"

definition after_text :: "(string \<times> json_value) list \<Rightarrow> string" where
  "after_text es = concat (map (\<lambda>e. '', '' @ entry_text e) es)"

lemma entries_text_Cons: "entries_text (e # es) = entry_text e @ after_text es"
  by (induction es arbitrary: e) (simp_all add: after_text_def)

lemma entries_text_split: "entries_text (es @ e # fs) = before_text es @ entry_text e @ after_text fs"
proof (induction es)
  case Nil
  then show ?case by (simp add: before_text_def entries_text_Cons)
next
  case (Cons d es)
  then show ?case by (cases es) (simp_all add: before_text_def)
qed

lemma at_end_after: "at_end (after_text es @ ''}'')"
  by (cases es) (simp_all add: after_text_def at_end_def)

text \<open>An entry that the lookup of a key passes over: another key, and not that key as its text.\<close>

definition other_entry :: "string \<Rightarrow> string \<times> json_value \<Rightarrow> bool" where
  "other_entry k e \<longleftrightarrow> fst e \<noteq> k \<and> snd e \<noteq> Jstring k"

lemma get_nil [simp]: "get_json_loop k [] = []"
  by (simp add: get_json_loop.simps)

lemma get_skip: "dquote \<notin> set p \<Longrightarrow> get_json_loop k (p @ s) = get_json_loop k s"
proof -
  assume p: "dquote \<notin> set p"
  then have "from_char dquote (p @ s) = from_char dquote s"
    by (induction p) (auto simp: from_char_def)
  then show ?thesis
    by (cases "s = []") (simp_all add: get_json_loop.simps[of k "p @ s"] get_json_loop.simps[of k s]
        get_json_loop.simps[of k p] from_char_none p)
qed

lemma quoted_prefix:
  assumes "dquote \<notin> set w" "dquote \<notin> set k"
  shows "length k < length (w @ dquote # r) \<and> (w @ dquote # r) ! length k = dquote
           \<and> take (length k) (w @ dquote # r) = k \<longleftrightarrow> w = k"
proof
  let ?t = "w @ dquote # r"
  assume a: "length k < length ?t \<and> ?t ! length k = dquote \<and> take (length k) ?t = k"
  then have "?t = k @ dquote # drop (Suc (length k)) ?t"
    by (metis id_take_nth_drop)
  then have "upto_char dquote ?t = k" using assms(2) by (metis upto_char_append)
  moreover have "upto_char dquote ?t = w" using assms(1) by (rule upto_char_append)
  ultimately show "w = k" by simp
qed simp

lemma get_step:
  assumes "dquote \<notin> set p" "dquote \<notin> set w" "dquote \<notin> set k" "w \<noteq> k"
  shows "get_json_loop k (p @ dquote # w @ dquote # r) = get_json_loop k r"
proof -
  have a: "from_char dquote (p @ dquote # w @ dquote # r) = dquote # w @ dquote # r"
    "from_char dquote (w @ dquote # r) = dquote # r"
    using assms(1,2) by (simp_all add: from_char_append)
  have n: "p @ dquote # w @ dquote # r \<noteq> []" "dquote # w @ dquote # r \<noteq> []" "dquote # r \<noteq> []"
    by simp_all
  show ?thesis
    unfolding get_json_loop.simps[of k "p @ dquote # w @ dquote # r"] Let_def a list.sel
      quoted_prefix[OF assms(2,3)]
    using assms(4) n by (simp only: if_False)
qed

lemma get_hit:
  assumes "dquote \<notin> set p" "dquote \<notin> set k" "value_ok v" "at_end r"
  shows "get_json_loop k (p @ entry_text (k, v) @ r) = json_raw v"
  using quoted_prefix[OF assms(2,2)] assms(1,2) read_value_text[OF assms(3,4)]
  by (subst get_json_loop.simps) (simp add: entry_parts from_char_append, auto simp: from_char_def)

lemma get_pass:
  assumes "entry_ok e" "other_entry k e" "dquote \<notin> set k" "dquote \<notin> set p"
  shows "get_json_loop k (p @ entry_text e @ r) = get_json_loop k r"
proof -
  have e: "dquote \<notin> set (fst e)" "fst e \<noteq> k" using assms by (auto simp: entry_ok_def key_ok_def other_entry_def)
  have "get_json_loop k (p @ entry_text e @ r) = get_json_loop k ('': '' @ json_text (snd e) @ r)"
    using get_step[OF assms(4) e(1) assms(3) e(2)] by (simp add: entry_parts)
  also have "\<dots> = get_json_loop k r"
  proof (cases "snd e")
    case (Jstring v)
    then show ?thesis
      using get_step[of "'': ''" v k r] assms by (auto simp: entry_ok_def other_entry_def)
  next
    case (Jraw v)
    then show ?thesis
      using get_skip[of "'': '' @ v" k r] assms by (auto simp: entry_ok_def)
  qed
  finally show ?thesis .
qed

lemma get_before:
  "\<forall>e\<in>set es. entry_ok e \<and> other_entry k e \<Longrightarrow> dquote \<notin> set k \<Longrightarrow> dquote \<notin> set p \<Longrightarrow>
     \<exists>p'. dquote \<notin> set p' \<and> get_json_loop k (p @ before_text es @ r) = get_json_loop k (p' @ r)"
proof (induction es arbitrary: p)
  case (Cons e es)
  have "get_json_loop k (p @ before_text (e # es) @ r) = get_json_loop k ('', '' @ before_text es @ r)"
    using get_pass[of e k p "'', '' @ before_text es @ r"] Cons.prems by (simp add: before_text_def)
  then show ?case using Cons.IH[of "'', ''"] Cons.prems by auto
qed (auto simp: before_text_def)

lemma get_props_text:
  assumes "\<forall>e\<in>set es. entry_ok e \<and> other_entry k e" "entry_ok (k, v)"
  shows "get_json_value (props_text (es @ (k, v) # fs)) k = json_raw v"
proof -
  have k: "dquote \<notin> set k" "value_ok v" using assms(2) by (auto simp: entry_ok_def key_ok_def)
  obtain p' where p': "dquote \<notin> set p'"
    and eq: "get_json_loop k (''{'' @ before_text es @ entry_text (k, v) @ after_text fs @ ''}'') =
      get_json_loop k (p' @ entry_text (k, v) @ after_text fs @ ''}'')"
    using get_before[OF assms(1) k(1), of "''{''"] by auto
  show ?thesis
    using get_hit[OF p' k at_end_after[of fs]] eq
    by (simp add: get_json_value_def props_text_def entries_text_split)
qed

lemma get_props_text_absent:
  assumes "\<forall>e\<in>set m. entry_ok e \<and> other_entry k e" "dquote \<notin> set k"
  shows "get_json_value (props_text m) k = []"
proof -
  have none: "get_json_loop k ''}'' = []"
    by (subst get_json_loop.simps) (simp add: from_char_def)
  show ?thesis
  proof (cases m rule: rev_cases)
    case Nil
    then show ?thesis
      using get_skip[of "''{''" k "''}''"] none by (simp add: get_json_value_def props_text_def)
  next
    case (snoc es e)
    then have all: "\<forall>e\<in>set es. entry_ok e \<and> other_entry k e" "entry_ok e" "other_entry k e"
      using assms(1) by auto
    obtain p' where p': "dquote \<notin> set p'" and eq: "get_json_loop k (''{'' @ before_text es @ entry_text e @ ''}'') =
        get_json_loop k (p' @ entry_text e @ ''}'')"
      using get_before[OF all(1) assms(2), of "''{''"] by auto
    show ?thesis
      using get_pass[OF all(2,3) assms(2) p'] none eq
      by (simp add: get_json_value_def props_text_def snoc entries_text_split after_text_def)
  qed
qed

section \<open>Update\<close>

abbreviation quoted_key :: "string \<Rightarrow> string" where
  "quoted_key k \<equiv> dquote # k @ [dquote]"

definition shift :: "nat \<Rightarrow> nat option \<Rightarrow> nat option" where
  "shift n x = map_option (\<lambda>m. n + m) x"

lemma shift_simps [simp]:
  "shift 0 x = x" "shift a (shift b x) = shift (a + b) x" "shift n (Some m) = Some (n + m)"
  by (cases x; simp add: shift_def)+

lemma find_miss:
  "take (length p) (c # cs) \<noteq> p \<Longrightarrow> find_text p (c # cs) = shift 1 (find_text p cs)"
  by (cases "find_text p cs") (simp_all add: shift_def)

lemma find_skip:
  "dquote \<notin> set p \<Longrightarrow> find_text (quoted_key k) (p @ s) = shift (length p) (find_text (quoted_key k) s)"
proof (induction p)
  case (Cons c p)
  have "take (length (quoted_key k)) (c # p @ s) \<noteq> quoted_key k" using Cons.prems by auto
  from find_miss[OF this] show ?case using Cons by simp
qed simp

lemma find_here: "find_text (quoted_key k) (quoted_key k @ r) = Some 0"
  by simp

lemma take_quoted:
  assumes "dquote \<notin> set w" "dquote \<notin> set k" "w \<noteq> k"
  shows "take (length (quoted_key k)) (dquote # w @ dquote # r) \<noteq> quoted_key k"
proof
  assume "take (length (quoted_key k)) (dquote # w @ dquote # r) = quoted_key k"
  then have t: "take (Suc (length k)) (w @ dquote # r) = k @ [dquote]" by simp
  then have "length k < length (w @ dquote # r)"
    by (metis length_append_singleton length_take lessI min_less_iff_conj not_less_eq)
  moreover have "take (length k) (w @ dquote # r) = k"
    using t by (metis append_eq_conv_conj butlast_snoc butlast_take calculation diff_Suc_1 Suc_leI)
  moreover have "(w @ dquote # r) ! length k = dquote"
    using t calculation(1) by (metis lessI nth_append_length nth_take)
  ultimately have "w = k" using quoted_prefix[OF assms(1,2)] by blast
  then show False using assms(3) by simp
qed

lemma find_word:
  assumes "dquote \<notin> set w" "dquote \<notin> set k" "w \<noteq> k"
  shows "find_text (quoted_key k) (dquote # w @ dquote # r) =
    shift (Suc (length w)) (find_text (quoted_key k) (dquote # r))"
  using find_miss[OF take_quoted[OF assms]] find_skip[OF assms(1), of k "dquote # r"] by simp

text \<open>A closing quote is not the opening one of a key without blanks.\<close>

lemma find_close:
  assumes "CHR '' '' \<notin> set k" "x \<noteq> dquote"
  shows "find_text (quoted_key k) (dquote # x # CHR '' '' # r) =
    shift 1 (find_text (quoted_key k) (x # CHR '' '' # r))"
proof -
  have "take (length (quoted_key k)) (dquote # x # CHR '' '' # r) \<noteq> quoted_key k"
    using assms by (cases k; cases "tl k") (auto split: if_splits)
  then show ?thesis by (rule find_miss)
qed

lemma find_pass:
  assumes "entry_ok e" "other_entry k e" "key_ok k"
  shows "find_text (quoted_key k) (entry_text e @ '', '' @ r) =
    shift (length (entry_text e @ '', '')) (find_text (quoted_key k) r)"
proof -
  let ?f = "find_text (quoted_key k)"
  have k: "dquote \<notin> set k" "CHR '' '' \<notin> set k" using assms by (auto simp: key_ok_def)
  have e: "dquote \<notin> set (fst e)" "fst e \<noteq> k" using assms by (auto simp: entry_ok_def key_ok_def other_entry_def)
  have colon: "?f (dquote # CHR '':'' # CHR '' '' # z) = shift (3) (?f z)" for z
    using find_close[OF k(2), of "CHR '':''" z] find_skip[of "'': ''" k z]
    by (simp add: eval_nat_numeral del: find_text.simps)
  have comma: "?f (dquote # CHR '','' # CHR '' '' # z) = shift (3) (?f z)" for z
    using find_close[OF k(2), of "CHR '',''" z] find_skip[of "'', ''" k z]
    by (simp add: eval_nat_numeral del: find_text.simps)
  have "?f (json_text (snd e) @ '', '' @ r) = shift (length (json_text (snd e)) + 2) (?f r)"
  proof (cases "snd e")
    case (Jstring v)
    have "dquote \<notin> set v" "v \<noteq> k" using assms Jstring by (auto simp: entry_ok_def other_entry_def)
    then show ?thesis
      using find_word[of v k "'', '' @ r"] k comma[of r] Jstring
      by (simp add: eval_nat_numeral algebra_simps del: find_text.simps)
  next
    case (Jraw v)
    then show ?thesis using find_skip[of "v @ '', ''" k r] assms by (simp add: entry_ok_def)
  qed
  moreover have "?f (entry_text e @ '', '' @ r) =
      shift (length (fst e) + 4) (?f (json_text (snd e) @ '', '' @ r))"
    using find_word[OF e(1) k(1) e(2), of "'': '' @ json_text (snd e) @ '', '' @ r"] colon
    by (simp add: entry_parts algebra_simps)
  ultimately show ?thesis
    by (simp add: entry_text_def eval_nat_numeral algebra_simps del: find_text.simps)
qed

lemma find_before:
  "\<forall>e\<in>set es. entry_ok e \<and> other_entry k e \<Longrightarrow> key_ok k \<Longrightarrow>
     find_text (quoted_key k) (before_text es @ r) =
       shift (length (before_text es)) (find_text (quoted_key k) r)"
proof (induction es)
  case Nil
  then show ?case by (simp add: before_text_def)
next
  case (Cons e es)
  then show ?case
    using find_pass[of e k "before_text es @ r"]
    by (simp add: before_text_def add.assoc)
qed

definition new_value :: "string \<Rightarrow> bool \<Rightarrow> json_value" where
  "new_value v is_str = (if is_str then Jstring v else Jraw v)"

lemma new_value_text: "json_text (new_value v is_str) = (if is_str then dquote # v @ [dquote] else v)"
  by (simp add: new_value_def)

text \<open>What the update drops of the old value.\<close>

lemma drop_value:
  assumes "value_ok v" "at_end r"
  shows "(let s = json_text v @ r in
            if s \<noteq> [] \<and> hd s = dquote then
              (let e = from_char dquote (tl s) in if e = [] then None else Some (p @ tl e))
            else Some (p @ dropWhile (\<lambda>c. \<not> (c = CHR '','' \<or> c = CHR ''}'')) s)) = Some (p @ r)"
proof -
  obtain c cs where r: "r = c # cs" and c: "c = CHR '','' \<or> c = CHR ''}''" by (rule at_endE[OF assms(2)])
  show ?thesis
  proof (cases v)
    case (Jstring w)
    then show ?thesis using assms(1) by (simp add: from_char_append Let_def)
  next
    case (Jraw w)
    have "hd (w @ c # cs) \<noteq> dquote" using assms(1) c Jraw by (cases w) auto
    moreover have "dropWhile (\<lambda>c. \<not> (c = CHR '','' \<or> c = CHR ''}'')) (w @ c # cs) = c # cs"
      using assms(1) c Jraw by (intro dropWhile_stop) (auto simp: value_end_def)
    ultimately show ?thesis by (simp add: Jraw r)
  qed
qed

lemma take_prefix_of: "take (length (a @ b) - length b) (a @ b) = a"
  by simp

lemma update_props_text:
  assumes "\<forall>e\<in>set es. entry_ok e \<and> other_entry k e" "entry_ok (k, v)"
  shows "update_json_property (props_text (es @ (k, v) # fs)) k new is_str =
    Some (props_text (es @ (k, new_value new is_str) # fs))"
proof -
  let ?pre = "''{'' @ before_text es" let ?r = "after_text fs @ ''}''"
  let ?json = "props_text (es @ (k, v) # fs)"
  have k: "key_ok k" and v: "value_ok v" using assms(2) by (auto simp: entry_ok_def)
  have json: "?json = ?pre @ quoted_key k @ '': '' @ json_text v @ ?r"
    by (simp add: props_text_def entries_text_split entry_text_def)
  have "find_text (quoted_key k) (before_text es @ quoted_key k @ '': '' @ json_text v @ ?r) = Some (length (before_text es))"
    using find_before[OF assms(1) k, of "quoted_key k @ '': '' @ json_text v @ ?r"]
    by (simp add: find_here[of k, simplified])
  then have f: "find_text (quoted_key k) ?json = Some (length ?pre)"
    using find_skip[of "''{''" k "before_text es @ quoted_key k @ '': '' @ json_text v @ ?r"]
    unfolding json by simp
  have after: "drop (length ?pre + length (quoted_key k)) ?json = '': '' @ json_text v @ ?r"
    unfolding json by simp
  have colon: "from_char CHR '':'' ('': '' @ json_text v @ ?r) = '': '' @ json_text v @ ?r"
    by (simp add: from_char_def)
  have blanks: "skip_blanks (tl ('': '' @ json_text v @ ?r)) = json_text v @ ?r"
    using read_value_text(1)[OF v at_end_after[of fs]] by simp
  have kept: "take (length ?json - length (json_text v @ ?r)) ?json = ?pre @ quoted_key k @ '': ''"
    using take_prefix_of[of "?pre @ quoted_key k @ '': ''" "json_text v @ ?r"]
    unfolding json by (simp only: append.assoc)
  have "update_json_property ?json k new is_str =
      Some ((?pre @ quoted_key k @ '': '' @ json_text (new_value new is_str)) @ ?r)"
    unfolding update_json_property_def Let_def f option.case after colon blanks kept
    using drop_value[OF v at_end_after[of fs], unfolded Let_def,
        of "?pre @ quoted_key k @ '': '' @ json_text (new_value new is_str)"]
    unfolding new_value_text by (simp only: append.assoc append_Cons list.distinct if_False)
  then show ?thesis
    by (simp add: props_text_def entries_text_split entry_text_def)
qed

text \<open>An absent key: nowhere between quotes, so the new entry goes before the last brace.\<close>

lemma find_absent:
  assumes "\<forall>e\<in>set m. entry_ok e \<and> other_entry k e" "key_ok k"
  shows "find_text (quoted_key k) (props_text m) = None"
proof -
  let ?f = "find_text (quoted_key k)"
  have k: "dquote \<notin> set k" "CHR '' '' \<notin> set k" using assms by (auto simp: key_ok_def)
  have brace: "?f ''}'' = None" by simp
  have close: "?f [dquote, CHR ''}''] = None" by (cases k) simp_all
  show ?thesis
  proof (cases m rule: rev_cases)
    case Nil
    then show ?thesis by (simp add: props_text_def)
  next
    case (snoc es e)
    have e: "dquote \<notin> set (fst e)" "fst e \<noteq> k" "dquote \<notin> set (json_raw (snd e))"
      using assms snoc by (auto simp: entry_ok_def key_ok_def other_entry_def intro: json_raw.cases[of "snd e"])
    have tail: "?f (json_text (snd e) @ ''}'') = None"
    proof (cases "snd e")
      case (Jstring v)
      have "dquote \<notin> set v" "v \<noteq> k" using assms snoc Jstring by (auto simp: entry_ok_def other_entry_def)
      then show ?thesis
        using find_word[of v k "''}''"] k close Jstring by (simp add: shift_def del: find_text.simps)
    next
      case (Jraw v)
      have "dquote \<notin> set v" using assms snoc Jraw by (auto simp: entry_ok_def)
      then show ?thesis
        using find_skip[of v k "''}''"] Jraw brace by (simp add: shift_def del: find_text.simps)
    qed
    have "?f (dquote # CHR '':'' # CHR '' '' # json_text (snd e) @ ''}'') = None"
      using find_close[OF k(2), of "CHR '':''" "json_text (snd e) @ ''}''"]
        find_skip[of "'': ''" k "json_text (snd e) @ ''}''"] tail
      by (simp add: shift_def del: find_text.simps)
    then have "?f (entry_text e @ ''}'') = None"
      using find_word[OF e(1) k(1) e(2), of "'': '' @ json_text (snd e) @ ''}''"]
      by (simp add: entry_parts shift_def del: find_text.simps)
    then have "?f (before_text es @ entry_text e @ ''}'') = None"
      using find_before[of es k "entry_text e @ ''}''"] assms snoc by (simp add: shift_def del: find_text.simps)
    then show ?thesis
      using find_skip[of "''{''" k "before_text es @ entry_text e @ ''}''"]
      by (simp add: props_text_def snoc entries_text_split after_text_def shift_def del: find_text.simps)
  qed
qed

lemma before_last_snoc: "before_last c (s @ [c]) = s"
  by (simp add: before_last_def)

lemma entry_text_last: "entry_ok e \<Longrightarrow> last (entry_text e) \<noteq> CHR ''{''"
  by (cases "snd e") (auto simp: entry_text_def entry_ok_def dest: last_in_set)

lemma update_props_text_absent:
  assumes "\<forall>e\<in>set m. entry_ok e \<and> other_entry k e" "key_ok k"
  shows "update_json_property (props_text m) k new is_str = Some (props_text (m @ [(k, new_value new is_str)]))"
proof -
  let ?b = "''{'' @ entries_text m"
  have b: "before_last CHR ''}'' (props_text m) = ?b"
    using before_last_snoc[of "CHR ''}''" ?b] by (simp add: props_text_def)
  have mem: "CHR ''}'' \<in> set (props_text m)" by (simp add: props_text_def)
  have sep: "?b @ (if length ?b > 1 \<and> last ?b \<noteq> CHR ''{'' then '', '' else []) = ''{'' @ before_text m"
  proof (cases m rule: rev_cases)
    case Nil
    then show ?thesis by (simp add: before_text_def)
  next
    case (snoc es e)
    have m: "entries_text m = before_text es @ entry_text e"
      by (simp add: snoc entries_text_split after_text_def)
    have "last ?b = last (entry_text e)" by (simp add: m entry_text_def)
    then have "last ?b \<noteq> CHR ''{''"
      using entry_text_last[of e] assms(1) snoc by simp
    moreover have "length ?b > 1" by (simp add: m entry_text_def)
    ultimately show ?thesis by (simp add: m) (simp add: snoc before_text_def)
  qed
  have "update_json_property (props_text m) k new is_str =
      Some ((?b @ (if length ?b > 1 \<and> last ?b \<noteq> CHR ''{'' then '', '' else []))
        @ dquote # k @ dquote # '': '' @ json_text (new_value new is_str) @ ''}'')"
    unfolding update_json_property_def Let_def find_absent[OF assms] option.case b
    using mem by (simp only: if_False not_True_eq_False new_value_text append.assoc)
  then show ?thesis
    unfolding sep by (simp add: props_text_def entries_text_split entry_text_def after_text_def)
qed

lemma new_entry_ok: "key_ok k \<Longrightarrow> value_ok (new_value v b) \<Longrightarrow> entry_ok (k, new_value v b)"
  by (simp add: entry_ok_def)

lemma raw_new_value [simp]: "json_raw (new_value v b) = v"
  by (simp add: new_value_def)

section \<open>Properties\<close>

text \<open>C34: the text of a property list, with keys and values free of quotes and separators, is read
  back by the indexer as exactly that list, in order.\<close>

theorem json_parse_roundtrip:
  assumes "\<forall>e\<in>set m. entry_ok e"
  shows "parse_json_properties (props_text m) = map (\<lambda>e. (fst e, json_raw (snd e))) m"
  by (rule parse_props_text[OF assms])

lemma json_parse_roundtrip_witness:
  "parse_json_properties (props_text [(''age'', Jraw ''30''), (''name'', Jstring ''Ann Lee'')]) =
     [(''age'', ''30''), (''name'', ''Ann Lee'')]"
  by (subst json_parse_roundtrip) (simp_all add: entry_ok_def key_ok_def value_end_def)

text \<open>C35: in a text of entries free of quotes and separators the executor's lookup of a key finds its value, when no earlier entry has
  that key or has the key's text as its string value; a key that is neither is not found.\<close>

theorem json_lookup:
  assumes "\<forall>e\<in>set es. entry_ok e \<and> other_entry k e" "entry_ok (k, v)"
  shows "get_json_value (props_text (es @ (k, v) # fs)) k = json_raw v \<and> get_json_value (props_text es) k = []"
  using get_props_text[OF assms] get_props_text_absent[OF assms(1)] assms(2)
  by (simp add: entry_ok_def key_ok_def)

lemma json_lookup_witness:
  "get_json_value (props_text [(''age'', Jraw ''30''), (''name'', Jstring ''Ann Lee''), (''x'', Jraw ''1'')]) ''name'' = ''Ann Lee''"
  using json_lookup[of "[(''age'', Jraw ''30'')]" "''name''" "Jstring ''Ann Lee''" "[(''x'', Jraw ''1'')]"]
  by (simp add: entry_ok_def key_ok_def value_end_def other_entry_def)

text \<open>C36: in a text of entries free of quotes and separators, SET of a property that the text has, when no
  earlier entry has that key or has the key's text as its string value, and the new value is free
  of them too, replaces its value in place, and leaves the entries
  before and after it as they were; the indexer and the lookup then both read the new value.\<close>

theorem json_update_existing:
  assumes "\<forall>e\<in>set es. entry_ok e \<and> other_entry k e" "entry_ok (k, v)" "\<forall>e\<in>set fs. entry_ok e"
    and "value_ok (new_value new is_str)"
  shows "\<exists>t. update_json_property (props_text (es @ (k, v) # fs)) k new is_str = Some t
    \<and> get_json_value t k = new
    \<and> parse_json_properties t = map (\<lambda>e. (fst e, json_raw (snd e))) (es @ (k, new_value new is_str) # fs)"
proof -
  have k: "entry_ok (k, new_value new is_str)" using assms(2,4) by (simp add: entry_ok_def)
  have "parse_json_properties (props_text (es @ (k, new_value new is_str) # fs)) =
      map (\<lambda>e. (fst e, json_raw (snd e))) (es @ (k, new_value new is_str) # fs)"
    by (rule parse_props_text) (use assms k in auto)
  then show ?thesis
    using update_props_text[OF assms(1,2), of fs new is_str] get_props_text[OF assms(1) k, of fs] by simp
qed

lemma json_update_existing_witness:
  "\<exists>t. update_json_property (props_text [(''a'', Jraw ''1''), (''b'', Jstring ''x''), (''c'', Jraw ''2'')]) ''b'' ''9'' False = Some t
    \<and> get_json_value t ''b'' = ''9'' \<and> parse_json_properties t = [(''a'', ''1''), (''b'', ''9''), (''c'', ''2'')]"
  using json_update_existing[of "[(''a'', Jraw ''1'')]" "''b''" "Jstring ''x''" "[(''c'', Jraw ''2'')]" "''9''" False]
  by (simp add: entry_ok_def key_ok_def value_end_def other_entry_def new_value_def)

text \<open>SET of a property that the text does not have appends it.\<close>

lemma json_update_new:
  assumes "\<forall>e\<in>set m. entry_ok e \<and> other_entry k e" "key_ok k" "value_ok (new_value new is_str)"
  shows "\<exists>t. update_json_property (props_text m) k new is_str = Some t
    \<and> get_json_value t k = new
    \<and> parse_json_properties t = map (\<lambda>e. (fst e, json_raw (snd e))) m @ [(k, new)]"
proof -
  have k: "entry_ok (k, new_value new is_str)" using assms(2,3) by (rule new_entry_ok)
  have "parse_json_properties (props_text (m @ [(k, new_value new is_str)])) =
      map (\<lambda>e. (fst e, json_raw (snd e))) (m @ [(k, new_value new is_str)])"
    by (rule parse_props_text) (use assms k in auto)
  then show ?thesis
    using update_props_text_absent[OF assms(1,2), of new is_str] get_props_text[OF assms(1) k, of "[]"] by simp
qed

lemma json_update_new_witness:
  "\<exists>t. update_json_property (props_text []) ''b'' ''9'' False = Some t
    \<and> get_json_value t ''b'' = ''9'' \<and> parse_json_properties t = [(''b'', ''9'')]"
  using json_update_new[of "[]" "''b''" "''9''" False]
  by (simp add: key_ok_def value_end_def new_value_def)

text \<open>The lookup does not tell keys from values and nothing is escaped: a string value that
  equals the key is taken for it, and a value with a quote in it is cut there and left
  half-replaced by the next SET.\<close>

lemma json_text_confusions:
  "get_json_value (props_text [(''a'', Jstring ''age''), (''b'', Jraw ''1''), (''age'', Jraw ''5'')]) ''age'' = ''1''
   \<and> get_json_value (props_text [(''name'', Jstring (''O'' @ [dquote] @ ''Hara''))]) ''name'' = ''O''
   \<and> update_json_property (props_text [(''name'', Jstring (''O'' @ [dquote] @ ''Hara''))]) ''name'' ''Eve'' True
       = Some (''{'' @ dquote # ''name'' @ dquote # '': '' @ dquote # ''Eve'' @ dquote # ''Hara'' @ dquote # ''}'')"
  by code_simp

end
