(* ===== verification/Kvs.thy ===== *)
theory Kvs
  imports Graph_Prelude
begin

text \<open>
  The transactional key-value store that the program is built on (Sharksfin over Shirakami) is
  not part of the repository: it is the record \<open>'s kvs\<close> of its operations, an argument of every
  definition that calls it, over a state \<open>'s\<close> of its own.  What the program relies on is
  stated as locales over such a record.  Two stores are given: the mock of
  \<open>test/.../sharksfin_mock.h\<close> and a reference store with the documented meaning of
  \<open>PutOperation::CREATE\<close>; both are interpretations.
\<close>

section \<open>The interface\<close>

datatype status_code =
    Ok | Not_found | Already_exists | Waiting_for_other_transaction
  | Err_aborted_retryable | Err_conflict_on_write_preserve | Err_unknown
  | Other_status nat \<comment> \<open>the codes of the real API that the program does not name\<close>

datatype put_operation = Create | Create_or_update | Update

datatype end_point_kind = Unbound | Inclusive | Exclusive | Prefixed_inclusive | Prefixed_exclusive

text \<open>Handles are opaque; the null pointers are the empty handle and zero.\<close>

type_synonym handle = string
type_synonym tx_handle = nat
type_synonym db_handle = nat

record tx_options =
  write_preserves :: "handle list"

text \<open>
  An iterator is the list of the entries it will still deliver: \<open>iterator_next\<close> is OK while
  there is one, and \<open>None\<close> stands for a key or value that cannot be read.
\<close>

type_synonym cursor = "(bytes option \<times> bytes option) list"

record 's kvs =
  storage_create :: "db_handle \<Rightarrow> bytes \<Rightarrow> 's \<Rightarrow> status_code \<times> handle \<times> 's"
  storage_get :: "db_handle \<Rightarrow> bytes \<Rightarrow> 's \<Rightarrow> status_code \<times> handle \<times> 's"
  content_get :: "tx_handle \<Rightarrow> handle \<Rightarrow> bytes \<Rightarrow> 's \<Rightarrow> status_code \<times> bytes \<times> 's"
  content_put :: "tx_handle \<Rightarrow> handle \<Rightarrow> bytes \<Rightarrow> bytes \<Rightarrow> put_operation \<Rightarrow> 's \<Rightarrow> status_code \<times> 's"
  content_scan :: "tx_handle \<Rightarrow> handle \<Rightarrow> bytes \<Rightarrow> end_point_kind \<Rightarrow> bytes \<Rightarrow> end_point_kind
      \<Rightarrow> 's \<Rightarrow> status_code \<times> cursor \<times> 's"
  sequence_create :: "db_handle \<Rightarrow> 's \<Rightarrow> status_code \<times> nat \<times> 's"
  sequence_put :: "tx_handle \<Rightarrow> nat \<Rightarrow> u64 \<Rightarrow> int \<Rightarrow> 's \<Rightarrow> status_code \<times> 's"
  sequence_get :: "db_handle \<Rightarrow> nat \<Rightarrow> 's \<Rightarrow> status_code \<times> u64 \<times> int \<times> 's"
  transaction_begin :: "db_handle \<Rightarrow> tx_options \<Rightarrow> 's \<Rightarrow> status_code \<times> nat \<times> 's"
  transaction_borrow_handle :: "nat \<Rightarrow> 's \<Rightarrow> status_code \<times> tx_handle \<times> 's"
  transaction_commit :: "nat \<Rightarrow> 's \<Rightarrow> status_code \<times> 's"
  transaction_abort :: "nat \<Rightarrow> 's \<Rightarrow> status_code \<times> 's"
  transaction_dispose :: "nat \<Rightarrow> 's \<Rightarrow> status_code \<times> 's"

section \<open>What the program relies on\<close>

definition readable :: "(bytes \<times> bytes) list \<Rightarrow> cursor" where
  "readable es = map (\<lambda>(k, v). (Some k, Some v)) es"

definition above_point :: "end_point_kind \<Rightarrow> bytes \<Rightarrow> bytes \<Rightarrow> bool" where
  "above_point kind b k \<longleftrightarrow> (if kind = Exclusive then b < k else b \<le> k)"

definition below_point :: "end_point_kind \<Rightarrow> bytes \<Rightarrow> bytes \<Rightarrow> bool" where
  "below_point kind e k \<longleftrightarrow> (if kind = Exclusive then k < e else k \<le> e)"

text \<open>
  The contents of a storage, as a sorted map: reads do not change it, an upsert and the creation
  of a new key put their entry, a scan delivers the entries of its range in key order.  After
  the entries with the prefix a prefix scan may go on to other keys, as the mock does.
\<close>

locale kvs_basic =
  fixes K :: "'s kvs" and content :: "'s \<Rightarrow> handle \<Rightarrow> (bytes \<times> bytes) list" and valid :: "'s \<Rightarrow> bool"
  assumes content_sorted: "valid s \<Longrightarrow> sorted_map (content s h)"
    and get_law: "valid s \<Longrightarrow> \<exists>v s'. content_get K tx h k s =
          (if k \<in> fst ` set (content s h) then Ok else Not_found, v, s')
        \<and> content s' = content s \<and> valid s' \<and> (\<forall>w. map_of (content s h) k = Some w \<longrightarrow> v = w)"
    and upsert_law: "valid s \<Longrightarrow> \<exists>s'. content_put K tx h k v Create_or_update s = (Ok, s')
        \<and> content s' = (content s)(h := map_put k v (content s h)) \<and> valid s'"
    and create_law: "valid s \<Longrightarrow> k \<notin> fst ` set (content s h) \<Longrightarrow> \<exists>s'. content_put K tx h k v Create s = (Ok, s')
        \<and> content s' = (content s)(h := map_put k v (content s h)) \<and> valid s'"
    and prefix_law: "valid s \<Longrightarrow> \<exists>extra s'. content_scan K tx h p Prefixed_inclusive p Prefixed_inclusive s =
        (Ok, readable (filter (\<lambda>e. prefix p (fst e)) (content s h) @ extra), s')
        \<and> content s' = content s \<and> valid s' \<and> (\<forall>e\<in>set extra. \<not> prefix p (fst e))"
    and range_law: "valid s \<Longrightarrow> b \<le> e \<Longrightarrow> kb \<in> {Inclusive, Exclusive} \<Longrightarrow> ke \<in> {Inclusive, Exclusive} \<Longrightarrow>
        \<exists>s'. content_scan K tx h b kb e ke s =
          (Ok, readable (filter (\<lambda>x. above_point kb b (fst x) \<and> below_point ke e (fst x)) (content s h)), s')
        \<and> content s' = content s \<and> valid s'"
    and sequence_law: "valid s \<Longrightarrow> \<exists>st s'. sequence_put K tx i ver val s = (st, s')
        \<and> content s' = content s \<and> valid s'"
    and put_frame: "valid s \<Longrightarrow> \<exists>st s'. content_put K tx h k v op s = (st, s')
        \<and> (\<forall>h'. h' \<noteq> h \<longrightarrow> content s' h' = content s h') \<and> valid s'"
    and scan_frame: "valid s \<Longrightarrow> content_scan K tx h b kb e ke s = (st, it, s') \<Longrightarrow> content s' = content s \<and> valid s'"
begin

lemma get_some:
  assumes "valid s" "map_of (content s h) k = Some v"
  shows "\<exists>s'. content_get K tx h k s = (Ok, v, s') \<and> content s' = content s \<and> valid s'"
proof -
  have "k \<in> fst ` set (content s h)" using assms(2) by (force dest: map_of_SomeD)
  then show ?thesis using get_law[OF assms(1), of tx h k] assms(2) by auto
qed

lemma get_none:
  assumes "valid s" "map_of (content s h) k = None"
  shows "\<exists>v s'. content_get K tx h k s = (Not_found, v, s') \<and> content s' = content s \<and> valid s'"
  using get_law[OF assms(1), of tx h k] assms(2) by (auto simp: map_of_eq_None_iff)

lemma put_get:
  assumes "valid s" "content_put K tx h k v Create_or_update s = (st, s')"
  shows "\<exists>s''. content_get K tx h k s' = (Ok, v, s'')"
  using upsert_law[OF assms(1), of tx h k v] get_some[of s' h k v tx] assms(2) by (auto simp: map_of_put)

end

text \<open>The documented meaning of \<open>CREATE\<close>: an existing key is refused and kept.\<close>

locale kvs_strict = kvs_basic +
  assumes create_existing: "valid s \<Longrightarrow> k \<in> fst ` set (content s h) \<Longrightarrow>
      \<exists>s'. content_put K tx h k v Create s = (Already_exists, s') \<and> content s' = content s \<and> valid s'"

text \<open>The value a sequence had at its last \<open>sequence_put\<close>; writes to storages keep it.\<close>

locale kvs_sequences = kvs_basic +
  fixes persisted :: "'s \<Rightarrow> nat \<Rightarrow> int option"
  assumes sequence_put_law: "\<exists>s'. sequence_put K tx i ver val s = (Ok, s')
        \<and> persisted s' = (persisted s)(i \<mapsto> val)"
    and sequence_get_law: "persisted s i = Some val \<Longrightarrow> \<exists>ver s'. sequence_get K db i s = (Ok, ver, val, s')"
    and put_keeps: "\<exists>st s'. content_put K tx h k v op s = (st, s') \<and> persisted s' = persisted s"

text \<open>
  Opening: creating a storage whose name is in use is refused, \<open>storage_get\<close> then gives its handle,
  and the contents stay; a sequence that has just been created has the value 0, if it can be read.
\<close>

locale kvs_opening = kvs_strict +
  fixes named :: "'s \<Rightarrow> string \<Rightarrow> handle option"
  assumes reopen_law: "valid s \<Longrightarrow> named s name = Some h \<Longrightarrow> \<exists>h' s'. storage_create K db name s = (Already_exists, h', s')
        \<and> content s' = content s \<and> valid s' \<and> named s' = named s"
    and open_law: "valid s \<Longrightarrow> named s name = Some h \<Longrightarrow> \<exists>s'. storage_get K db name s = (Ok, h, s')
        \<and> content s' = content s \<and> valid s' \<and> named s' = named s"
    and named_handle: "named s name = Some h \<Longrightarrow> h \<noteq> []"
    and fresh_sequence_law: "valid s \<Longrightarrow> \<exists>i s1 rc ver val s2. sequence_create K db s = (Ok, i, s1)
        \<and> sequence_get K db i s1 = (rc, ver, val, s2) \<and> content s2 = content s \<and> valid s2 \<and> (rc = Ok \<longrightarrow> val = 0)"

section \<open>Two stores\<close>

text \<open>
  The mock: global maps of storages and sequences, and a counter of commits that shall fail.  A
  handle is the storage's name.  \<open>content_put\<close> ignores its operation and a prefix scan runs to
  the end of the storage.  A bounded scan whose begin lies behind its end, which the code never
  asks for, is empty here.
\<close>

record mock_state =
  mock_db_state :: "handle \<Rightarrow> (bytes \<times> bytes) list"
  mock_storages :: "bytes list"
  mock_sequence_values :: "nat \<Rightarrow> (u64 \<times> int) option"
  mock_next_sequence_id :: nat
  mock_commit_failure_count :: nat

definition mock_storage_create :: "db_handle \<Rightarrow> bytes \<Rightarrow> mock_state \<Rightarrow> status_code \<times> handle \<times> mock_state" where
  "mock_storage_create db name s =
     (if name \<in> set (mock_storages s) then (Already_exists, name, s)
      else (Ok, name, s\<lparr>mock_storages := name # mock_storages s,
              mock_db_state := (mock_db_state s)(name := [])\<rparr>))"

definition mock_storage_get :: "db_handle \<Rightarrow> bytes \<Rightarrow> mock_state \<Rightarrow> status_code \<times> handle \<times> mock_state" where
  "mock_storage_get db name s =
     (if name \<notin> set (mock_storages s) then (Not_found, [], s) else (Ok, name, s))"

definition mock_content_get :: "tx_handle \<Rightarrow> handle \<Rightarrow> bytes \<Rightarrow> mock_state \<Rightarrow> status_code \<times> bytes \<times> mock_state" where
  "mock_content_get tx h k s =
     (case map_of (mock_db_state s h) k of None \<Rightarrow> (Not_found, [], s) | Some v \<Rightarrow> (Ok, v, s))"

definition mock_content_put :: "tx_handle \<Rightarrow> handle \<Rightarrow> bytes \<Rightarrow> bytes \<Rightarrow> put_operation \<Rightarrow> mock_state \<Rightarrow> status_code \<times> mock_state" where
  "mock_content_put tx h k v op s =
     (Ok, s\<lparr>mock_db_state := (mock_db_state s)(h := map_put k v (mock_db_state s h))\<rparr>)"

definition mock_content_scan ::
  "tx_handle \<Rightarrow> handle \<Rightarrow> bytes \<Rightarrow> end_point_kind \<Rightarrow> bytes \<Rightarrow> end_point_kind \<Rightarrow> mock_state \<Rightarrow> status_code \<times> cursor \<times> mock_state" where
  "mock_content_scan tx h b kb e ke s =
     (let from = filter (\<lambda>x. above_point kb b (fst x)) (mock_db_state s h);
          upto = (if ke = Exclusive \<or> ke = Inclusive then filter (\<lambda>x. below_point ke e (fst x)) from else from)
      in (Ok, readable upto, s))"

definition mock_sequence_create :: "db_handle \<Rightarrow> mock_state \<Rightarrow> status_code \<times> nat \<times> mock_state" where
  "mock_sequence_create db s =
     (let i = mock_next_sequence_id s in
      (Ok, i, s\<lparr>mock_next_sequence_id := Suc i,
                mock_sequence_values := (mock_sequence_values s)(i \<mapsto> (0, 0))\<rparr>))"

definition mock_sequence_put :: "tx_handle \<Rightarrow> nat \<Rightarrow> u64 \<Rightarrow> int \<Rightarrow> mock_state \<Rightarrow> status_code \<times> mock_state" where
  "mock_sequence_put tx i ver val s =
     (Ok, s\<lparr>mock_sequence_values := (mock_sequence_values s)(i \<mapsto> (ver, val))\<rparr>)"

definition mock_sequence_get :: "db_handle \<Rightarrow> nat \<Rightarrow> mock_state \<Rightarrow> status_code \<times> u64 \<times> int \<times> mock_state" where
  "mock_sequence_get db i s =
     (case mock_sequence_values s i of
        None \<Rightarrow> (Not_found, 0, 0, s)
      | Some (ver, val) \<Rightarrow> (Ok, ver, val, s))"

definition mock_transaction_commit :: "nat \<Rightarrow> mock_state \<Rightarrow> status_code \<times> mock_state" where
  "mock_transaction_commit c s =
     (if mock_commit_failure_count s > 0
      then (Err_aborted_retryable, s\<lparr>mock_commit_failure_count := mock_commit_failure_count s - 1\<rparr>)
      else (Ok, s))"

definition mock_kvs :: "mock_state kvs" where
  "mock_kvs = \<lparr>storage_create = mock_storage_create, storage_get = mock_storage_get,
     content_get = mock_content_get, content_put = mock_content_put, content_scan = mock_content_scan,
     sequence_create = mock_sequence_create, sequence_put = mock_sequence_put,
     sequence_get = mock_sequence_get,
     transaction_begin = (\<lambda>db opt s. (Ok, 48879, s)),
     transaction_borrow_handle = (\<lambda>c s. (Ok, 57005, s)),
     transaction_commit = mock_transaction_commit,
     transaction_abort = (\<lambda>c s. (Ok, s)), transaction_dispose = (\<lambda>c s. (Ok, s))\<rparr>"

definition empty_mock :: mock_state where
  "empty_mock = \<lparr>mock_db_state = (\<lambda>h. []), mock_storages = [], mock_sequence_values = (\<lambda>i. None),
     mock_next_sequence_id = 0, mock_commit_failure_count = 0\<rparr>"

text \<open>The reference store: the mock's state with a strict \<open>CREATE\<close> and \<open>UPDATE\<close>, and prefix
  scans that end with the prefix.\<close>

definition ref_content_put :: "tx_handle \<Rightarrow> handle \<Rightarrow> bytes \<Rightarrow> bytes \<Rightarrow> put_operation \<Rightarrow> mock_state \<Rightarrow> status_code \<times> mock_state" where
  "ref_content_put tx h k v op s =
     (if op = Create \<and> map_of (mock_db_state s h) k \<noteq> None then (Already_exists, s)
      else if op = Update \<and> map_of (mock_db_state s h) k = None then (Not_found, s)
      else mock_content_put tx h k v op s)"

definition ref_content_scan ::
  "tx_handle \<Rightarrow> handle \<Rightarrow> bytes \<Rightarrow> end_point_kind \<Rightarrow> bytes \<Rightarrow> end_point_kind \<Rightarrow> mock_state \<Rightarrow> status_code \<times> cursor \<times> mock_state" where
  "ref_content_scan tx h b kb e ke s =
     (if ke = Prefixed_inclusive then (Ok, readable (filter (\<lambda>x. prefix e (fst x)) (mock_db_state s h)), s)
      else mock_content_scan tx h b kb e ke s)"

definition ref_kvs :: "mock_state kvs" where
  "ref_kvs = mock_kvs\<lparr>content_put := ref_content_put, content_scan := ref_content_scan\<rparr>"

section \<open>Both stores keep the laws\<close>

text \<open>The maps of a mock state are sorted: in the code by their type.\<close>

definition mock_valid :: "mock_state \<Rightarrow> bool" where
  "mock_valid s \<longleftrightarrow> (\<forall>h. sorted_map (mock_db_state s h))"

definition mock_persisted :: "mock_state \<Rightarrow> nat \<Rightarrow> int option" where
  "mock_persisted s i = map_option snd (mock_sequence_values s i)"

lemma kvs_fields [simp]:
  "content_get mock_kvs = mock_content_get" "content_put mock_kvs = mock_content_put"
  "content_scan mock_kvs = mock_content_scan" "sequence_put mock_kvs = mock_sequence_put"
  "sequence_get mock_kvs = mock_sequence_get"
  "content_get ref_kvs = mock_content_get" "content_put ref_kvs = ref_content_put"
  "content_scan ref_kvs = ref_content_scan" "sequence_put ref_kvs = mock_sequence_put"
  "sequence_get ref_kvs = mock_sequence_get"
  by (simp_all add: mock_kvs_def ref_kvs_def)

lemma mock_get_law:
  "\<exists>v s'. mock_content_get tx h k s = (if k \<in> fst ` set (mock_db_state s h) then Ok else Not_found, v, s')
     \<and> mock_db_state s' = mock_db_state s \<and> (mock_valid s \<longrightarrow> mock_valid s')
     \<and> (\<forall>w. map_of (mock_db_state s h) k = Some w \<longrightarrow> v = w)"
proof (cases "map_of (mock_db_state s h) k")
  case None
  moreover from this have "k \<notin> fst ` set (mock_db_state s h)" by (simp only: map_of_eq_None_iff) simp
  ultimately show ?thesis by (simp add: mock_content_get_def)
next
  case (Some v)
  moreover from this have "k \<in> fst ` set (mock_db_state s h)" by (force dest: map_of_SomeD)
  ultimately show ?thesis by (simp add: mock_content_get_def)
qed

lemma mock_put_law:
  "mock_valid s \<Longrightarrow> \<exists>s'. mock_content_put tx h k v op s = (Ok, s')
     \<and> mock_db_state s' = (mock_db_state s)(h := map_put k v (mock_db_state s h)) \<and> mock_valid s'"
  by (auto simp: mock_content_put_def mock_valid_def sorted_map_put)

lemma prefix_le: "prefix p (k :: bytes) \<Longrightarrow> p \<le> k"
proof -
  have "p \<le> p @ r" for r by (induction p) auto
  then show "prefix p k \<Longrightarrow> p \<le> k" by (auto simp: prefix_def)
qed

text \<open>In a sorted map the keys with a prefix come first among those from the prefix on.\<close>

lemma sorted_prefix_first:
  assumes "sorted_map (m :: (bytes \<times> 'a) list)"
  shows "\<exists>extra. filter (\<lambda>e. p \<le> fst e) m = filter (\<lambda>e. prefix p (fst e)) m @ extra
           \<and> (\<forall>e\<in>set extra. \<not> prefix p (fst e))"
proof -
  have "prefix p k" if "p \<le> k" "k < k'" "prefix p k'" for k k' :: bytes
    using that
  proof (induction p arbitrary: k k')
    case (Cons c p)
    obtain q' where k': "k' = c # q'" "prefix p q'" using Cons.prems(3) by (cases k') auto
    obtain d q where k: "k = d # q" using Cons.prems(1) by (cases k) auto
    then have "d = c" "p \<le> q" "q < q'" using Cons.prems(1,2) k' by auto
    then show ?case using Cons.IH[of q q'] k k' by simp
  qed simp
  then have mono: "\<not> prefix p k'" if "p \<le> k" "\<not> prefix p k" "k < k'" for k k'
    using that by blast
  show ?thesis
    using assms
  proof (induction m)
    case (Cons e m)
    then obtain extra where IH: "filter (\<lambda>e. p \<le> fst e) m = filter (\<lambda>e. prefix p (fst e)) m @ extra"
        "\<forall>e\<in>set extra. \<not> prefix p (fst e)" by (auto simp: sorted_map_Cons)
    show ?case
    proof (cases "p \<le> fst e")
      case False
      then show ?thesis using IH prefix_le[of p "fst e"] by auto
    next
      case True
      show ?thesis
      proof (cases "prefix p (fst e)")
        case p: True
        then show ?thesis using IH True by auto
      next
        case no: False
        have "\<not> prefix p (fst x)" if "x \<in> set m" for x
          using mono[OF True no] Cons.prems that by (auto simp: sorted_map_Cons)
        then have "filter (\<lambda>e. prefix p (fst e)) m = []" by (simp add: filter_empty_conv)
        then show ?thesis
          using True no IH \<open>\<And>x. x \<in> set m \<Longrightarrow> \<not> prefix p (fst x)\<close> by auto
      qed
    qed
  qed simp
qed

lemma mock_prefix_law:
  assumes "mock_valid s"
  shows "\<exists>extra. mock_content_scan tx h p Prefixed_inclusive p Prefixed_inclusive s =
      (Ok, readable (filter (\<lambda>e. prefix p (fst e)) (mock_db_state s h) @ extra), s)
      \<and> (\<forall>e\<in>set extra. \<not> prefix p (fst e))"
proof -
  have "above_point Prefixed_inclusive p k \<longleftrightarrow> p \<le> k" for k by (simp add: above_point_def)
  then have "mock_content_scan tx h p Prefixed_inclusive p Prefixed_inclusive s =
      (Ok, readable (filter (\<lambda>e. p \<le> fst e) (mock_db_state s h)), s)"
    by (simp add: mock_content_scan_def Let_def)
  then show ?thesis using sorted_prefix_first[of "mock_db_state s h" p] assms
    by (auto simp: mock_valid_def)
qed

lemma mock_range_law:
  "ke \<in> {Inclusive, Exclusive} \<Longrightarrow> mock_content_scan tx h b kb e ke s =
     (Ok, readable (filter (\<lambda>x. above_point kb b (fst x) \<and> below_point ke e (fst x)) (mock_db_state s h)), s)"
  by (auto simp: mock_content_scan_def Let_def conj_commute)

lemma mock_sequence_law:
  "\<exists>s'. mock_sequence_put tx i ver val s = (Ok, s') \<and> mock_persisted s' = (mock_persisted s)(i \<mapsto> val)
     \<and> mock_db_state s' = mock_db_state s \<and> (mock_valid s \<longrightarrow> mock_valid s')"
  by (auto simp: mock_sequence_put_def mock_persisted_def mock_valid_def)

lemma mock_sequence_get_law:
  "mock_persisted s i = Some val \<Longrightarrow> \<exists>ver s'. mock_sequence_get db i s = (Ok, ver, val, s')"
  by (auto simp: mock_sequence_get_def mock_persisted_def)

lemma mock_put_keeps: "mock_persisted (snd (mock_content_put tx h k v op s)) = mock_persisted s"
  by (simp add: mock_content_put_def mock_persisted_def fun_eq_iff)

lemma ref_create_new:
  "map_of (mock_db_state s h) k = None \<Longrightarrow> ref_content_put tx h k v Create s = mock_content_put tx h k v Create s"
  by (simp add: ref_content_put_def)

lemma ref_upsert: "ref_content_put tx h k v Create_or_update s = mock_content_put tx h k v Create_or_update s"
  by (simp add: ref_content_put_def)

interpretation mock: kvs_sequences mock_kvs mock_db_state mock_valid mock_persisted
proof (unfold_locales, goal_cases)
  case (1 s h)
  then show ?case by (simp add: mock_valid_def)
next
  case (2 s tx h k)
  then show ?case using mock_get_law[of tx h k s] by (metis kvs_fields(1))
next
  case (3 s tx h k v)
  then show ?case using mock_put_law by simp
next
  case (4 s k h tx v)
  then show ?case using mock_put_law by simp
next
  case (5 s tx h p)
  then show ?case using mock_prefix_law[of s tx h p] by auto
next
  case (6 s b e kb ke tx h)
  then show ?case using mock_range_law[of ke tx h b kb e s] by simp
next
  case (7 s tx i ver val)
  then show ?case using mock_sequence_law[of tx i ver val s] by auto
next
  case (8 s tx h k v op)
  then show ?case using mock_put_law[of s tx h k v op] by fastforce
next
  case (9 s tx h b kb e ke st it s')
  then show ?case by (auto simp: mock_content_scan_def Let_def)
next
  case (10 tx i ver val s)
  then show ?case using mock_sequence_law[of tx i ver val s] by auto
next
  case (11 s i val db)
  then show ?case using mock_sequence_get_law by simp
next
  case (12 tx h k v op s)
  then show ?case using mock_put_keeps[of tx h k v op s] by (metis kvs_fields(2) prod.collapse)
qed

interpretation ref: kvs_strict ref_kvs mock_db_state mock_valid
proof (unfold_locales, goal_cases)
  case (1 s h)
  then show ?case by (simp add: mock_valid_def)
next
  case (2 s tx h k)
  then show ?case using mock_get_law[of tx h k s] by (metis kvs_fields(6))
next
  case (3 s tx h k v)
  then show ?case using mock_put_law by (simp add: ref_upsert)
next
  case (4 s k h tx v)
  then show ?case using mock_put_law by (simp add: ref_create_new map_of_eq_None_iff)
next
  case (5 s tx h p)
  have "ref_content_scan tx h p Prefixed_inclusive p Prefixed_inclusive s =
      (Ok, readable (filter (\<lambda>e. prefix p (fst e)) (mock_db_state s h) @ []), s)"
    by (simp add: ref_content_scan_def)
  then show ?case using 5 by (metis empty_iff kvs_fields(8) list.set(1))
next
  case (6 s b e kb ke tx h)
  then have "ref_content_scan tx h b kb e ke s = mock_content_scan tx h b kb e ke s"
    by (auto simp: ref_content_scan_def)
  then show ?case using mock_range_law[of ke tx h b kb e s] 6 by simp
next
  case (7 s tx i ver val)
  then show ?case using mock_sequence_law[of tx i ver val s] by auto
next
  case (8 s tx h k v op)
  then show ?case using mock_put_law[of s tx h k v op] by (auto simp: ref_content_put_def)
next
  case (9 s tx h b kb e ke st it s')
  then show ?case by (auto simp: ref_content_scan_def mock_content_scan_def Let_def split: if_splits)
next
  case (10 s k h tx v)
  then have "map_of (mock_db_state s h) k \<noteq> None" by (simp only: map_of_eq_None_iff) simp
  then show ?case using 10 by (auto simp: ref_content_put_def)
qed

interpretation ref_seq: kvs_sequences ref_kvs mock_db_state mock_valid mock_persisted
proof (unfold_locales, goal_cases)
  case (1 tx i ver val s)
  then show ?case using mock_sequence_law[of tx i ver val s] by auto
next
  case (2 s i val db)
  then show ?case using mock_sequence_get_law by simp
next
  case (3 tx h k v op s)
  then show ?case using mock_put_keeps[of tx h k v op s]
    by (cases "mock_content_put tx h k v op s") (auto simp: ref_content_put_def)
qed

text \<open>The handle of a storage is its name; the empty name would be the null handle.\<close>

definition mock_named :: "mock_state \<Rightarrow> string \<Rightarrow> handle option" where
  "mock_named s name = (if name \<in> set (mock_storages s) \<and> name \<noteq> [] then Some name else None)"

interpretation ref_open: kvs_opening ref_kvs mock_db_state mock_valid mock_named
proof (unfold_locales, goal_cases)
  case (1 s name h db)
  then show ?case by (simp add: ref_kvs_def mock_kvs_def mock_storage_create_def mock_named_def split: if_splits)
next
  case (2 s name h db)
  then show ?case by (simp add: ref_kvs_def mock_kvs_def mock_storage_get_def mock_named_def split: if_splits)
next
  case (3 s name h)
  then show ?case by (auto simp: mock_named_def split: if_splits)
next
  case (4 s db)
  then show ?case
    by (simp add: ref_kvs_def mock_kvs_def mock_sequence_create_def mock_sequence_get_def mock_valid_def Let_def)
qed

lemma empty_mock_valid: "mock_valid empty_mock"
  by (simp add: mock_valid_def empty_mock_def)

end
