(* ===== verification/Prop_Index.thy ===== *)
theory Prop_Index
  imports Kvs Cpp_Double Json_Props
begin

text \<open>
  The storage object of \<open>storage.h\<close> and the property index of \<open>storage.cpp\<close>: the keys of
  ADR-0007 and ADR-0013, adding and removing a node's entries, and the lookups by equality and
  by range.  An operation takes the store's interface, the transaction, the object and the
  store's state; \<open>return false\<close> is \<open>None\<close> where the caller reads a result and \<open>False\<close>
  elsewhere.  Log output and \<open>iterator_dispose\<close> are left out.
\<close>

section \<open>The storage object\<close>

record storage =
  nodes_handle :: handle
  edges_handle :: handle
  out_index_handle :: handle
  in_index_handle :: handle
  label_index_handle :: handle
  property_index_handle :: handle
  sequence_id :: nat
  sequence_version :: u64
  next_id :: u64
  sequence_batch_remaining :: u64

definition new_storage :: storage where
  "new_storage = \<lparr>nodes_handle = [], edges_handle = [], out_index_handle = [], in_index_handle = [],
     label_index_handle = [], property_index_handle = [], sequence_id = 0, sequence_version = 0,
     next_id = 1, sequence_batch_remaining = 0\<rparr>"

definition prefix_scan :: "'s kvs \<Rightarrow> tx_handle \<Rightarrow> handle \<Rightarrow> bytes \<Rightarrow> 's \<Rightarrow> status_code \<times> cursor \<times> 's" where
  "prefix_scan K tx h pre s = content_scan K tx h pre Prefixed_inclusive pre Prefixed_inclusive s"

section \<open>Index keys\<close>

definition prop_type_numeric :: char where
  "prop_type_numeric = CHR 0x01"

definition prop_type_string :: char where
  "prop_type_string = CHR 0x02"

definition index_prefix :: "string \<Rightarrow> string \<Rightarrow> bytes" where
  "index_prefix label key = label @ [nul] @ key @ [nul]"

definition build_prop_index_key :: "string \<Rightarrow> string \<Rightarrow> string \<Rightarrow> bytes" where
  "build_prop_index_key label key val =
     index_prefix label key
     @ (if val = [] then prop_type_string # val
        else case stod val of
            Stod num \<Rightarrow> prop_type_numeric # encode_sortable_double num
          | _ \<Rightarrow> prop_type_string # val)"

section \<open>Adding and removing entries\<close>

text \<open>
  One entry: create the key with the node's id; when that fails, read what the key has and
  write it back with the id appended.
\<close>

definition add_index_entry :: "'s kvs \<Rightarrow> tx_handle \<Rightarrow> handle \<Rightarrow> bytes \<Rightarrow> u64 \<Rightarrow> 's \<Rightarrow> 's" where
  "add_index_entry K tx h idx_key node_id s =
     (let (rc, s1) = content_put K tx h idx_key (write_key node_id) Create s in
      if rc = Ok then s1
      else
        let (rg, existing, s2) = content_get K tx h idx_key s1;
            existing_str = (if rg = Ok then existing else [])
        in snd (content_put K tx h idx_key (existing_str @ write_key node_id) Create_or_update s2))"

definition remove_index_entry :: "'s kvs \<Rightarrow> tx_handle \<Rightarrow> handle \<Rightarrow> bytes \<Rightarrow> u64 \<Rightarrow> 's \<Rightarrow> 's" where
  "remove_index_entry K tx h idx_key node_id s =
     (let (rg, existing, s1) = content_get K tx h idx_key s in
      if rg = Ok then snd (content_put K tx h idx_key (remove_packed_id existing node_id) Create_or_update s1)
      else s1)"

definition index_node_properties ::
  "'s kvs \<Rightarrow> tx_handle \<Rightarrow> storage \<Rightarrow> u64 \<Rightarrow> string \<Rightarrow> string \<Rightarrow> 's \<Rightarrow> bool \<times> 's" where
  "index_node_properties K tx so node_id label properties s =
     (if tx = 0 \<or> property_index_handle so = [] \<or> label = [] then (False, s)
      else (True, fold (\<lambda>(key, val).
             add_index_entry K tx (property_index_handle so) (build_prop_index_key label key val) node_id)
           (parse_json_properties properties) s))"

definition remove_property_index ::
  "'s kvs \<Rightarrow> tx_handle \<Rightarrow> storage \<Rightarrow> u64 \<Rightarrow> string \<Rightarrow> string \<Rightarrow> 's \<Rightarrow> bool \<times> 's" where
  "remove_property_index K tx so node_id label properties s =
     (if tx = 0 \<or> property_index_handle so = [] \<or> label = [] then (False, s)
      else (True, fold (\<lambda>(key, val).
             remove_index_entry K tx (property_index_handle so) (build_prop_index_key label key val) node_id)
           (parse_json_properties properties) s))"

section \<open>Lookups\<close>

definition find_nodes_by_property ::
  "'s kvs \<Rightarrow> tx_handle \<Rightarrow> storage \<Rightarrow> string \<Rightarrow> string \<Rightarrow> string \<Rightarrow> 's \<Rightarrow> u64 list option \<times> 's" where
  "find_nodes_by_property K tx so label key val s =
     (if tx = 0 \<or> property_index_handle so = [] then (None, s)
      else
        let (rc, packed, s1) = content_get K tx (property_index_handle so) (build_prop_index_key label key val) s
        in if rc \<noteq> Ok then (Some [], s1) else (Some (unpack_ids packed), s1))"

text \<open>The two loops of the range lookup; the cursor holds what the iterator still delivers.\<close>

fun range_loop :: "bytes \<Rightarrow> cursor \<Rightarrow> u64 list" where
  "range_loop pre [] = []"
| "range_loop pre ((Some key, Some val) # it) =
     (if length key < length pre \<or> take (length pre) key \<noteq> pre then []
      else unpack_ids val @ range_loop pre it)"
| "range_loop pre (_ # it) = []"

definition compare_numbers :: "string \<Rightarrow> double \<Rightarrow> double \<Rightarrow> bool" where
  "compare_numbers op a b =
     (if op = ''<>'' then \<not> double_eq a b
      else if op = ''>'' then double_less b a
      else if op = ''<'' then double_less a b
      else if op = ''>='' then double_le b a
      else if op = ''<='' then double_le a b
      else False)"

definition compare_strings :: "string \<Rightarrow> string \<Rightarrow> string \<Rightarrow> bool" where
  "compare_strings op a b =
     (if op = ''>'' then a > b
      else if op = ''<'' then a < b
      else if op = ''>='' then a \<ge> b
      else if op = ''<='' then a \<le> b
      else if op = ''<>'' then a \<noteq> b
      else False)"

definition index_match :: "string \<Rightarrow> stod_result \<Rightarrow> string \<Rightarrow> bytes \<Rightarrow> bool" where
  \<comment> \<open>\<open>rest\<close> is the key after the prefix, with its type character\<close>
  "index_match op num compare_value rest =
     (if hd rest = prop_type_numeric \<and> length rest \<ge> 9 then
        (case num of
           Stod compare_num \<Rightarrow> compare_numbers op (decode_sortable_double (tl rest)) compare_num
         | _ \<Rightarrow> False)
      else if hd rest = prop_type_string then compare_strings op (tl rest) compare_value
      else False)"

fun fallback_loop :: "bytes \<Rightarrow> string \<Rightarrow> stod_result \<Rightarrow> string \<Rightarrow> cursor \<Rightarrow> u64 list" where
  "fallback_loop pre op num cmp [] = []"
| "fallback_loop pre op num cmp ((Some key, Some val) # it) =
     (if length key < length pre \<or> take (length pre) key \<noteq> pre then []
      else if length key \<le> length pre then fallback_loop pre op num cmp it
      else (if index_match op num cmp (drop (length pre) key) then unpack_ids val else [])
           @ fallback_loop pre op num cmp it)"
| "fallback_loop pre op num cmp (_ # it) = []"

definition find_nodes_by_property_range ::
  "'s kvs \<Rightarrow> tx_handle \<Rightarrow> storage \<Rightarrow> string \<Rightarrow> string \<Rightarrow> string \<Rightarrow> string \<Rightarrow> 's \<Rightarrow> u64 list option \<times> 's" where
  "find_nodes_by_property_range K tx so label key op cmp s =
     (if tx = 0 \<or> property_index_handle so = [] \<or> label = [] then (None, s)
      else
        let h = property_index_handle so; pre = index_prefix label key; num = stod cmp in
        case num of
          Stod threshold \<Rightarrow>
            if op \<noteq> ''<>'' then
              (let point = pre @ prop_type_numeric # encode_sortable_double threshold;
                   (rc, it, s1) =
                     (if op = ''>'' \<or> op = ''>='' then
                        content_scan K tx h point (if op = ''>'' then Exclusive else Inclusive)
                          (pre @ [prop_type_string]) Exclusive s
                      else
                        content_scan K tx h (pre @ [prop_type_numeric]) Inclusive
                          point (if op = ''<='' then Inclusive else Exclusive) s)
               in if rc \<noteq> Ok then (Some [], s1) else (Some (range_loop pre it), s1))
            else
              (let (rc, it, s1) = prefix_scan K tx h pre s
               in if rc \<noteq> Ok then (Some [], s1) else (Some (fallback_loop pre op num cmp it), s1))
        | _ \<Rightarrow>
            (let (rc, it, s1) = prefix_scan K tx h pre s
             in if rc \<noteq> Ok then (Some [], s1) else (Some (fallback_loop pre op num cmp it), s1)))"

section \<open>Entries of the index\<close>

text \<open>What the index holds for a key, and that every value is a whole number of ids.\<close>

definition index_ids :: "(bytes \<times> bytes) list \<Rightarrow> bytes \<Rightarrow> u64 list" where
  "index_ids m k = (case map_of m k of None \<Rightarrow> [] | Some v \<Rightarrow> unpack_ids v)"

definition packed_index :: "(bytes \<times> bytes) list \<Rightarrow> bool" where
  "packed_index m \<longleftrightarrow> (\<forall>e\<in>set m. length (snd e) mod 8 = 0)"

lemma set_map_put: "set (map_put k v m) \<subseteq> insert (k, v) (set m)"
  by (induction k v m rule: map_put.induct) auto

lemma packed_put: "packed_index m \<Longrightarrow> length v mod 8 = 0 \<Longrightarrow> packed_index (map_put k v m)"
  using set_map_put[of k v m] by (fastforce simp: packed_index_def)

lemma packed_value: "packed_index m \<Longrightarrow> map_of m k = Some v \<Longrightarrow> length v mod 8 = 0"
  by (auto simp: packed_index_def dest!: map_of_SomeD)

lemma length_remove_packed: "length p mod 8 = 0 \<Longrightarrow> length (remove_packed_id p i) mod 8 = 0"
proof -
  assume "length p mod 8 = 0"
  from packed_exists[OF this] obtain ids where "p = pack_ids ids" ..
  moreover have "length (pack_ids js) = 8 * length js" for js
    by (induction js) (simp_all add: pack_ids_def)
  ultimately show ?thesis by (simp add: remove_pack)
qed

context kvs_basic
begin

lemma remove_entry_law:
  assumes "valid s" "packed_index (content s h)"
  shows "valid (remove_index_entry K tx h k i s)"
    "\<And>h'. h' \<noteq> h \<Longrightarrow> content (remove_index_entry K tx h k i s) h' = content s h'"
    "packed_index (content (remove_index_entry K tx h k i s) h)"
    "index_ids (content (remove_index_entry K tx h k i s) h) k' =
       (if k' = k then filter (\<lambda>j. j \<noteq> i) (index_ids (content s h) k) else index_ids (content s h) k')"
proof -
  let ?s' = "remove_index_entry K tx h k i s"
  have "valid ?s' \<and> (\<forall>h'. h' \<noteq> h \<longrightarrow> content ?s' h' = content s h') \<and> packed_index (content ?s' h)
    \<and> index_ids (content ?s' h) k' =
        (if k' = k then filter (\<lambda>j. j \<noteq> i) (index_ids (content s h) k) else index_ids (content s h) k')"
  proof (cases "map_of (content s h) k")
    case None
    from get_none[OF assms(1) None, of tx] obtain v s1 where
      s1: "content_get K tx h k s = (Not_found, v, s1)" "content s1 = content s" "valid s1" by blast
    then have "?s' = s1" by (simp add: remove_index_entry_def)
    then show ?thesis using s1 assms(2) None by (simp add: index_ids_def)
  next
    case (Some v)
    from get_some[OF assms(1) Some, of tx] obtain s1 where
      s1: "content_get K tx h k s = (Ok, v, s1)" "content s1 = content s" "valid s1" by blast
    from upsert_law[OF s1(3), of tx h k "remove_packed_id v i"] obtain s2 where
      s2: "content_put K tx h k (remove_packed_id v i) Create_or_update s1 = (Ok, s2)"
        "content s2 = (content s)(h := map_put k (remove_packed_id v i) (content s h))" "valid s2"
      by (auto simp: s1)
    have "?s' = s2" by (simp add: remove_index_entry_def s1 s2)
    moreover have "length v mod 8 = 0" using packed_value[OF assms(2) Some] .
    ultimately show ?thesis
      using s2 Some assms(2) packed_put[OF assms(2) length_remove_packed]
      by (auto simp: index_ids_def map_of_put unpack_remove)
  qed
  then show "valid ?s'" "\<And>h'. h' \<noteq> h \<Longrightarrow> content ?s' h' = content s h'" "packed_index (content ?s' h)"
    "index_ids (content ?s' h) k' =
       (if k' = k then filter (\<lambda>j. j \<noteq> i) (index_ids (content s h) k) else index_ids (content s h) k')"
    by auto
qed

lemma find_law:
  assumes "valid s" "tx \<noteq> 0" "property_index_handle so \<noteq> []"
  shows "\<exists>s'. find_nodes_by_property K tx so label key val s =
    (Some (index_ids (content s (property_index_handle so)) (build_prop_index_key label key val)), s')
    \<and> content s' = content s \<and> valid s'"
proof (cases "map_of (content s (property_index_handle so)) (build_prop_index_key label key val)")
  case None
  from get_none[OF assms(1) None, of tx] show ?thesis
    using assms by (auto simp: find_nodes_by_property_def index_ids_def None)
next
  case (Some v)
  from get_some[OF assms(1) Some, of tx] show ?thesis
    using assms by (auto simp: find_nodes_by_property_def index_ids_def Some)
qed

end

context kvs_strict
begin

lemma add_entry_law:
  assumes "valid s" "packed_index (content s h)"
  shows "valid (add_index_entry K tx h k i s)
    \<and> (\<forall>h'. h' \<noteq> h \<longrightarrow> content (add_index_entry K tx h k i s) h' = content s h')
    \<and> packed_index (content (add_index_entry K tx h k i s) h)
    \<and> index_ids (content (add_index_entry K tx h k i s) h) k' =
       (if k' = k then index_ids (content s h) k @ [i] else index_ids (content s h) k')"
proof (cases "map_of (content s h) k")
  case None
  then have k: "k \<notin> fst ` set (content s h)" by (simp add: map_of_eq_None_iff)
  from create_law[OF assms(1) k, of tx "to_key i"] obtain s1 where
    s1: "content_put K tx h k (to_key i) Create s = (Ok, s1)"
      "content s1 = (content s)(h := map_put k (to_key i) (content s h))" "valid s1" by blast
  then have "add_index_entry K tx h k i s = s1" by (simp add: add_index_entry_def)
  then show ?thesis
    using s1 None packed_put[OF assms(2), of "to_key i" k] unpack_to_key[of i "[]"]
    by (auto simp: index_ids_def map_of_put)
next
  case (Some v)
  then have k: "k \<in> fst ` set (content s h)" by (force dest: map_of_SomeD)
  from create_existing[OF assms(1) k, of tx "to_key i"] obtain s1 where
    s1: "content_put K tx h k (to_key i) Create s = (Already_exists, s1)"
      "content s1 = content s" "valid s1" by blast
  from get_some[OF s1(3), of h k v tx] obtain s2 where
    s2: "content_get K tx h k s1 = (Ok, v, s2)" "content s2 = content s" "valid s2" using Some s1 by auto
  from upsert_law[OF s2(3), of tx h k "v @ to_key i"] obtain s3 where
    s3: "content_put K tx h k (v @ to_key i) Create_or_update s2 = (Ok, s3)"
      "content s3 = (content s)(h := map_put k (v @ to_key i) (content s h))" "valid s3" by (auto simp: s2)
  have "add_index_entry K tx h k i s = s3" by (simp add: add_index_entry_def s1 s2 s3)
  moreover have v: "length v mod 8 = 0" using packed_value[OF assms(2) Some] .
  then have "length (v @ to_key i) mod 8 = 0" by simp
  moreover have "unpack_ids (v @ to_key i) = unpack_ids v @ [i]"
    using unpack_append[OF v, of "to_key i"] unpack_to_key[of i "[]"] by simp
  ultimately show ?thesis
    using s3 Some packed_put[OF assms(2)] by (auto simp: index_ids_def map_of_put)
qed

end

text \<open>All entries of a property list, for the keys they have in the index.\<close>

definition key_count :: "string \<Rightarrow> (string \<times> string) list \<Rightarrow> bytes \<Rightarrow> nat" where
  "key_count label props k = length (filter (\<lambda>(key, val). build_prop_index_key label key val = k) props)"

context kvs_strict
begin

lemma add_entries_law:
  assumes "valid s" "packed_index (content s h)"
  shows "valid (fold (\<lambda>(key, val). add_index_entry K tx h (build_prop_index_key label key val) i) props s)
    \<and> (\<forall>h'. h' \<noteq> h \<longrightarrow>
        content (fold (\<lambda>(key, val). add_index_entry K tx h (build_prop_index_key label key val) i) props s) h' = content s h')
    \<and> packed_index (content (fold (\<lambda>(key, val). add_index_entry K tx h (build_prop_index_key label key val) i) props s) h)
    \<and> index_ids (content (fold (\<lambda>(key, val). add_index_entry K tx h (build_prop_index_key label key val) i) props s) h) k
        = index_ids (content s h) k @ replicate (key_count label props k) i"
  using assms
proof (induction props arbitrary: s)
  case (Cons p props)
  obtain key val where p: "p = (key, val)" by (cases p)
  let ?s1 = "add_index_entry K tx h (build_prop_index_key label key val) i s"
  note L = add_entry_law[OF Cons.prems, where tx = tx and k = "build_prop_index_key label key val" and i = i]
  have "replicate n x @ [x] = x # replicate n x" for n and x :: u64 by (induction n) auto
  then show ?case
    using L[where k' = k] Cons.IH[of ?s1] by (auto simp: p key_count_def)
qed (simp add: key_count_def)

end

context kvs_basic
begin

lemma remove_entries_law:
  assumes "valid s" "packed_index (content s h)"
  shows "valid (fold (\<lambda>(key, val). remove_index_entry K tx h (build_prop_index_key label key val) i) props s)
    \<and> packed_index (content (fold (\<lambda>(key, val). remove_index_entry K tx h (build_prop_index_key label key val) i) props s) h)
    \<and> index_ids (content (fold (\<lambda>(key, val). remove_index_entry K tx h (build_prop_index_key label key val) i) props s) h) k
        = (if key_count label props k = 0 then index_ids (content s h) k
           else filter (\<lambda>j. j \<noteq> i) (index_ids (content s h) k))"
  using assms
proof (induction props arbitrary: s)
  case (Cons p props)
  obtain key val where p: "p = (key, val)" by (cases p)
  let ?s1 = "remove_index_entry K tx h (build_prop_index_key label key val) i s"
  note L = remove_entry_law[OF Cons.prems, where tx = tx and k = "build_prop_index_key label key val" and i = i]
  show ?case using L(1,3) L(4)[where k' = k] Cons.IH[of ?s1] by (auto simp: p key_count_def)
qed (simp add: key_count_def)

end

section \<open>Ranges of keys\<close>

lemma append_le_same: "(p @ a \<le> p @ b) = (a \<le> (b :: bytes))"
  by (induction p) auto

lemma append_less_same: "(p @ a < p @ b) = (a < (b :: bytes))"
  by (induction p) auto

lemma prefix_between: "p @ a \<le> k \<Longrightarrow> k \<le> p @ b \<Longrightarrow> \<exists>r. k = p @ (r :: bytes)"
proof (induction p arbitrary: k)
  case (Cons c p)
  then obtain d q where k: "k = d # q" by (cases k) auto
  then have "d = c" using Cons.prems by auto
  then show ?case using Cons.IH[of q] Cons.prems k by auto
qed simp

text \<open>A range of a property's numeric keys is a range of their encodings.\<close>

definition numeric_prefix :: "bytes \<Rightarrow> bytes" where
  "numeric_prefix pre = pre @ [prop_type_numeric]"

definition numeric_rest :: "bytes \<Rightarrow> bytes \<Rightarrow> bytes" where
  "numeric_rest pre key = drop (length pre + 1) key"

lemma numeric_restI: "prefix (numeric_prefix pre) key \<Longrightarrow> key = pre @ prop_type_numeric # numeric_rest pre key"
  by (auto simp: prefix_def numeric_prefix_def numeric_rest_def)

lemma types_ordered: "prop_type_numeric < prop_type_string"
  by (simp add: prop_type_numeric_def prop_type_string_def less_char_def)

lemma between_types: "prop_type_numeric \<le> d \<Longrightarrow> d < prop_type_string \<Longrightarrow> d = prop_type_numeric"
proof -
  assume "prop_type_numeric \<le> d" "d < prop_type_string"
  then have "code d = code prop_type_numeric"
    by (simp add: prop_type_numeric_def prop_type_string_def less_char_def less_eq_char_def)
  then show "d = prop_type_numeric" by (simp only: of_char_eq_iff)
qed

lemma upper_range:
  "(pre @ prop_type_numeric # t \<le> key \<and> key < pre @ [prop_type_string]) \<longleftrightarrow>
     prefix (numeric_prefix pre) key \<and> t \<le> numeric_rest pre key"
  "(pre @ prop_type_numeric # t < key \<and> key < pre @ [prop_type_string]) \<longleftrightarrow>
     prefix (numeric_prefix pre) key \<and> t < numeric_rest pre key"
proof -
  have "prefix (numeric_prefix pre) key" if le: "pre @ prop_type_numeric # t \<le> key" and lt: "key < pre @ [prop_type_string]"
  proof -
    obtain r where key: "key = pre @ r"
      using prefix_between[OF le order_less_imp_le[OF lt]] by blast
    then have "prop_type_numeric # t \<le> r" "r < [prop_type_string]"
      using le lt append_le_same append_less_same by auto
    then obtain q where "r = prop_type_numeric # q"
      using between_types by (cases r) (auto simp: order.order_iff_strict)
    then show ?thesis by (simp add: key numeric_prefix_def)
  qed
  moreover have "key < pre @ [prop_type_string]" if "prefix (numeric_prefix pre) key"
    using numeric_restI[OF that] types_ordered append_less_same by (metis Cons_less_Cons)
  moreover have "pre @ prop_type_numeric # t \<le> key \<longleftrightarrow> t \<le> numeric_rest pre key"
    "pre @ prop_type_numeric # t < key \<longleftrightarrow> t < numeric_rest pre key" if "prefix (numeric_prefix pre) key"
    using numeric_restI[OF that] append_le_same[of pre] append_less_same[of pre] by (metis Cons_le_Cons Cons_less_Cons less_irrefl)+
  ultimately show
    "(pre @ prop_type_numeric # t \<le> key \<and> key < pre @ [prop_type_string]) \<longleftrightarrow>
       prefix (numeric_prefix pre) key \<and> t \<le> numeric_rest pre key"
    "(pre @ prop_type_numeric # t < key \<and> key < pre @ [prop_type_string]) \<longleftrightarrow>
       prefix (numeric_prefix pre) key \<and> t < numeric_rest pre key"
    by (meson less_imp_le)+
qed

lemma lower_range:
  "(numeric_prefix pre \<le> key \<and> key \<le> pre @ prop_type_numeric # t) \<longleftrightarrow>
     prefix (numeric_prefix pre) key \<and> numeric_rest pre key \<le> t"
  "(numeric_prefix pre \<le> key \<and> key < pre @ prop_type_numeric # t) \<longleftrightarrow>
     prefix (numeric_prefix pre) key \<and> numeric_rest pre key < t"
proof -
  have "prefix (numeric_prefix pre) key" if "numeric_prefix pre \<le> key" "key \<le> pre @ prop_type_numeric # t"
    using prefix_between[of "numeric_prefix pre" "[]" key t] that by (auto simp: numeric_prefix_def)
  moreover have "numeric_prefix pre \<le> key" if "prefix (numeric_prefix pre) key"
    using that by (rule prefix_le)
  moreover have "key \<le> pre @ prop_type_numeric # t \<longleftrightarrow> numeric_rest pre key \<le> t"
    "key < pre @ prop_type_numeric # t \<longleftrightarrow> numeric_rest pre key < t" if "prefix (numeric_prefix pre) key"
    using numeric_restI[OF that] append_le_same[of pre] append_less_same[of pre] by (metis Cons_le_Cons Cons_less_Cons less_irrefl)+
  ultimately show
    "(numeric_prefix pre \<le> key \<and> key \<le> pre @ prop_type_numeric # t) \<longleftrightarrow>
       prefix (numeric_prefix pre) key \<and> numeric_rest pre key \<le> t"
    "(numeric_prefix pre \<le> key \<and> key < pre @ prop_type_numeric # t) \<longleftrightarrow>
       prefix (numeric_prefix pre) key \<and> numeric_rest pre key < t"
    by (meson less_imp_le)+
qed

section \<open>The range lookup is a filter\<close>

lemma range_loop_readable:
  "\<forall>e\<in>set es. prefix pre (fst e) \<Longrightarrow> range_loop pre (readable es) = concat (map (\<lambda>e. unpack_ids (snd e)) es)"
proof (induction es)
  case (Cons e es)
  then have "take (length pre) (fst e) = pre" "length pre \<le> length (fst e)" by (auto simp: prefix_def)
  then show ?case using Cons by (auto simp: readable_def case_prod_beta)
qed (simp add: readable_def)

text \<open>The numeric entries of a property whose number stands in the relation \<open>op\<close> to a number.\<close>

definition numeric_matches :: "bytes \<Rightarrow> string \<Rightarrow> double \<Rightarrow> (bytes \<times> bytes) list \<Rightarrow> u64 list" where
  "numeric_matches pre op num es =
     concat (map (\<lambda>e. unpack_ids (snd e))
       (filter (\<lambda>e. prefix (numeric_prefix pre) (fst e)
          \<and> compare_numbers op (decode_sortable_double (numeric_rest pre (fst e))) num) es))"

text \<open>A number that the index orders as the comparison does: no NaN and no negative zero.\<close>

definition ordinary :: "double \<Rightarrow> bool" where
  "ordinary w \<longleftrightarrow> \<not> is_nan w \<and> (double_value w = 0 \<longrightarrow> \<not> sign_bit w)"

definition numeric_keys_ok :: "bytes \<Rightarrow> (bytes \<times> bytes) list \<Rightarrow> bool" where
  "numeric_keys_ok pre es \<longleftrightarrow>
     (\<forall>e\<in>set es. prefix (numeric_prefix pre) (fst e) \<longrightarrow>
        length (numeric_rest pre (fst e)) = 8 \<and> ordinary (decode_sortable_double (numeric_rest pre (fst e))))"

lemma encode_decode: "length r = 8 \<Longrightarrow> encode_sortable_double (decode_sortable_double r) = r"
proof -
  assume r: "length r = 8"
  define b where "b = (bswap64 (of_nat (le_value (take 8 r))) :: u64)"
  have "b = from_key_ptr r" by (simp add: b_def from_key_ptr_def)
  then have key: "to_key b = r" using to_from_key[of r] r by simp
  have "encode_sortable_bits (decode_sortable_double r) = b"
  proof -
    define m where "m = (push_bit 63 1 :: u64)"
    have flip: "bit (v XOR m) 63 = (\<not> bit v 63)" for v
      by (simp add: m_def bit_simps)
    have not: "bit (NOT v) 63 = (\<not> bit v 63)" for v :: u64
      by (simp add: bit_simps)
    show ?thesis
      unfolding encode_sortable_bits_def decode_sortable_double_def Let_def top_bit_test
        b_def[symmetric] unfolding m_def[symmetric]
      by (cases "bit b 63") (simp_all add: flip not xor.assoc)
  qed
  then show ?thesis by (simp add: encode_double_key key)
qed

lemma encode_order:
  assumes "ordinary a" "ordinary b"
  shows "encode_sortable_double a < encode_sortable_double b \<longleftrightarrow> double_less a b"
    and "encode_sortable_double a \<le> encode_sortable_double b \<longleftrightarrow> double_le a b"
proof -
  have zero: "double_value x = double_value y \<Longrightarrow> sign_bit x \<Longrightarrow> \<not> sign_bit y \<Longrightarrow> double_value x = 0" for x y
    using mag_value_nonneg[of "magnitude x"] mag_value_nonneg[of "magnitude y"]
      magnitude_bounds[of x] magnitude_bounds[of y] by (auto simp: double_value_def split: if_splits)
  show less: "encode_sortable_double a < encode_sortable_double b \<longleftrightarrow> double_less a b"
    using assms zero[of a b] by (auto simp: encode_less double_less_def ordinary_def)
  have "encode_sortable_double b < encode_sortable_double a \<longleftrightarrow> double_less b a"
    using assms zero[of b a] by (auto simp: encode_less double_less_def ordinary_def)
  then show "encode_sortable_double a \<le> encode_sortable_double b \<longleftrightarrow> double_le a b"
    using assms unfolding not_less[symmetric] by (auto simp: double_le_def double_less_def double_eq_def ordinary_def)
qed

text \<open>The entries that the two scans of a numeric range select.\<close>

definition range_entries :: "bytes \<Rightarrow> string \<Rightarrow> double \<Rightarrow> (bytes \<times> bytes) list \<Rightarrow> (bytes \<times> bytes) list" where
  "range_entries pre op num m = filter (\<lambda>e. prefix (numeric_prefix pre) (fst e)
     \<and> compare_numbers op (decode_sortable_double (numeric_rest pre (fst e))) num) m"

lemma numeric_key_decodes:
  assumes "numeric_keys_ok pre m" "e \<in> set m" "prefix (numeric_prefix pre) (fst e)"
  shows "numeric_rest pre (fst e) = encode_sortable_double (decode_sortable_double (numeric_rest pre (fst e)))"
    and "ordinary (decode_sortable_double (numeric_rest pre (fst e)))"
  using assms encode_decode by (auto simp: numeric_keys_ok_def)

lemma range_up:
  assumes "numeric_keys_ok pre m" "ordinary num" "op = ''>'' \<or> op = ''>=''"
  shows "filter (\<lambda>e. above_point (if op = ''>'' then Exclusive else Inclusive) (pre @ prop_type_numeric # encode_sortable_double num) (fst e)
      \<and> below_point Exclusive (pre @ [prop_type_string]) (fst e)) m = range_entries pre op num m"
  unfolding range_entries_def
proof (rule filter_cong[OF refl])
  fix e assume e: "e \<in> set m"
  show "(above_point (if op = ''>'' then Exclusive else Inclusive) (pre @ prop_type_numeric # encode_sortable_double num) (fst e)
        \<and> below_point Exclusive (pre @ [prop_type_string]) (fst e)) \<longleftrightarrow>
      prefix (numeric_prefix pre) (fst e) \<and> compare_numbers op (decode_sortable_double (numeric_rest pre (fst e))) num"
    using assms(3) upper_range[of pre "encode_sortable_double num" "fst e"] numeric_key_decodes[OF assms(1) e]
      encode_order[OF assms(2), of "decode_sortable_double (numeric_rest pre (fst e))"]
    by (auto simp: above_point_def below_point_def compare_numbers_def)
qed

lemma range_down:
  assumes "numeric_keys_ok pre m" "ordinary num" "op = ''<'' \<or> op = ''<=''"
  shows "filter (\<lambda>e. above_point Inclusive (numeric_prefix pre) (fst e)
      \<and> below_point (if op = ''<='' then Inclusive else Exclusive) (pre @ prop_type_numeric # encode_sortable_double num) (fst e)) m
    = range_entries pre op num m"
  unfolding range_entries_def
proof (rule filter_cong[OF refl])
  fix e assume e: "e \<in> set m"
  show "(above_point Inclusive (numeric_prefix pre) (fst e)
        \<and> below_point (if op = ''<='' then Inclusive else Exclusive) (pre @ prop_type_numeric # encode_sortable_double num) (fst e)) \<longleftrightarrow>
      prefix (numeric_prefix pre) (fst e) \<and> compare_numbers op (decode_sortable_double (numeric_rest pre (fst e))) num"
    using assms(3) lower_range[of pre "fst e" "encode_sortable_double num"] numeric_key_decodes[OF assms(1) e]
      encode_order[of "decode_sortable_double (numeric_rest pre (fst e))", OF _ assms(2)]
    by (auto simp: above_point_def below_point_def compare_numbers_def)
qed

context kvs_basic
begin

lemma range_lookup_law:
  assumes "valid s" "tx \<noteq> 0" "property_index_handle so \<noteq> []" "label \<noteq> []"
    and num: "stod cmp = Stod num" "ordinary num"
    and op: "op \<in> {''>'', ''>='', ''<'', ''<=''}"
    and keys: "numeric_keys_ok (index_prefix label key) (content s (property_index_handle so))"
  shows "\<exists>s'. find_nodes_by_property_range K tx so label key op cmp s =
    (Some (numeric_matches (index_prefix label key) op num (content s (property_index_handle so))), s')
    \<and> content s' = content s \<and> valid s'"
proof -
  let ?h = "property_index_handle so" let ?pre = "index_prefix label key"
  let ?point = "?pre @ prop_type_numeric # encode_sortable_double num" and ?sel = "range_entries ?pre op num (content s ?h)"
  have ordered: "?point \<le> ?pre @ [prop_type_string]" "numeric_prefix ?pre \<le> ?point"
    using types_ordered by (simp_all add: numeric_prefix_def append_le_same)
  have loop: "range_loop ?pre (readable ?sel) = numeric_matches ?pre op num (content s ?h)"
    unfolding numeric_matches_def range_entries_def
    by (rule range_loop_readable) (auto simp: numeric_prefix_def prefix_def)
  have kind: "(if op = ''>'' then Exclusive else Inclusive) \<in> {Inclusive, Exclusive}"
    and kind': "(if op = ''<='' then Inclusive else Exclusive) \<in> {Inclusive, Exclusive}" by simp_all
  have ne: "op \<noteq> ''<>''" using op by auto
  show ?thesis
  proof (cases "op = ''>'' \<or> op = ''>=''")
    case True
    then obtain s' where s': "content_scan K tx ?h ?point (if op = ''>'' then Exclusive else Inclusive)
        (?pre @ [prop_type_string]) Exclusive s = (Ok, readable ?sel, s')" "content s' = content s" "valid s'"
      using range_law[OF assms(1) ordered(1) kind, of Exclusive tx ?h] range_up[OF keys num(2)] by auto
    then show ?thesis
      using True ne assms(2-4) loop by (simp add: find_nodes_by_property_range_def num(1) Let_def)
  next
    case False
    then obtain s' where s': "content_scan K tx ?h (numeric_prefix ?pre) Inclusive ?point
        (if op = ''<='' then Inclusive else Exclusive) s = (Ok, readable ?sel, s')" "content s' = content s" "valid s'"
      using range_law[OF assms(1) ordered(2) _ kind', of Inclusive tx ?h] range_down[OF keys num(2)] op by auto
    then show ?thesis
      using False ne assms(2-4) loop
      by (simp add: find_nodes_by_property_range_def num(1) Let_def numeric_prefix_def)
  qed
qed

end

text \<open>A small index used as an example.\<close>

definition indexed_mock :: mock_state where
  "indexed_mock = empty_mock\<lparr>mock_db_state :=
     (\<lambda>h. [(''Person'' @ [nul] @ ''name'' @ [nul, prop_type_string] @ ''Bob'', to_key 7 @ to_key 8)])\<rparr>"

lemma sample_key: "build_prop_index_key ''Person'' ''name'' ''Bob'' = ''Person'' @ [nul] @ ''name'' @ [nul, prop_type_string] @ ''Bob''"
  by (simp add: build_prop_index_key_def index_prefix_def stod_samples)

lemma sample_index: "index_ids (mock_db_state empty_mock ''p'') k = []" "packed_index (mock_db_state empty_mock ''p'')"
  by (simp_all add: index_ids_def packed_index_def empty_mock_def)

lemma sample_count:
  "key_count ''Person'' (parse_json_properties ''{\"name\":\"Bob\"}'') (build_prop_index_key ''Person'' ''name'' ''Bob'') = 1"
proof -
  have "parse_json_properties ''{\"name\":\"Bob\"}'' = [(''name'', ''Bob'')]" by code_simp
  then show ?thesis by (simp add: key_count_def)
qed

lemma indexed_mock_valid: "mock_valid indexed_mock"
  by (simp add: indexed_mock_def mock_valid_def sorted_map_def)

lemma indexed_mock_ids:
  "index_ids (mock_db_state indexed_mock h) (build_prop_index_key ''Person'' ''name'' ''Bob'') = [7, 8]"
  "packed_index (mock_db_state indexed_mock h)"
  using unpack_to_key[of 7 "to_key 8"] unpack_to_key[of 8 "[]"]
  by (simp_all add: indexed_mock_def sample_key index_ids_def packed_index_def)

lemma sample_numbers:
  assumes "m = [(build_prop_index_key ''P'' ''age'' ''12 Oak'', to_key 4), (build_prop_index_key ''P'' ''age'' ''30'', to_key 7 @ to_key 8)]"
  shows "sorted_map m" "ordinary 0x403e000000000000" "numeric_keys_ok (index_prefix ''P'' ''age'') m"
    "numeric_matches (index_prefix ''P'' ''age'') ''>='' 0x403e000000000000 m = [7, 8]"
proof -
  have plain: "\<not> is_nan 0x4028000000000000" "\<not> is_nan 0x403e000000000000"
    "\<not> sign_bit 0x4028000000000000" "\<not> sign_bit 0x403e000000000000"
    "double_less 0x4028000000000000 0x403e000000000000" by code_simp+
  then show ord: "ordinary 0x403e000000000000" by (simp add: ordinary_def)
  have ord': "ordinary 0x4028000000000000" using plain by (simp add: ordinary_def)
  have len: "length (encode_sortable_double w) = 8" for w by (simp add: encode_double_key)
  have rest: "numeric_rest pre (numeric_prefix pre @ r) = r" for pre r by (simp add: numeric_rest_def numeric_prefix_def)
  have dec: "decode_sortable_double (encode_sortable_double w) = w" for w
    using decode_encode_double[of w "[]"] by simp
  have keys: "m = [(numeric_prefix (index_prefix ''P'' ''age'') @ encode_sortable_double 0x4028000000000000, to_key 4),
      (numeric_prefix (index_prefix ''P'' ''age'') @ encode_sortable_double 0x403e000000000000, to_key 7 @ to_key 8)]"
    by (simp only: assms build_prop_index_key_def stod_samples numeric_prefix_def) simp
  have "encode_sortable_double 0x4028000000000000 < encode_sortable_double 0x403e000000000000"
    using plain by (simp only: encode_less double_less_def) simp
  then show "sorted_map m"
    unfolding keys by (simp only: sorted_map_Cons list.set fst_conv) (simp add: append_less_same sorted_map_def)
  show "numeric_keys_ok (index_prefix ''P'' ''age'') m"
    unfolding keys numeric_keys_ok_def by (simp add: rest dec len ord ord')
  have "compare_numbers ''>='' 0x4028000000000000 0x403e000000000000 = False"
    "compare_numbers ''>='' 0x403e000000000000 0x403e000000000000 = True" 
    using plain by (auto simp: compare_numbers_def double_le_def double_less_def double_eq_def)
  then show "numeric_matches (index_prefix ''P'' ''age'') ''>='' 0x403e000000000000 m = [7, 8]"
    unfolding keys numeric_matches_def using unpack_to_key[of 7 "to_key 8"] unpack_to_key[of 8 "[]"]
    by (simp add: rest dec)
qed

section \<open>Properties\<close>

definition value_class :: "string \<Rightarrow> double + string" where
  "value_class val =
     (if val = [] then Inr val else case stod val of Stod num \<Rightarrow> Inl num | _ \<Rightarrow> Inr val)"

lemma split_at_nul:
  assumes "nul \<notin> set a" "nul \<notin> set a'"
  shows "a @ [nul] @ b = a' @ [nul] @ b' \<longleftrightarrow> a = a' \<and> b = b'"
proof
  assume eq: "a @ [nul] @ b = a' @ [nul] @ b'"
  then have "upto_char nul (a @ nul # b) = upto_char nul (a' @ nul # b')" by simp
  then have "a = a'" using assms by (simp add: upto_char_append)
  then show "a = a' \<and> b = b'" using eq by simp
qed simp

lemma build_key_class:
  "build_prop_index_key label key val = label @ [nul] @ key @ [nul] @
     (case value_class val of Inl num \<Rightarrow> prop_type_numeric # encode_sortable_double num | Inr v \<Rightarrow> prop_type_string # v)"
  by (auto simp: build_prop_index_key_def index_prefix_def value_class_def split: stod_result.split)

lemma index_key_eq:
  assumes "nul \<notin> set label" "nul \<notin> set label'" "nul \<notin> set key" "nul \<notin> set key'"
  shows "build_prop_index_key label key val = build_prop_index_key label' key' val' \<longleftrightarrow>
    label = label' \<and> key = key' \<and> value_class val = value_class val'"
proof -
  have types: "prop_type_numeric \<noteq> prop_type_string" "prop_type_string \<noteq> prop_type_numeric"
    using types_ordered by auto
  have enc: "encode_sortable_double a = encode_sortable_double b \<longleftrightarrow> a = b" for a b
    by (metis decode_encode_double)
  show ?thesis
    unfolding build_key_class split_at_nul[OF assms(1,2)] split_at_nul[OF assms(3,4)]
    by (cases "value_class val"; cases "value_class val'") (simp_all add: types enc)
qed

text \<open>C32: for labels and property names without a NUL two index keys are the same exactly when
  label, name and value are, where a value counts as the number \<open>std::stod\<close> reads from it if
  it reads one, and as its text otherwise.\<close>

theorem index_key_injective:
  assumes "nul \<notin> set label" "nul \<notin> set label'" "nul \<notin> set key" "nul \<notin> set key'"
  shows "build_prop_index_key label key val = build_prop_index_key label' key' val' \<longleftrightarrow>
    label = label' \<and> key = key' \<and> value_class val = value_class val'"
  using assms by (rule index_key_eq)

lemma index_key_injective_witness:
  "build_prop_index_key ''Person'' ''age'' ''12 Main'' = build_prop_index_key ''Person'' ''age'' ''12 Oak''
   \<and> build_prop_index_key ''Person'' ''age'' ''30'' \<noteq> build_prop_index_key ''Person'' ''size'' ''30''"
proof -
  have no_nul: "nul \<notin> set ''Person''" "nul \<notin> set ''age''" "nul \<notin> set ''size''" by simp_all
  have "value_class ''12 Main'' = value_class ''12 Oak''" by (simp add: value_class_def stod_samples)
  then show ?thesis
    using index_key_injective[OF no_nul(1,1,2,2), of "''12 Main''" "''12 Oak''"]
      index_key_injective[OF no_nul(1,1,2,3), of "''30''" "''30''"] by simp
qed

text \<open>C31: indexing a node adds its id, once per property with that key, at the end of what a lookup
  returns, and changes no other lookup; on every store that keeps the documented laws.\<close>

theorem property_lookup_after_index:
  assumes "kvs_strict K content valid" "valid s" "packed_index (content s (property_index_handle so))"
    and "tx \<noteq> 0" "property_index_handle so \<noteq> []" "label \<noteq> []"
    and "index_node_properties K tx so i label props s = (r, s')"
  shows "r \<and> (\<exists>s''. find_nodes_by_property K tx so label' key val s' =
    (Some (index_ids (content s (property_index_handle so)) (build_prop_index_key label' key val)
       @ replicate (key_count label (parse_json_properties props) (build_prop_index_key label' key val)) i), s''))"
proof -
  have basic: "kvs_basic K content valid" using assms(1) by (simp add: kvs_strict_def)
  let ?h = "property_index_handle so"
  note L = kvs_strict.add_entries_law[OF assms(1-3), where tx = tx and label = label and i = i
      and props = "parse_json_properties props" and k = "build_prop_index_key label' key val"]
  have r: "r" and s': "s' = fold (\<lambda>(key, val). add_index_entry K tx ?h (build_prop_index_key label key val) i)
      (parse_json_properties props) s"
    using assms(4-7) by (auto simp: index_node_properties_def)
  have "valid s'" using L by (simp only: s')
  from kvs_basic.find_law[OF basic this assms(4,5), of label' key val] show ?thesis
    using L r unfolding s' by auto
qed

lemma property_lookup_after_index_witness:
  "\<exists>s''. find_nodes_by_property ref_kvs 1 (new_storage\<lparr>property_index_handle := ''p''\<rparr>) ''Person'' ''name'' ''Bob''
      (snd (index_node_properties ref_kvs 1 (new_storage\<lparr>property_index_handle := ''p''\<rparr>) 7 ''Person''
        ''{\"name\":\"Bob\"}'' empty_mock)) = (Some [7], s'')"
proof -
  let ?so = "new_storage\<lparr>property_index_handle := ''p''\<rparr>"
  obtain r s' where run: "index_node_properties ref_kvs 1 ?so 7 ''Person'' ''{\"name\":\"Bob\"}'' empty_mock = (r, s')"
    by (cases "index_node_properties ref_kvs 1 ?so 7 ''Person'' ''{\"name\":\"Bob\"}'' empty_mock")
  show ?thesis
    using property_lookup_after_index[OF ref.kvs_strict_axioms empty_mock_valid, of ?so 1 "''Person''" 7
        "''{\"name\":\"Bob\"}''" r s' "''Person''" "''name''" "''Bob''"] run sample_index sample_count
    by simp
qed

text \<open>C39: removing a node's properties from the index removes its id from the lookups with their keys,
  and changes no other lookup, when the values of the index are packed ids.\<close>

theorem property_lookup_after_remove:
  assumes "kvs_basic K content valid" "valid s" "packed_index (content s (property_index_handle so))"
    and "tx \<noteq> 0" "property_index_handle so \<noteq> []" "label \<noteq> []"
    and "remove_property_index K tx so i label props s = (r, s')"
  shows "r \<and> (\<exists>ids s''. find_nodes_by_property K tx so label' key val s' = (Some ids, s'')
    \<and> ids = (if key_count label (parse_json_properties props) (build_prop_index_key label' key val) = 0
        then index_ids (content s (property_index_handle so)) (build_prop_index_key label' key val)
        else filter (\<lambda>j. j \<noteq> i) (index_ids (content s (property_index_handle so)) (build_prop_index_key label' key val))))"
proof -
  let ?h = "property_index_handle so"
  note L = kvs_basic.remove_entries_law[OF assms(1-3), where tx = tx and label = label and i = i
      and props = "parse_json_properties props" and k = "build_prop_index_key label' key val"]
  have r: "r" and s': "s' = fold (\<lambda>(key, val). remove_index_entry K tx ?h (build_prop_index_key label key val) i)
      (parse_json_properties props) s"
    using assms(4-7) by (auto simp: remove_property_index_def)
  have "valid s'" using L by (simp only: s')
  from kvs_basic.find_law[OF assms(1) this assms(4,5), of label' key val] show ?thesis
    using L r unfolding s' by auto
qed

lemma property_lookup_after_remove_witness:
  "\<exists>s''. find_nodes_by_property ref_kvs 1 (new_storage\<lparr>property_index_handle := ''p''\<rparr>) ''Person'' ''name'' ''Bob''
      (snd (remove_property_index ref_kvs 1 (new_storage\<lparr>property_index_handle := ''p''\<rparr>) 7 ''Person''
        ''{\"name\":\"Bob\"}'' indexed_mock)) = (Some [8], s'')"
proof -
  let ?so = "new_storage\<lparr>property_index_handle := ''p''\<rparr>"
  obtain r s' where run: "remove_property_index ref_kvs 1 ?so 7 ''Person'' ''{\"name\":\"Bob\"}'' indexed_mock = (r, s')"
    by (cases "remove_property_index ref_kvs 1 ?so 7 ''Person'' ''{\"name\":\"Bob\"}'' indexed_mock")
  show ?thesis
    using property_lookup_after_remove[OF ref.kvs_basic_axioms indexed_mock_valid, of ?so 1 "''Person''" 7
        "''{\"name\":\"Bob\"}''" r s' "''Person''" "''name''" "''Bob''"] run indexed_mock_ids sample_count
    by simp
qed

text \<open>C30: the range lookup, which scans a range of encoded keys and compares nothing, returns exactly
  the ids of the property's numeric entries whose decoded number satisfies the comparison, in
  key order, when the numbers involved are neither NaN nor negative zero.\<close>

theorem range_lookup_is_filter:
  assumes "kvs_basic K content valid" "valid s" "tx \<noteq> 0" "property_index_handle so \<noteq> []" "label \<noteq> []"
    and "stod cmp = Stod num" "ordinary num" "op \<in> {''>'', ''>='', ''<'', ''<=''}"
    and "numeric_keys_ok (index_prefix label key) (content s (property_index_handle so))"
  shows "\<exists>s'. find_nodes_by_property_range K tx so label key op cmp s =
    (Some (numeric_matches (index_prefix label key) op num (content s (property_index_handle so))), s')"
  using kvs_basic.range_lookup_law[OF assms] by blast

lemma range_lookup_is_filter_witness:
  "\<exists>s'. find_nodes_by_property_range ref_kvs 1 (new_storage\<lparr>property_index_handle := ''p''\<rparr>) ''P'' ''age'' ''>='' ''30''
      (empty_mock\<lparr>mock_db_state := (\<lambda>h. [(build_prop_index_key ''P'' ''age'' ''12 Oak'', to_key 4),
         (build_prop_index_key ''P'' ''age'' ''30'', to_key 7 @ to_key 8)])\<rparr>) = (Some [7, 8], s')"
proof -
  let ?so = "new_storage\<lparr>property_index_handle := ''p''\<rparr>"
  let ?m = "[(build_prop_index_key ''P'' ''age'' ''12 Oak'', to_key 4), (build_prop_index_key ''P'' ''age'' ''30'', to_key 7 @ to_key 8)]"
  let ?s = "empty_mock\<lparr>mock_db_state := (\<lambda>h. ?m)\<rparr>"
  show ?thesis
    using range_lookup_is_filter[OF ref.kvs_basic_axioms, of ?s 1 ?so "''P''" "''30''" _ "''>=''" "''age''",
        OF _ _ _ _ stod_samples(1)] sample_numbers[OF refl]
    by (simp add: mock_valid_def)
qed

text \<open>Texts that are not numbers share index keys when \<open>std::stod\<close> reads one number from them, so
  an equality lookup for one name returns the nodes that have the other.\<close>

theorem property_index_collisions:
  "build_prop_index_key ''Person'' ''name'' ''Nancy'' = build_prop_index_key ''Person'' ''name'' ''Nanette''
   \<and> build_prop_index_key ''Person'' ''street'' ''12 Main'' = build_prop_index_key ''Person'' ''street'' ''12 Oak''"
  by (simp add: build_prop_index_key_def stod_samples)

end
