(* ===== verification/Storage.thy ===== *)
theory Storage
  imports Prop_Index
begin

text \<open>
  The operations of class \<open>storage\<close> (\<open>storage.cpp\<close>) on nodes, edges and their indexes.  An
  operation takes the store's interface, the transaction, the object and the store's state, and
  returns the object where it changes it.  An out parameter and \<open>return true\<close> are \<open>Some\<close>,
  \<open>return false\<close> is \<open>None\<close>.  Deleting is writing an empty value: the store's interface as the
  program uses it has no removal.
\<close>

section \<open>Opening\<close>

definition storage_name_nodes :: string where "storage_name_nodes = ''graph_nodes''"
definition storage_name_edges :: string where "storage_name_edges = ''graph_edges''"
definition storage_name_out_index :: string where "storage_name_out_index = ''graph_out_index''"
definition storage_name_in_index :: string where "storage_name_in_index = ''graph_in_index''"
definition storage_name_label_index :: string where "storage_name_label_index = ''graph_label_index''"
definition storage_name_property_index :: string where "storage_name_property_index = ''graph_prop_index''"

text \<open>One storage: create it, or open it when it exists.  The handle is written either way.\<close>

definition init_storage :: "'s kvs \<Rightarrow> db_handle \<Rightarrow> string \<Rightarrow> 's \<Rightarrow> bool \<times> handle \<times> 's" where
  "init_storage K db name s =
     (let (rc, h, s1) = storage_create K db name s;
          (rc2, h2, s2) = (if rc = Already_exists then storage_get K db name s1 else (rc, h, s1))
      in (rc2 = Ok, h2, s2))"

text \<open>The \<open>||\<close> of \<open>init\<close>: the storages after a failed one are not opened.\<close>

fun init_storages ::
  "'s kvs \<Rightarrow> db_handle \<Rightarrow> (string \<times> (handle \<Rightarrow> storage \<Rightarrow> storage)) list \<Rightarrow> storage \<Rightarrow> 's \<Rightarrow> bool \<times> storage \<times> 's" where
  "init_storages K db [] so s = (True, so, s)"
| "init_storages K db ((name, assign) # rest) so s =
     (let (ok, h, s1) = init_storage K db name s; so1 = assign h so
      in if ok then init_storages K db rest so1 s1 else (False, so1, s1))"

definition init_sequence :: "'s kvs \<Rightarrow> db_handle \<Rightarrow> storage \<Rightarrow> 's \<Rightarrow> storage \<times> 's" where
  "init_sequence K db so s =
     (let (rc, i, s1) = sequence_create K db s;
          so1 = so\<lparr>sequence_id := i\<rparr>;
          (rg, ver, val, s2) = sequence_get K db i s1
      in if rg = Ok then (so1\<lparr>sequence_version := ver, next_id := of_int val + 1\<rparr>, s2)
         else (so1\<lparr>sequence_version := 0, next_id := 1\<rparr>, s2))"

definition init :: "'s kvs \<Rightarrow> db_handle \<Rightarrow> storage \<Rightarrow> 's \<Rightarrow> bool \<times> storage \<times> 's" where
  "init K db so s =
     (if db = 0 then (False, so, s)
      else
        let (ok, so1, s1) = init_storages K db
              [(storage_name_nodes, \<lambda>h. nodes_handle_update (\<lambda>_. h)),
               (storage_name_edges, \<lambda>h. edges_handle_update (\<lambda>_. h)),
               (storage_name_out_index, \<lambda>h. out_index_handle_update (\<lambda>_. h)),
               (storage_name_in_index, \<lambda>h. in_index_handle_update (\<lambda>_. h)),
               (storage_name_label_index, \<lambda>h. label_index_handle_update (\<lambda>_. h)),
               (storage_name_property_index, \<lambda>h. property_index_handle_update (\<lambda>_. h))] so s
        in if ok then let (so2, s2) = init_sequence K db so1 s1 in (True, so2, s2)
           else (False, so1, s1))"

section \<open>Ids\<close>

definition sequence_batch_size :: u64 where
  "sequence_batch_size = 64"

definition allocate_id :: "'s kvs \<Rightarrow> tx_handle \<Rightarrow> storage \<Rightarrow> 's \<Rightarrow> u64 \<times> storage \<times> 's" where
  "allocate_id K tx so s =
     (let i = next_id so; so1 = so\<lparr>next_id := i + 1\<rparr> in
      if sequence_batch_remaining so1 = 0 then
        let ver = sequence_version so1 + 1;
            (rc, s1) = sequence_put K tx (sequence_id so1) ver (sint (next_id so1 + sequence_batch_size - 2)) s
        in (i, so1\<lparr>sequence_version := ver, sequence_batch_remaining := sequence_batch_size - 1\<rparr>, s1)
      else (i, so1\<lparr>sequence_batch_remaining := sequence_batch_remaining so1 - 1\<rparr>, s))"

section \<open>Nodes\<close>

definition create_node ::
  "'s kvs \<Rightarrow> tx_handle \<Rightarrow> storage \<Rightarrow> string \<Rightarrow> string \<Rightarrow> 's \<Rightarrow> u64 option \<times> storage \<times> 's" where
  "create_node K tx so label properties s =
     (if tx = 0 \<or> nodes_handle so = [] then (None, so, s)
      else
        let (i, so1, s1) = allocate_id K tx so s;
            (rc, s2) = content_put K tx (nodes_handle so1) (write_key i) properties Create s1
        in if rc \<noteq> Ok then (None, so1, s2)
           else if label = [] then (Some i, so1, s2)
           else
             let (rl, s3) = content_put K tx (label_index_handle so1) (label @ write_key i) [] Create s2;
                 s4 = (if properties \<noteq> [] \<and> properties \<noteq> ''{}''
                       then snd (index_node_properties K tx so1 i label properties s3) else s3)
             in (Some i, so1, s4))"

definition get_node :: "'s kvs \<Rightarrow> tx_handle \<Rightarrow> storage \<Rightarrow> u64 \<Rightarrow> 's \<Rightarrow> string option \<times> 's" where
  "get_node K tx so node_id s =
     (if tx = 0 \<or> nodes_handle so = [] then (None, s)
      else
        let (rc, val, s1) = content_get K tx (nodes_handle so) (write_key node_id) s
        in if rc \<noteq> Ok then (None, s1) else (Some val, s1))"

definition update_node :: "'s kvs \<Rightarrow> tx_handle \<Rightarrow> storage \<Rightarrow> u64 \<Rightarrow> string \<Rightarrow> 's \<Rightarrow> bool \<times> 's" where
  "update_node K tx so node_id properties s =
     (if tx = 0 \<or> nodes_handle so = [] then (False, s)
      else
        let (rc, s1) = content_put K tx (nodes_handle so) (write_key node_id) properties Create_or_update s
        in (rc = Ok, s1))"

text \<open>
  The maps of \<open>update_node_with_label\<close> are unordered: the first of several entries of a key is
  kept, and \<open>ord\<close>, a parameter, is the order in which the library iterates over the entries.
\<close>

definition changed_entries :: "(string \<times> string) list \<Rightarrow> (string \<times> string) list \<Rightarrow> (string \<times> string) list" where
  \<comment> \<open>the entries of the first map that the second does not have\<close>
  "changed_entries m n = filter (\<lambda>(key, val). map_of n key \<noteq> Some val) m"

type_synonym hash_order = "(string \<times> string) list \<Rightarrow> (string \<times> string) list"

definition update_node_index ::
  "'s kvs \<Rightarrow> hash_order \<Rightarrow> tx_handle \<Rightarrow> storage \<Rightarrow> u64 \<Rightarrow> string \<Rightarrow> string \<Rightarrow> string \<Rightarrow> 's \<Rightarrow> 's" where
  "update_node_index K ord tx so node_id label old_props new_props s =
     (let old_map = ord (AList.clearjunk (parse_json_properties old_props));
          new_map = ord (AList.clearjunk (parse_json_properties new_props));
          s1 = fold (\<lambda>(key, old_val).
                 remove_index_entry K tx (property_index_handle so) (build_prop_index_key label key old_val) node_id)
               (changed_entries old_map new_map) s
      in fold (\<lambda>(key, new_val).
           add_index_entry K tx (property_index_handle so) (build_prop_index_key label key new_val) node_id)
         (changed_entries new_map old_map) s1)"

definition update_node_with_label ::
  "'s kvs \<Rightarrow> hash_order \<Rightarrow> tx_handle \<Rightarrow> storage \<Rightarrow> u64 \<Rightarrow> string \<Rightarrow> string \<Rightarrow> 's \<Rightarrow> bool \<times> 's" where
  "update_node_with_label K ord tx so node_id label new_properties s =
     (if tx = 0 \<or> nodes_handle so = [] then (False, s)
      else
        let s1 = (if label = [] then s
                  else
                    let (old, sg) = get_node K tx so node_id s in
                    case old of
                      Some old_props \<Rightarrow>
                        if old_props \<noteq> [] \<and> old_props \<noteq> ''{}''
                        then update_node_index K ord tx so node_id label old_props new_properties sg
                        else if new_properties \<noteq> [] \<and> new_properties \<noteq> ''{}''
                        then snd (index_node_properties K tx so node_id label new_properties sg) else sg
                    | None \<Rightarrow>
                        if new_properties \<noteq> [] \<and> new_properties \<noteq> ''{}''
                        then snd (index_node_properties K tx so node_id label new_properties sg) else sg);
            (rc, s2) = content_put K tx (nodes_handle so) (write_key node_id) new_properties Create_or_update s1
        in (rc = Ok, s2))"

definition delete_node :: "'s kvs \<Rightarrow> tx_handle \<Rightarrow> storage \<Rightarrow> u64 \<Rightarrow> string \<Rightarrow> 's \<Rightarrow> bool \<times> 's" where
  "delete_node K tx so node_id label s =
     (if tx = 0 \<or> nodes_handle so = [] then (False, s)
      else
        let s1 = (if label = [] then s
                  else snd (content_put K tx (label_index_handle so) (label @ write_key node_id) [] Create_or_update s));
            (rc, s2) = content_put K tx (nodes_handle so) (write_key node_id) [] Create_or_update s1
        in (rc = Ok, s2))"

fun nodes_batch_loop ::
  "'s kvs \<Rightarrow> tx_handle \<Rightarrow> storage \<Rightarrow> u64 list \<Rightarrow> 's \<Rightarrow> (u64 \<times> string) list \<times> 's" where
  "nodes_batch_loop K tx so [] s = ([], s)"
| "nodes_batch_loop K tx so (i # is) s =
     (let (rc, val, s1) = content_get K tx (nodes_handle so) (write_key i) s;
          (rest, s2) = nodes_batch_loop K tx so is s1
      in (if rc = Ok then (i, val) # rest else rest, s2))"

definition get_nodes_batch ::
  "'s kvs \<Rightarrow> tx_handle \<Rightarrow> storage \<Rightarrow> u64 list \<Rightarrow> 's \<Rightarrow> (u64 \<times> string) list option \<times> 's" where
  "get_nodes_batch K tx so node_ids s =
     (if tx = 0 \<or> nodes_handle so = [] then (None, s)
      else let (out, s1) = nodes_batch_loop K tx so node_ids s in (Some out, s1))"

section \<open>Edges\<close>

definition create_edge ::
  "'s kvs \<Rightarrow> tx_handle \<Rightarrow> storage \<Rightarrow> u64 \<Rightarrow> u64 \<Rightarrow> string \<Rightarrow> string \<Rightarrow> 's \<Rightarrow> u64 option \<times> storage \<times> 's" where
  "create_edge K tx so from to label properties s =
     (if tx = 0 \<or> edges_handle so = [] then (None, so, s)
      else
        let (i, so1, s1) = allocate_id K tx so s;
            (rc, s2) = content_put K tx (edges_handle so1) (write_key i) (encode_edge from to label properties) Create s1
        in if rc \<noteq> Ok then (None, so1, s2)
           else
             let (ro, s3) = content_put K tx (out_index_handle so1) (write_key from @ write_key i) (write_key to) Create s2;
                 (ri, s4) = content_put K tx (in_index_handle so1) (write_key to @ write_key i) (write_key from) Create s3
             in (Some i, so1, s4))"

text \<open>\<open>Out_of_bounds\<close> is the read behind the buffer of an edge value, undefined behaviour.\<close>

definition get_edge :: "'s kvs \<Rightarrow> tx_handle \<Rightarrow> storage \<Rightarrow> u64 \<Rightarrow> 's \<Rightarrow> edge_data decoded \<times> 's" where
  "get_edge K tx so edge_id s =
     (if tx = 0 \<or> edges_handle so = [] then (Rejected, s)
      else
        let (rc, val, s1) = content_get K tx (edges_handle so) (write_key edge_id) s
        in if rc \<noteq> Ok then (Rejected, s1) else (decode_edge val, s1))"

definition delete_edge :: "'s kvs \<Rightarrow> tx_handle \<Rightarrow> storage \<Rightarrow> u64 \<Rightarrow> 's \<Rightarrow> bool decoded \<times> 's" where
  "delete_edge K tx so edge_id s =
     (if tx = 0 \<or> edges_handle so = [] then (Decoded False, s)
      else
        let (r, s1) = get_edge K tx so edge_id s in
        case r of
          Out_of_bounds \<Rightarrow> (Out_of_bounds, s1)
        | Rejected \<Rightarrow> (Decoded False, s1)
        | Decoded ed \<Rightarrow>
            let (ro, s2) = content_put K tx (out_index_handle so) (to_key (from_id ed) @ to_key edge_id) [] Create_or_update s1;
                (ri, s3) = content_put K tx (in_index_handle so) (to_key (to_id ed) @ to_key edge_id) [] Create_or_update s2;
                (rc, s4) = content_put K tx (edges_handle so) (to_key edge_id) [] Create_or_update s3
            in (Decoded (rc = Ok), s4))"

section \<open>Scans\<close>

fun edge_ids_loop :: "bytes \<Rightarrow> cursor \<Rightarrow> u64 list" where
  "edge_ids_loop pre [] = []"
| "edge_ids_loop pre ((Some key, v) # it) =
     (if length key < 16 then edge_ids_loop pre it
      else if take 8 key \<noteq> pre then []
      else from_key_ptr (drop 8 key) # edge_ids_loop pre it)"
| "edge_ids_loop pre ((None, v) # it) = []"

definition get_outgoing_edges :: "'s kvs \<Rightarrow> tx_handle \<Rightarrow> storage \<Rightarrow> u64 \<Rightarrow> 's \<Rightarrow> u64 list option \<times> 's" where
  "get_outgoing_edges K tx so node_id s =
     (if tx = 0 \<or> out_index_handle so = [] then (None, s)
      else
        let (rc, it, s1) = prefix_scan K tx (out_index_handle so) (write_key node_id) s
        in if rc \<noteq> Ok then (None, s1) else (Some (edge_ids_loop (write_key node_id) it), s1))"

definition get_incoming_edges :: "'s kvs \<Rightarrow> tx_handle \<Rightarrow> storage \<Rightarrow> u64 \<Rightarrow> 's \<Rightarrow> u64 list option \<times> 's" where
  "get_incoming_edges K tx so node_id s =
     (if tx = 0 \<or> in_index_handle so = [] then (None, s)
      else
        let (rc, it, s1) = prefix_scan K tx (in_index_handle so) (write_key node_id) s
        in if rc \<noteq> Ok then (None, s1) else (Some (edge_ids_loop (write_key node_id) it), s1))"

fun label_loop :: "string \<Rightarrow> cursor \<Rightarrow> u64 list" where
  "label_loop label [] = []"
| "label_loop label ((Some key, v) # it) =
     (if length key < length label + 8 then label_loop label it
      else if take (length label) key \<noteq> label then []
      else from_key_ptr (drop (length label) key) # label_loop label it)"
| "label_loop label ((None, v) # it) = []"

definition find_nodes_by_label :: "'s kvs \<Rightarrow> tx_handle \<Rightarrow> storage \<Rightarrow> string \<Rightarrow> 's \<Rightarrow> u64 list option \<times> 's" where
  "find_nodes_by_label K tx so label s =
     (if tx = 0 \<or> label_index_handle so = [] then (None, s)
      else if label = [] then (None, s)
      else
        let (rc, it, s1) = prefix_scan K tx (label_index_handle so) label s
        in if rc \<noteq> Ok then (None, s1) else (Some (label_loop label it), s1))"

text \<open>The streaming scan; \<open>None\<close> is the null iterator.\<close>

record label_iterator =
  iter_tx :: tx_handle
  iter_nodes :: handle
  iter_it :: "cursor option"
  iter_label :: string
  current_id :: u64
  iter_valid :: bool

definition find_nodes_by_label_iter ::
  "'s kvs \<Rightarrow> tx_handle \<Rightarrow> storage \<Rightarrow> string \<Rightarrow> 's \<Rightarrow> label_iterator \<times> 's" where
  "find_nodes_by_label_iter K tx so label s =
     (let (rc, it, s1) = prefix_scan K tx (label_index_handle so) label s
      in (\<lparr>iter_tx = tx, iter_nodes = nodes_handle so, iter_it = (if rc = Ok then Some it else None),
            iter_label = label, current_id = 0, iter_valid = False\<rparr>, s1))"

definition iter_stop :: "cursor \<Rightarrow> label_iterator \<Rightarrow> bool \<times> label_iterator" where
  "iter_stop it li = (False, li\<lparr>iter_it := Some it, iter_valid := False\<rparr>)"

definition label_next :: "label_iterator \<Rightarrow> bool \<times> label_iterator" where
  "label_next li =
     (case iter_it li of
        None \<Rightarrow> (False, li)
      | Some [] \<Rightarrow> iter_stop [] li
      | Some ((k, v) # it) \<Rightarrow>
          (case k of
             None \<Rightarrow> iter_stop it li
           | Some key \<Rightarrow>
               if length key < length (iter_label li) + 8 then iter_stop it li
               else if take (length (iter_label li)) key \<noteq> iter_label li then iter_stop it li
               else (True, li\<lparr>iter_it := Some it,
                       current_id := from_key_ptr (drop (length (iter_label li)) key), iter_valid := True\<rparr>)))"

text \<open>The loop \<open>while (iter.next())\<close>: a step that succeeds uses up an entry.\<close>

lemma label_next_shorter:
  "label_next li = (True, li') \<Longrightarrow> length (the (iter_it li')) < length (the (iter_it li))"
  by (auto simp: label_next_def iter_stop_def split: option.splits list.splits if_splits)

function label_drain :: "label_iterator \<Rightarrow> u64 list" where
  "label_drain li =
     (let (ok, li1) = label_next li in if ok then current_id li1 # label_drain li1 else [])"
  by pat_completeness auto
termination label_drain
  by (relation "measure (\<lambda>li. length (the (iter_it li)))") (auto dest: label_next_shorter[OF sym])

declare label_drain.simps [simp del]

definition iter_get_properties :: "'s kvs \<Rightarrow> label_iterator \<Rightarrow> 's \<Rightarrow> string option \<times> 's" where
  "iter_get_properties K li s =
     (if \<not> iter_valid li then (None, s)
      else
        let (rc, val, s1) = content_get K (iter_tx li) (iter_nodes li) (write_key (current_id li)) s
        in if rc \<noteq> Ok then (None, s1) else (Some val, s1))"

end
