(* ===== verification/Graph_Store.thy ===== *)
theory Graph_Store
  imports Storage
begin

text \<open>
  What the storage object promises: the store holds a property graph.  \<open>nodes_of\<close> and
  \<open>edges_of\<close> read the graph off the contents of the storages, \<open>graph_inv\<close> is the invariant that
  ties the ids, the edge values and the three indexes together, and every operation refines an
  update of the two functions and keeps the invariant, on every store that has the basic laws
  of the interface.
\<close>

section \<open>The graph of a store\<close>

definition map_keys :: "(bytes \<times> bytes) list \<Rightarrow> bytes set" where
  "map_keys m = fst ` set m"

lemma map_keys_put [simp]: "map_keys (map_put k v m) = insert k (map_keys m)"
  by (simp add: map_keys_def keys_map_put)

lemma map_keys_Some: "map_of m k = Some v \<Longrightarrow> k \<in> map_keys m"
  by (force simp: map_keys_def dest: map_of_SomeD)

lemma map_keys_None: "k \<notin> map_keys m \<longleftrightarrow> map_of m k = None"
  by (simp add: map_keys_def map_of_eq_None_iff)

definition decoded_edge :: "bytes \<Rightarrow> edge_data option" where
  "decoded_edge v = (case decode_edge v of Decoded d \<Rightarrow> Some d | _ \<Rightarrow> None)"

definition edge_at :: "(bytes \<times> bytes) list \<Rightarrow> u64 \<Rightarrow> edge_data option" where
  "edge_at m e = Option.bind (map_of m (to_key e)) decoded_edge"

definition nodes_of :: "(handle \<Rightarrow> (bytes \<times> bytes) list) \<Rightarrow> storage \<Rightarrow> u64 \<Rightarrow> string option" where
  "nodes_of c so i = map_of (c (nodes_handle so)) (to_key i)"

definition edges_of :: "(handle \<Rightarrow> (bytes \<times> bytes) list) \<Rightarrow> storage \<Rightarrow> u64 \<Rightarrow> edge_data option" where
  "edges_of c so e = edge_at (c (edges_handle so)) e"

definition labelled :: "(handle \<Rightarrow> (bytes \<times> bytes) list) \<Rightarrow> storage \<Rightarrow> string \<Rightarrow> u64 \<Rightarrow> bool" where
  "labelled c so label i \<longleftrightarrow> label @ to_key i \<in> map_keys (c (label_index_handle so))"

lemma edge_at_put:
  "edge_at (map_put (to_key i) v m) = (edge_at m)(i := decoded_edge v)"
  by (auto simp: edge_at_def map_of_put fun_eq_iff)

lemma decoded_edge_Nil [simp]: "decoded_edge [] = None"
  by (simp add: decoded_edge_def decode_edge_def)

lemma decoded_encode:
  "length label + 20 < 2 ^ 32 \<Longrightarrow>
     decoded_edge (encode_edge f t label props) = Some \<lparr>from_id = f, to_id = t, edge_label = label, edge_properties = props\<rparr>"
  by (simp only: decoded_edge_def decode_encode_edge decoded.case)

section \<open>The invariant\<close>

definition all_handles :: "storage \<Rightarrow> handle list" where
  "all_handles so = [nodes_handle so, edges_handle so, out_index_handle so, in_index_handle so,
     label_index_handle so, property_index_handle so]"

definition ids_below :: "u64 \<Rightarrow> (bytes \<times> bytes) list \<Rightarrow> bool" where
  "ids_below n m \<longleftrightarrow> (\<forall>k\<in>map_keys m. \<exists>i<n. k = to_key i)"

text \<open>
  An edge index against the edges: a key is a node and an edge id, and the edge, unless it is
  deleted, ends there; every edge has its key.
\<close>

definition index_sound :: "(bytes \<times> bytes) list \<Rightarrow> (bytes \<times> bytes) list \<Rightarrow> (edge_data \<Rightarrow> u64) \<Rightarrow> bool" where
  "index_sound edges idx at \<longleftrightarrow>
     (\<forall>k\<in>map_keys idx. \<exists>n e. k = to_key n @ to_key e \<and> to_key e \<in> map_keys edges
        \<and> (\<forall>d. edge_at edges e = Some d \<longrightarrow> at d = n))
     \<and> (\<forall>e d. edge_at edges e = Some d \<longrightarrow> to_key (at d) @ to_key e \<in> map_keys idx)"

definition labels_sound :: "(bytes \<times> bytes) list \<Rightarrow> (bytes \<times> bytes) list \<Rightarrow> bool" where
  "labels_sound nodes idx \<longleftrightarrow> (\<forall>k\<in>map_keys idx. \<exists>l i. k = l @ to_key i \<and> to_key i \<in> map_keys nodes)"

text \<open>Reading an edge value never leaves it.\<close>

definition in_bounds :: "(bytes \<times> bytes) list \<Rightarrow> bool" where
  "in_bounds m \<longleftrightarrow> (\<forall>e\<in>set m. decode_edge (snd e) \<noteq> Out_of_bounds)"

definition graph_inv :: "(handle \<Rightarrow> (bytes \<times> bytes) list) \<Rightarrow> storage \<Rightarrow> bool" where
  "graph_inv c so \<longleftrightarrow>
     distinct (all_handles so) \<and> [] \<notin> set (all_handles so)
     \<and> ids_below (next_id so) (c (nodes_handle so)) \<and> ids_below (next_id so) (c (edges_handle so))
     \<and> index_sound (c (edges_handle so)) (c (out_index_handle so)) from_id
     \<and> index_sound (c (edges_handle so)) (c (in_index_handle so)) to_id
     \<and> labels_sound (c (nodes_handle so)) (c (label_index_handle so))
     \<and> in_bounds (c (edges_handle so))"

lemma in_bounds_put: "in_bounds m \<Longrightarrow> decode_edge v \<noteq> Out_of_bounds \<Longrightarrow> in_bounds (map_put k v m)"
  using set_map_put[of k v m] by (fastforce simp: in_bounds_def)

lemma decode_Nil [simp]: "decode_edge [] = Rejected"
  by (simp add: decode_edge_def)

lemma decode_not_out: "decoded_edge v = Some d \<Longrightarrow> decode_edge v \<noteq> Out_of_bounds"
  by (auto simp: decoded_edge_def)

lemma key_pair_eq [simp]: "to_key a @ to_key b = to_key a' @ to_key b' \<longleftrightarrow> a = a' \<and> b = b'"
  by (metis append_eq_append_conv length_to_key to_key_inj)

lemma label_key_eq [simp]: "l @ to_key i = l' @ to_key j \<longleftrightarrow> l = l' \<and> i = j"
proof
  assume "l @ to_key i = l' @ to_key j"
  then have "rev (to_key i) @ rev l = rev (to_key j) @ rev l'" by (metis rev_append)
  then show "l = l' \<and> i = j" by (simp add: append_eq_append_conv)
qed simp

lemma ids_below_put: "ids_below n m \<Longrightarrow> n \<le> n' \<Longrightarrow> i < n' \<Longrightarrow> ids_below n' (map_put (to_key i) v m)"
  unfolding ids_below_def by (auto dest: order.strict_trans2)

lemma ids_below_mono: "ids_below n m \<Longrightarrow> n \<le> n' \<Longrightarrow> ids_below n' m"
  unfolding ids_below_def by (auto dest: order.strict_trans2)

lemma ids_below_fresh: "ids_below n m \<Longrightarrow> to_key n \<notin> map_keys m"
  by (auto simp: ids_below_def)

text \<open>A new edge enters both the edges and an index.\<close>

lemma index_sound_new:
  assumes "index_sound edges idx at" "to_key e \<notin> map_keys edges" "decoded_edge v = Some d" "at d = n"
  shows "index_sound (map_put (to_key e) v edges) (map_put (to_key n @ to_key e) w idx) at"
  using assms unfolding index_sound_def edge_at_put
  by (auto simp: fun_upd_def) metis+

lemma index_sound_fresh: "index_sound edges idx at \<Longrightarrow> to_key e \<notin> map_keys edges \<Longrightarrow> to_key n @ to_key e \<notin> map_keys idx"
  unfolding index_sound_def by fastforce

text \<open>A deleted edge keeps its keys.\<close>

lemma index_sound_delete:
  assumes "index_sound edges idx at" "to_key n @ to_key e \<in> map_keys idx"
  shows "index_sound (map_put (to_key e) [] edges) (map_put (to_key n @ to_key e) w idx) at"
  using assms unfolding index_sound_def edge_at_put by (auto simp: fun_upd_def) metis+

lemma labels_sound_put: "labels_sound nodes idx \<Longrightarrow> labels_sound (map_put k v nodes) idx"
  unfolding labels_sound_def by auto

lemma labels_sound_new:
  "labels_sound nodes idx \<Longrightarrow> labels_sound (map_put (to_key i) v nodes) (map_put (label @ to_key i) w idx)"
  unfolding labels_sound_def by auto

lemma labels_sound_fresh: "labels_sound nodes idx \<Longrightarrow> to_key i \<notin> map_keys nodes \<Longrightarrow> label @ to_key i \<notin> map_keys idx"
  unfolding labels_sound_def by auto

text \<open>The invariant reads the object's handles and its next id only.\<close>

definition same_handles :: "storage \<Rightarrow> storage \<Rightarrow> bool" where
  "same_handles so so' \<longleftrightarrow> nodes_handle so' = nodes_handle so \<and> edges_handle so' = edges_handle so
     \<and> out_index_handle so' = out_index_handle so \<and> in_index_handle so' = in_index_handle so
     \<and> label_index_handle so' = label_index_handle so \<and> property_index_handle so' = property_index_handle so"

lemma same_handles_refl [simp]: "same_handles so so"
  by (simp add: same_handles_def)

lemma graph_inv_handles:
  assumes "graph_inv c so"
  shows "distinct (all_handles so)" "[] \<notin> set (all_handles so)"
    "nodes_handle so \<noteq> []" "edges_handle so \<noteq> []" "out_index_handle so \<noteq> []" "in_index_handle so \<noteq> []"
    "label_index_handle so \<noteq> []" "property_index_handle so \<noteq> []"
  using assms by (auto simp: graph_inv_def all_handles_def)

lemma next_id_less: "n + 1 \<noteq> 0 \<Longrightarrow> n < n + 1" for n :: u64
  using unatSuc[of n] by (simp add: word_less_nat_alt add.commute)

section \<open>The operations on a store with the basic laws\<close>

context kvs_basic
begin

lemma get_cases:
  assumes "valid s"
  obtains v s' where "map_of (content s h) k = Some v" "content_get K tx h k s = (Ok, v, s')"
      "content s' = content s" "valid s'"
  | v s' where "map_of (content s h) k = None" "content_get K tx h k s = (Not_found, v, s')"
      "content s' = content s" "valid s'"
  using get_some[OF assms] get_none[OF assms] by (cases "map_of (content s h) k") blast+

lemma allocate_law:
  assumes "valid s"
  shows "\<exists>so' s'. allocate_id K tx so s = (next_id so, so', s') \<and> next_id so' = next_id so + 1
    \<and> same_handles so so' \<and> content s' = content s \<and> valid s'"
proof -
  obtain st s1 where "sequence_put K tx (sequence_id so) (sequence_version so + 1)
      (sint (next_id so + 1 + sequence_batch_size - 2)) s = (st, s1)" "content s1 = content s" "valid s1"
    using sequence_law[OF assms] by blast
  then show ?thesis using assms by (auto simp: allocate_id_def Let_def same_handles_def)
qed

lemma add_entry_frame:
  assumes "valid s"
  shows "valid (add_index_entry K tx h k i s)
    \<and> (\<forall>h'. h' \<noteq> h \<longrightarrow> content (add_index_entry K tx h k i s) h' = content s h')"
proof -
  obtain rc s1 where s1: "content_put K tx h k (to_key i) Create s = (rc, s1)"
      "\<And>h'. h' \<noteq> h \<Longrightarrow> content s1 h' = content s h'" "valid s1"
    using put_frame[OF assms] by blast
  obtain rg v s2 where s2: "content_get K tx h k s1 = (rg, v, s2)" "content s2 = content s1" "valid s2"
    using get_law[OF s1(3)] by blast
  define w where "w = (if rg = Ok then v else []) @ to_key i"
  obtain st s3 where s3: "content_put K tx h k w Create_or_update s2 = (st, s3)"
      "\<And>h'. h' \<noteq> h \<Longrightarrow> content s3 h' = content s2 h'" "valid s3"
    using put_frame[OF s2(3)] by blast
  have "add_index_entry K tx h k i s = (if rc = Ok then s1 else s3)"
    using s3(1) by (simp add: add_index_entry_def s1(1) s2(1) w_def)
  then show ?thesis using s1 s2 s3 by auto
qed

lemma remove_entry_frame:
  assumes "valid s"
  shows "valid (remove_index_entry K tx h k i s)
    \<and> (\<forall>h'. h' \<noteq> h \<longrightarrow> content (remove_index_entry K tx h k i s) h' = content s h')"
proof -
  obtain rg v s1 where s1: "content_get K tx h k s = (rg, v, s1)" "content s1 = content s" "valid s1"
    using get_law[OF assms] by blast
  obtain st s2 where s2: "content_put K tx h k (remove_packed_id v i) Create_or_update s1 = (st, s2)"
      "\<And>h'. h' \<noteq> h \<Longrightarrow> content s2 h' = content s1 h'" "valid s2"
    using put_frame[OF s1(3)] by blast
  show ?thesis using s1 s2 by (auto simp: remove_index_entry_def)
qed

lemma fold_frame:
  assumes "\<forall>x s. valid s \<longrightarrow> valid (f x s) \<and> (\<forall>h'. h' \<noteq> h \<longrightarrow> content (f x s) h' = content s h')"
    and "valid s"
  shows "valid (fold f xs s) \<and> (\<forall>h'. h' \<noteq> h \<longrightarrow> content (fold f xs s) h' = content s h')"
  using assms(2) by (induction xs arbitrary: s) (use assms(1) in auto)

lemma index_node_frame:
  assumes "valid s"
  shows "valid (snd (index_node_properties K tx so i label props s))
    \<and> (\<forall>h'. h' \<noteq> property_index_handle so \<longrightarrow>
         content (snd (index_node_properties K tx so i label props s)) h' = content s h')"
proof -
  let ?h = "property_index_handle so"
  let ?add = "\<lambda>(key, val). add_index_entry K tx ?h (build_prop_index_key label key val) i"
  have add: "\<forall>x s. valid s \<longrightarrow> valid (?add x s) \<and> (\<forall>h'. h' \<noteq> ?h \<longrightarrow> content (?add x s) h' = content s h')"
    using add_entry_frame by (simp add: case_prod_beta)
  show ?thesis
    unfolding index_node_properties_def using assms fold_frame[of ?add ?h, OF add assms] by simp
qed

lemma update_index_frame:
  assumes "valid s"
  shows "valid (update_node_index K ord tx so i label old new s)
    \<and> (\<forall>h'. h' \<noteq> property_index_handle so \<longrightarrow>
         content (update_node_index K ord tx so i label old new s) h' = content s h')"
proof -
  let ?h = "property_index_handle so"
  let ?rem = "\<lambda>(key, val). remove_index_entry K tx ?h (build_prop_index_key label key val) i"
  let ?add = "\<lambda>(key, val). add_index_entry K tx ?h (build_prop_index_key label key val) i"
  have rem: "\<forall>x s. valid s \<longrightarrow> valid (?rem x s) \<and> (\<forall>h'. h' \<noteq> ?h \<longrightarrow> content (?rem x s) h' = content s h')"
    using remove_entry_frame by (simp add: case_prod_beta)
  have add: "\<forall>x s. valid s \<longrightarrow> valid (?add x s) \<and> (\<forall>h'. h' \<noteq> ?h \<longrightarrow> content (?add x s) h' = content s h')"
    using add_entry_frame by (simp add: case_prod_beta)
  let ?o = "ord (AList.clearjunk (parse_json_properties old))"
  let ?n = "ord (AList.clearjunk (parse_json_properties new))"
  note 1 = fold_frame[of ?rem ?h, OF rem assms, of "changed_entries ?o ?n"]
  note 2 = fold_frame[of ?add ?h, OF add, of _ "changed_entries ?n ?o"]
  show ?thesis
    unfolding update_node_index_def Let_def using 1 2[OF 1[THEN conjunct1]] by simp
qed

text \<open>Writes to the storages of the graph, with their effect on the contents.\<close>

lemma create_fresh:
  assumes "valid s" "k \<notin> map_keys (content s h)"
  shows "\<exists>s'. content_put K tx h k v Create s = (Ok, s') \<and> content s' = (content s)(h := map_put k v (content s h)) \<and> valid s'"
  using create_law[OF assms(1), of k h tx v] assms(2) by (simp add: map_keys_def)

lemma create_node_law:
  assumes "valid s" "graph_inv (content s) so" "tx \<noteq> 0" "next_id so + 1 \<noteq> 0"
  shows "\<exists>so' s'. create_node K tx so label props s = (Some (next_id so), so', s')
    \<and> valid s' \<and> graph_inv (content s') so' \<and> next_id so' = next_id so + 1 \<and> same_handles so so'
    \<and> nodes_of (content s') so' = (nodes_of (content s) so)(next_id so \<mapsto> props)
    \<and> edges_of (content s') so' = edges_of (content s) so
    \<and> labelled (content s') so' = (\<lambda>l i. labelled (content s) so l i \<or> label \<noteq> [] \<and> l = label \<and> i = next_id so)"
proof -
  let ?i = "next_id so" and ?c = "content s"
  note H = graph_inv_handles[OF assms(2)]
  obtain so' s1 where a: "allocate_id K tx so s = (?i, so', s1)" "next_id so' = ?i + 1" "same_handles so so'"
    "content s1 = ?c" "valid s1" using allocate_law[OF assms(1)] by blast
  have fresh: "to_key ?i \<notin> map_keys (?c (nodes_handle so))"
    using assms(2) ids_below_fresh by (auto simp: graph_inv_def)
  obtain s2 where p: "content_put K tx (nodes_handle so) (to_key ?i) props Create s1 = (Ok, s2)"
    "content s2 = ?c(nodes_handle so := map_put (to_key ?i) props (?c (nodes_handle so)))" "valid s2"
    using create_fresh[OF a(5), of "to_key ?i" "nodes_handle so" tx props] a(4) fresh by auto
  have lfresh: "label @ to_key ?i \<notin> map_keys (?c (label_index_handle so))"
    using assms(2) labels_sound_fresh[OF _ fresh] by (auto simp: graph_inv_def)
  have ne: "label_index_handle so \<noteq> nodes_handle so" using H(1) by (auto simp: all_handles_def)
  obtain s3 where l: "content_put K tx (label_index_handle so) (label @ to_key ?i) [] Create s2 = (Ok, s3)"
    "content s3 = (content s2)(label_index_handle so := map_put (label @ to_key ?i) [] (?c (label_index_handle so)))" "valid s3"
    using create_fresh[OF p(3), of "label @ to_key ?i" "label_index_handle so" tx "[]"] p(2) lfresh ne by auto
  define s4 where "s4 = (if label = [] then s2 else if props \<noteq> [] \<and> props \<noteq> ''{}''
      then snd (index_node_properties K tx so' ?i label props s3) else s3)"
  have run: "create_node K tx so label props s = (Some ?i, so', s4)"
    using assms(3) H p(1) l(1) a(1,3) by (simp add: create_node_def s4_def same_handles_def)
  have s4: "valid s4" "\<And>h'. h' \<noteq> property_index_handle so' \<Longrightarrow> content s4 h' = content (if label = [] then s2 else s3) h'"
    using index_node_frame[OF l(3), of tx so' ?i label props] p(3) l(3) by (auto simp: s4_def)
  have lt: "?i < ?i + 1" using next_id_less[OF assms(4)] .
  have c: "content s4 (nodes_handle so) = map_put (to_key ?i) props (?c (nodes_handle so))"
    "content s4 (edges_handle so) = ?c (edges_handle so)"
    "content s4 (out_index_handle so) = ?c (out_index_handle so)"
    "content s4 (in_index_handle so) = ?c (in_index_handle so)"
    "content s4 (label_index_handle so) = (if label = [] then ?c (label_index_handle so)
        else map_put (label @ to_key ?i) [] (?c (label_index_handle so)))"
    using s4(2) H(1) a(3) p(2) l(2) by (auto simp: all_handles_def same_handles_def)
  have "graph_inv (content s4) so'"
    using assms(2) a(2,3) lt ids_below_put[of ?i _ "?i + 1" ?i] ids_below_mono[of ?i _ "?i + 1"]
    unfolding graph_inv_def same_handles_def all_handles_def
    by (auto simp: c labels_sound_put labels_sound_new)
  moreover have "nodes_of (content s4) so' = (nodes_of ?c so)(?i \<mapsto> props)"
    "edges_of (content s4) so' = edges_of ?c so"
    "labelled (content s4) so' = (\<lambda>l i. labelled ?c so l i \<or> label \<noteq> [] \<and> l = label \<and> i = ?i)"
    using a(3) by (auto simp: nodes_of_def edges_of_def labelled_def same_handles_def c map_of_put fun_eq_iff)
  ultimately show ?thesis using run s4(1) a(2,3) by blast
qed

lemma create_edge_law:
  assumes "valid s" "graph_inv (content s) so" "tx \<noteq> 0" "next_id so + 1 \<noteq> 0" "length label + 20 < 2 ^ 32"
  shows "\<exists>so' s'. create_edge K tx so from to label props s = (Some (next_id so), so', s')
    \<and> valid s' \<and> graph_inv (content s') so' \<and> next_id so' = next_id so + 1 \<and> same_handles so so'
    \<and> nodes_of (content s') so' = nodes_of (content s) so
    \<and> edges_of (content s') so' = (edges_of (content s) so)(next_id so \<mapsto>
        \<lparr>from_id = from, to_id = to, edge_label = label, edge_properties = props\<rparr>)
    \<and> labelled (content s') so' = labelled (content s) so"
proof -
  let ?i = "next_id so" and ?c = "content s" and ?v = "encode_edge from to label props"
  let ?e = "edges_handle so" and ?o = "out_index_handle so" and ?n = "in_index_handle so"
  note H = graph_inv_handles[OF assms(2)]
  obtain so' s1 where a: "allocate_id K tx so s = (?i, so', s1)" "next_id so' = ?i + 1" "same_handles so so'"
    "content s1 = ?c" "valid s1" using allocate_law[OF assms(1)] by blast
  have fresh: "to_key ?i \<notin> map_keys (?c ?e)"
    using assms(2) ids_below_fresh by (auto simp: graph_inv_def)
  have ofresh: "to_key from @ to_key ?i \<notin> map_keys (?c ?o)" "to_key to @ to_key ?i \<notin> map_keys (?c ?n)"
    using assms(2) index_sound_fresh[OF _ fresh] by (auto simp: graph_inv_def)
  have ne: "?o \<noteq> ?e" "?n \<noteq> ?e" "?n \<noteq> ?o" using H(1) by (auto simp: all_handles_def)
  obtain s2 where p: "content_put K tx ?e (to_key ?i) ?v Create s1 = (Ok, s2)"
    "content s2 = ?c(?e := map_put (to_key ?i) ?v (?c ?e))" "valid s2"
    using create_fresh[OF a(5), of "to_key ?i" ?e tx ?v] a(4) fresh by auto
  obtain s3 where o: "content_put K tx ?o (to_key from @ to_key ?i) (to_key to) Create s2 = (Ok, s3)"
    "content s3 = (content s2)(?o := map_put (to_key from @ to_key ?i) (to_key to) (?c ?o))" "valid s3"
    using create_fresh[OF p(3), of "to_key from @ to_key ?i" ?o tx "to_key to"] p(2) ofresh ne by auto
  obtain s4 where n: "content_put K tx ?n (to_key to @ to_key ?i) (to_key from) Create s3 = (Ok, s4)"
    "content s4 = (content s3)(?n := map_put (to_key to @ to_key ?i) (to_key from) (?c ?n))" "valid s4"
    using create_fresh[OF o(3), of "to_key to @ to_key ?i" ?n tx "to_key from"] o(2) p(2) ofresh ne by auto
  have run: "create_edge K tx so from to label props s = (Some ?i, so', s4)"
    using assms(3) H p(1) o(1) n(1) a(1,3) by (simp add: create_edge_def same_handles_def)
  have c: "content s4 ?e = map_put (to_key ?i) ?v (?c ?e)"
    "content s4 ?o = map_put (to_key from @ to_key ?i) (to_key to) (?c ?o)"
    "content s4 ?n = map_put (to_key to @ to_key ?i) (to_key from) (?c ?n)"
    "content s4 (nodes_handle so) = ?c (nodes_handle so)"
    "content s4 (label_index_handle so) = ?c (label_index_handle so)"
    using H(1) p(2) o(2) n(2) by (auto simp: all_handles_def)
  have lt: "?i < ?i + 1" using next_id_less[OF assms(4)] .
  note dec = decoded_encode[OF assms(5), of "from" to props]
  have snd: "index_sound (content s4 ?e) (content s4 ?o) from_id" "index_sound (content s4 ?e) (content s4 ?n) to_id"
    unfolding c using assms(2) by (auto simp: graph_inv_def intro!: index_sound_new[OF _ fresh dec])
  have "graph_inv (content s4) so'"
    using assms(2) a(2,3) lt snd ids_below_put[of ?i _ "?i + 1" ?i] ids_below_mono[of ?i _ "?i + 1"]
    unfolding graph_inv_def same_handles_def all_handles_def
    by (auto simp: c in_bounds_put decode_not_out[OF dec])
  moreover have "edges_of (content s4) so' = (edges_of ?c so)(?i \<mapsto>
        \<lparr>from_id = from, to_id = to, edge_label = label, edge_properties = props\<rparr>)"
    "nodes_of (content s4) so' = nodes_of ?c so" "labelled (content s4) so' = labelled ?c so"
    using a(3) by (auto simp: nodes_of_def edges_of_def labelled_def same_handles_def c edge_at_put dec fun_eq_iff)
  ultimately show ?thesis using run n(3) a(2,3) by blast
qed

lemma write_node_law:
  assumes "valid s" "graph_inv (content s) so" "i < next_id so"
  shows "\<exists>s'. content_put K tx (nodes_handle so) (to_key i) v Create_or_update s = (Ok, s')
    \<and> valid s' \<and> graph_inv (content s') so
    \<and> nodes_of (content s') so = (nodes_of (content s) so)(i \<mapsto> v)
    \<and> edges_of (content s') so = edges_of (content s) so
    \<and> labelled (content s') so = labelled (content s) so
    \<and> content s' (property_index_handle so) = content s (property_index_handle so)"
proof -
  obtain s' where s': "content_put K tx (nodes_handle so) (to_key i) v Create_or_update s = (Ok, s')"
    "content s' = (content s)(nodes_handle so := map_put (to_key i) v (content s (nodes_handle so)))" "valid s'"
    using upsert_law[OF assms(1)] by blast
  have "graph_inv (content s') so"
    using assms(2,3) ids_below_put[of "next_id so" _ "next_id so" i]
    unfolding graph_inv_def all_handles_def by (auto simp: s'(2) labels_sound_put)
  moreover have "nodes_of (content s') so = (nodes_of (content s) so)(i \<mapsto> v)"
    "edges_of (content s') so = edges_of (content s) so" "labelled (content s') so = labelled (content s) so"
    "content s' (property_index_handle so) = content s (property_index_handle so)"
    using graph_inv_handles(1)[OF assms(2)]
    by (auto simp: all_handles_def s'(2) nodes_of_def edges_of_def labelled_def map_of_put fun_eq_iff)
  ultimately show ?thesis using s' by blast
qed

text \<open>A state that differs in the property index only has the same graph.\<close>

lemma same_graph:
  assumes "graph_inv c so" "\<And>h'. h' \<noteq> property_index_handle so \<Longrightarrow> c' h' = c h'"
  shows "graph_inv c' so" "nodes_of c' so = nodes_of c so" "edges_of c' so = edges_of c so"
    "labelled c' so = labelled c so"
proof -
  have "c' (nodes_handle so) = c (nodes_handle so)" "c' (edges_handle so) = c (edges_handle so)"
    "c' (out_index_handle so) = c (out_index_handle so)" "c' (in_index_handle so) = c (in_index_handle so)"
    "c' (label_index_handle so) = c (label_index_handle so)"
    using graph_inv_handles(1)[OF assms(1)] assms(2) by (auto simp: all_handles_def)
  then show "graph_inv c' so" "nodes_of c' so = nodes_of c so" "edges_of c' so = edges_of c so"
    "labelled c' so = labelled c so"
    using assms(1) by (auto simp: graph_inv_def nodes_of_def edges_of_def labelled_def fun_eq_iff)
qed

lemma get_node_law:
  assumes "valid s" "graph_inv (content s) so" "tx \<noteq> 0"
  shows "\<exists>s'. get_node K tx so i s = (nodes_of (content s) so i, s') \<and> content s' = content s \<and> valid s'"
  using graph_inv_handles(3)[OF assms(2)] assms(3)
  by (cases rule: get_cases[OF assms(1), of "nodes_handle so" "to_key i" tx]) (simp_all add: get_node_def nodes_of_def)

lemma update_node_law:
  assumes "valid s" "graph_inv (content s) so" "tx \<noteq> 0" "i < next_id so"
  shows "\<exists>s'. update_node K tx so i props s = (True, s') \<and> valid s' \<and> graph_inv (content s') so
    \<and> nodes_of (content s') so = (nodes_of (content s) so)(i \<mapsto> props)
    \<and> edges_of (content s') so = edges_of (content s) so
    \<and> labelled (content s') so = labelled (content s) so"
  using write_node_law[OF assms(1,2,4), of tx props] graph_inv_handles(3)[OF assms(2)] assms(3)
  by (auto simp: update_node_def)

lemma update_node_with_label_law:
  assumes "valid s" "graph_inv (content s) so" "tx \<noteq> 0" "i < next_id so"
  shows "\<exists>s'. update_node_with_label K ord tx so i label props s = (True, s') \<and> valid s' \<and> graph_inv (content s') so
    \<and> nodes_of (content s') so = (nodes_of (content s) so)(i \<mapsto> props)
    \<and> edges_of (content s') so = edges_of (content s) so
    \<and> labelled (content s') so = labelled (content s) so"
proof -
  obtain sg where g: "get_node K tx so i s = (nodes_of (content s) so i, sg)" "content sg = content s" "valid sg"
    using get_node_law[OF assms(1-3)] by blast
  define s1 where "s1 = (if label = [] then s
                  else case nodes_of (content s) so i of
                      Some old_props \<Rightarrow>
                        if old_props \<noteq> [] \<and> old_props \<noteq> ''{}''
                        then update_node_index K ord tx so i label old_props props sg
                        else if props \<noteq> [] \<and> props \<noteq> ''{}''
                        then snd (index_node_properties K tx so i label props sg) else sg
                    | None \<Rightarrow>
                        if props \<noteq> [] \<and> props \<noteq> ''{}''
                        then snd (index_node_properties K tx so i label props sg) else sg)"
  have s1: "valid s1" "\<And>h'. h' \<noteq> property_index_handle so \<Longrightarrow> content s1 h' = content s h'"
    using assms(1) g index_node_frame[OF g(3), of tx so i label props] update_index_frame[OF g(3), of ord tx so i label _ props]
    by (auto simp: s1_def split: option.split)
  note same = same_graph[OF assms(2) s1(2)]
  obtain s' where s': "content_put K tx (nodes_handle so) (to_key i) props Create_or_update s1 = (Ok, s')"
    "valid s'" "graph_inv (content s') so" "nodes_of (content s') so = (nodes_of (content s) so)(i \<mapsto> props)"
    "edges_of (content s') so = edges_of (content s) so" "labelled (content s') so = labelled (content s) so"
    using write_node_law[OF s1(1) same(1) assms(4), of tx props] same by auto
  have guard: "(tx = 0 \<or> nodes_handle so = []) = False" using assms(3) graph_inv_handles(3)[OF assms(2)] by simp
  have "update_node_with_label K ord tx so i label props s =
      (case content_put K tx (nodes_handle so) (write_key i) props Create_or_update s1 of (rc, s2) \<Rightarrow> (rc = Ok, s2))"
    by (simp only: update_node_with_label_def guard if_False Let_def g(1) prod.case s1_def)
  then have "update_node_with_label K ord tx so i label props s = (True, s')" using s'(1) by simp
  then show ?thesis using s' by blast
qed

text \<open>\<open>delete_node\<close> as the executor calls it, without a label.\<close>

lemma delete_node_law:
  assumes "valid s" "graph_inv (content s) so" "tx \<noteq> 0" "i < next_id so"
  shows "\<exists>s'. delete_node K tx so i [] s = (True, s') \<and> valid s' \<and> graph_inv (content s') so
    \<and> nodes_of (content s') so = (nodes_of (content s) so)(i \<mapsto> [])
    \<and> edges_of (content s') so = edges_of (content s) so
    \<and> labelled (content s') so = labelled (content s) so"
  using write_node_law[OF assms(1,2,4), of tx "[]"] graph_inv_handles(3)[OF assms(2)] assms(3)
  by (auto simp: delete_node_def)

lemma get_edge_law:
  assumes "valid s" "graph_inv (content s) so" "tx \<noteq> 0"
  shows "\<exists>r s'. get_edge K tx so e s = (r, s') \<and> content s' = content s \<and> valid s'
    \<and> edges_of (content s) so e = (case r of Decoded d \<Rightarrow> Some d | _ \<Rightarrow> None)
    \<and> r \<noteq> Out_of_bounds"
proof -
  have "decode_edge v \<noteq> Out_of_bounds" if "map_of (content s (edges_handle so)) (to_key e) = Some v" for v
    using assms(2) map_of_SomeD[OF that] by (fastforce simp: graph_inv_def in_bounds_def)
  then show ?thesis
    using graph_inv_handles(4)[OF assms(2)] assms(3)
    by (cases rule: get_cases[OF assms(1), of "edges_handle so" "to_key e" tx])
      (auto simp: get_edge_def edges_of_def edge_at_def decoded_edge_def)
qed

lemma delete_edge_law:
  assumes "valid s" "graph_inv (content s) so" "tx \<noteq> 0" "edges_of (content s) so e = Some d"
  shows "\<exists>s'. delete_edge K tx so e s = (Decoded True, s') \<and> valid s' \<and> graph_inv (content s') so
    \<and> nodes_of (content s') so = nodes_of (content s) so
    \<and> edges_of (content s') so = (edges_of (content s) so)(e := None)
    \<and> labelled (content s') so = labelled (content s) so"
proof -
  let ?c = "content s"
  let ?e = "edges_handle so" and ?o = "out_index_handle so" and ?n = "in_index_handle so"
  note H = graph_inv_handles[OF assms(2)]
  have d: "edge_at (?c ?e) e = Some d" using assms(4) by (simp add: edges_of_def)
  obtain r s1 where g: "get_edge K tx so e s = (r, s1)" "content s1 = ?c" "valid s1"
    "edges_of ?c so e = (case r of Decoded d \<Rightarrow> Some d | _ \<Rightarrow> None)"
    using get_edge_law[OF assms(1-3)] by blast
  then have r: "r = Decoded d" using assms(4) by (auto split: decoded.splits)
  have ne: "?o \<noteq> ?e" "?n \<noteq> ?e" "?n \<noteq> ?o" using H(1) by (auto simp: all_handles_def)
  obtain s2 where o: "content_put K tx ?o (to_key (from_id d) @ to_key e) [] Create_or_update s1 = (Ok, s2)"
    "content s2 = ?c(?o := map_put (to_key (from_id d) @ to_key e) [] (?c ?o))" "valid s2"
    using upsert_law[OF g(3), of tx ?o "to_key (from_id d) @ to_key e" "[]"] g(2) by auto
  obtain s3 where n: "content_put K tx ?n (to_key (to_id d) @ to_key e) [] Create_or_update s2 = (Ok, s3)"
    "content s3 = (content s2)(?n := map_put (to_key (to_id d) @ to_key e) [] (?c ?n))" "valid s3"
    using upsert_law[OF o(3), of tx ?n "to_key (to_id d) @ to_key e" "[]"] o(2) ne by auto
  obtain s4 where p: "content_put K tx ?e (to_key e) [] Create_or_update s3 = (Ok, s4)"
    "content s4 = (content s3)(?e := map_put (to_key e) [] (?c ?e))" "valid s4"
    using upsert_law[OF n(3), of tx ?e "to_key e" "[]"] o(2) n(2) ne by auto
  have run: "delete_edge K tx so e s = (Decoded True, s4)"
    using assms(3) H g(1) o(1) n(1) p(1) by (simp add: delete_edge_def r)
  have c: "content s4 ?e = map_put (to_key e) [] (?c ?e)"
    "content s4 ?o = map_put (to_key (from_id d) @ to_key e) [] (?c ?o)"
    "content s4 ?n = map_put (to_key (to_id d) @ to_key e) [] (?c ?n)"
    "content s4 (nodes_handle so) = ?c (nodes_handle so)"
    "content s4 (label_index_handle so) = ?c (label_index_handle so)"
    using H(1) p(2) o(2) n(2) by (auto simp: all_handles_def)
  have keys: "to_key (from_id d) @ to_key e \<in> map_keys (?c ?o)" "to_key (to_id d) @ to_key e \<in> map_keys (?c ?n)"
    using assms(2) d by (auto simp: graph_inv_def index_sound_def)
  have snd: "index_sound (content s4 ?e) (content s4 ?o) from_id" "index_sound (content s4 ?e) (content s4 ?n) to_id"
    unfolding c using assms(2) keys by (auto simp: graph_inv_def intro!: index_sound_delete)
  obtain v where "map_of (?c ?e) (to_key e) = Some v" using d by (auto simp: edge_at_def bind_eq_Some_conv)
  then have "to_key e \<in> map_keys (?c ?e)" by (rule map_keys_Some)
  then have "e < next_id so"
    using assms(2) by (auto simp: graph_inv_def ids_below_def)
  then have "graph_inv (content s4) so"
    using assms(2) snd ids_below_put[of "next_id so" _ "next_id so" e]
    unfolding graph_inv_def all_handles_def by (auto simp: c in_bounds_put)
  moreover have "edges_of (content s4) so = (edges_of ?c so)(e := None)"
    "nodes_of (content s4) so = nodes_of ?c so" "labelled (content s4) so = labelled ?c so"
    by (auto simp: nodes_of_def edges_of_def labelled_def c edge_at_put fun_eq_iff)
  ultimately show ?thesis using run p(3) by blast
qed

end

section \<open>Scans\<close>

lemma edge_loop_prefixed:
  assumes "\<forall>e\<in>set es. prefix (to_key n) (fst e) \<and> length (fst e) = 16" "\<forall>e\<in>set extra. \<not> prefix (to_key n) (fst e)"
  shows "edge_ids_loop (to_key n) (readable (es @ extra)) = map (\<lambda>e. from_key_ptr (drop 8 (fst e))) es"
  using assms(1)
proof (induction es)
  case Nil
  have "edge_ids_loop (to_key n) (readable extra) = []"
    using assms(2)
  proof (induction extra)
    case (Cons e extra)
    obtain k v where e: "e = (k, v)" by (cases e)
    have "take 8 k \<noteq> to_key n"
      using Cons.prems e by (metis append_take_drop_id fst_conv list.set_intros(1) prefix_def)
    then show ?case using Cons e by (simp add: readable_def)
  qed (simp add: readable_def)
  then show ?case by simp
next
  case (Cons e es)
  obtain k v where e: "e = (k, v)" by (cases e)
  then have "take 8 k = to_key n" using Cons.prems by (auto simp: prefix_def)
  then show ?case using Cons e by (simp add: readable_def)
qed

lemma label_loop_prefixed:
  assumes "\<forall>e\<in>set es. prefix label (fst e)" "\<forall>e\<in>set extra. \<not> prefix label (fst e)"
  shows "label_loop label (readable (es @ extra)) =
    map (\<lambda>e. from_key_ptr (drop (length label) (fst e))) (filter (\<lambda>e. length label + 8 \<le> length (fst e)) es)"
  using assms(1)
proof (induction es)
  case Nil
  have "label_loop label (readable extra) = []"
    using assms(2)
  proof (induction extra)
    case (Cons e extra)
    obtain k v where e: "e = (k, v)" by (cases e)
    have "take (length label) k \<noteq> label"
      using Cons.prems e by (metis append_take_drop_id fst_conv list.set_intros(1) prefix_def)
    then show ?case using Cons e by (simp add: readable_def)
  qed (simp add: readable_def)
  then show ?case by simp
next
  case (Cons e es)
  obtain k v where e: "e = (k, v)" by (cases e)
  then have "take (length label) k = label" using Cons.prems by (auto simp: prefix_def)
  then show ?case using Cons e by (auto simp: readable_def)
qed

text \<open>The ids behind a common prefix come in increasing order.\<close>

lemma map_from_keys:
  assumes "\<forall>k\<in>set ks. \<exists>i. k = p @ to_key i" "sorted_wrt (<) ks"
  shows "sorted_wrt (<) (map (\<lambda>k. from_key_ptr (drop (length p) k)) ks)"
    "set (map (\<lambda>k. from_key_ptr (drop (length p) k)) ks) = {i. p @ to_key i \<in> set ks}"
proof -
  from assms show "sorted_wrt (<) (map (\<lambda>k. from_key_ptr (drop (length p) k)) ks)"
  proof (induction ks)
    case (Cons k ks)
    obtain i where k: "k = p @ to_key i" using Cons.prems(1) by auto
    have "i < from_key_ptr (drop (length p) k')" if mem: "k' \<in> set ks" for k'
    proof -
      obtain j where "k' = p @ to_key j" using Cons.prems(1) mem by (meson list.set_intros(2))
      moreover have "k < k'" using Cons.prems(2) mem by auto
      ultimately show ?thesis using k by (simp add: append_less_same to_key_less)
    qed
    then show ?case using Cons k by auto
  qed simp
  show "set (map (\<lambda>k. from_key_ptr (drop (length p) k)) ks) = {i. p @ to_key i \<in> set ks}"
    using assms(1) by (auto simp: image_iff) (metis append_eq_conv_conj from_to_key')+
qed

lemma prefix_key_pair: "prefix (to_key n) (to_key m @ r) \<longleftrightarrow> n = m"
proof
  assume "prefix (to_key n) (to_key m @ r)"
  then obtain q where "to_key m @ r = to_key n @ q" by (auto simp: prefix_def)
  then show "n = m" by (metis append_eq_append_conv length_to_key to_key_inj)
qed simp

lemma keys_filter: "set (map fst (filter (\<lambda>e. P (fst e)) m)) = {k \<in> map_keys m. P k}"
  by (force simp: map_keys_def)

lemma sorted_keys_filter: "sorted_map m \<Longrightarrow> sorted_wrt (<) (map fst (filter P m))"
  by (induction m) (auto simp: sorted_map_Cons)

context kvs_basic
begin

lemma edge_scan:
  assumes "valid s" "h \<noteq> []" "\<forall>k\<in>map_keys (content s h). \<exists>m e. k = to_key m @ to_key e"
  shows "\<exists>it s'. prefix_scan K tx h (to_key n) s = (Ok, it, s') \<and> content s' = content s \<and> valid s'
    \<and> sorted_wrt (<) (edge_ids_loop (to_key n) it)
    \<and> set (edge_ids_loop (to_key n) it) = {e. to_key n @ to_key e \<in> map_keys (content s h)}"
proof -
  let ?es = "filter (\<lambda>e. prefix (to_key n) (fst e)) (content s h)"
  obtain extra s' where p: "prefix_scan K tx h (to_key n) s = (Ok, readable (?es @ extra), s')"
    "content s' = content s" "valid s'" "\<forall>e\<in>set extra. \<not> prefix (to_key n) (fst e)"
    using prefix_law[OF assms(1), of tx h "to_key n"] by (auto simp: prefix_scan_def)
  have keys: "\<exists>e. k = to_key n @ to_key e" if k: "k \<in> set (map fst ?es)" for k
  proof -
    from k have "k \<in> map_keys (content s h)" "prefix (to_key n) k" by (auto simp: map_keys_def)
    then show ?thesis using assms(3) by (auto simp: prefix_key_pair)
  qed
  then have "length k = 16" if "k \<in> set (map fst ?es)" for k
    using that by (metis add_numeral_left length_append length_to_key numeral_Bit0)
  then have "\<forall>e\<in>set ?es. prefix (to_key n) (fst e) \<and> length (fst e) = 16"
    by simp
  note loop = edge_loop_prefixed[OF this p(4)]
  have map: "map (\<lambda>e. from_key_ptr (drop 8 (fst e))) ?es = map (\<lambda>k. from_key_ptr (drop (length (to_key n)) k)) (map fst ?es)"
    by simp
  have "to_key n @ to_key e \<in> set (map fst ?es) \<longleftrightarrow> to_key n @ to_key e \<in> map_keys (content s h)" for e
    unfolding keys_filter by simp
  then show ?thesis
    using p loop map_from_keys[of "map fst ?es" "to_key n"] keys sorted_keys_filter[OF content_sorted[OF assms(1)]]
    unfolding map by auto
qed

lemma outgoing_law:
  assumes "valid s" "graph_inv (content s) so" "tx \<noteq> 0"
  shows "\<exists>es s'. get_outgoing_edges K tx so n s = (Some es, s') \<and> content s' = content s \<and> valid s'
    \<and> sorted_wrt (<) es \<and> set es = {e. to_key n @ to_key e \<in> map_keys (content s (out_index_handle so))}"
proof -
  have "\<forall>k\<in>map_keys (content s (out_index_handle so)). \<exists>m e. k = to_key m @ to_key e"
    using assms(2) unfolding graph_inv_def index_sound_def by blast
  from edge_scan[OF assms(1) graph_inv_handles(5)[OF assms(2)] this, of tx n] show ?thesis
    using assms(3) graph_inv_handles(5)[OF assms(2)] by (auto simp: get_outgoing_edges_def)
qed

lemma incoming_law:
  assumes "valid s" "graph_inv (content s) so" "tx \<noteq> 0"
  shows "\<exists>es s'. get_incoming_edges K tx so n s = (Some es, s') \<and> content s' = content s \<and> valid s'
    \<and> sorted_wrt (<) es \<and> set es = {e. to_key n @ to_key e \<in> map_keys (content s (in_index_handle so))}"
proof -
  have "\<forall>k\<in>map_keys (content s (in_index_handle so)). \<exists>m e. k = to_key m @ to_key e"
    using assms(2) unfolding graph_inv_def index_sound_def by blast
  from edge_scan[OF assms(1) graph_inv_handles(6)[OF assms(2)] this, of tx n] show ?thesis
    using assms(3) graph_inv_handles(6)[OF assms(2)] by (auto simp: get_incoming_edges_def)
qed

end

text \<open>
  The keys of the index with the label as a prefix are keys of this label: no other label of
  the index continues it.
\<close>

definition label_alone :: "(bytes \<times> bytes) list \<Rightarrow> string \<Rightarrow> bool" where
  "label_alone idx label \<longleftrightarrow> (\<forall>k\<in>map_keys idx. prefix label k \<longrightarrow> length k = length label + 8)"

context kvs_basic
begin

lemma label_scan:
  assumes "valid s" "label_alone (content s h) label"
  shows "\<exists>it s'. prefix_scan K tx h label s = (Ok, it, s') \<and> content s' = content s \<and> valid s'
    \<and> sorted_wrt (<) (label_loop label it)
    \<and> set (label_loop label it) = {i. label @ to_key i \<in> map_keys (content s h)}"
proof -
  let ?es = "filter (\<lambda>e. prefix label (fst e)) (content s h)"
  obtain extra s' where p: "prefix_scan K tx h label s = (Ok, readable (?es @ extra), s')"
    "content s' = content s" "valid s'" "\<forall>e\<in>set extra. \<not> prefix label (fst e)"
    using prefix_law[OF assms(1), of tx h label] by (auto simp: prefix_scan_def)
  have keys: "\<exists>i. k = label @ to_key i" "length k = length label + 8" if k: "k \<in> set (map fst ?es)" for k
  proof -
    from k have "k \<in> map_keys (content s h)" and pre: "prefix label k" by (auto simp: map_keys_def)
    then show len: "length k = length label + 8" using assms(2) by (auto simp: label_alone_def)
    obtain r where r: "k = label @ r" using pre by (auto simp: prefix_def)
    then have "length r = 8" using len by simp
    then have "to_key (from_key_ptr r) = r" using to_from_key[of r] by simp
    then show "\<exists>i. k = label @ to_key i" using r by metis
  qed
  have "filter (\<lambda>e. length label + 8 \<le> length (fst e)) ?es = ?es"
    using keys(2) by (subst filter_id_conv) auto
  then have loop: "label_loop label (readable (?es @ extra)) = map (\<lambda>k. from_key_ptr (drop (length label) k)) (map fst ?es)"
    using label_loop_prefixed[of ?es label extra] p(4) by (simp add: comp_def)
  have "label @ to_key i \<in> set (map fst ?es) \<longleftrightarrow> label @ to_key i \<in> map_keys (content s h)" for i
    unfolding keys_filter by simp
  then show ?thesis
    using p loop map_from_keys[of "map fst ?es" label] keys(1) sorted_keys_filter[OF content_sorted[OF assms(1)]]
    by auto
qed

lemma find_label_law:
  assumes "valid s" "graph_inv (content s) so" "tx \<noteq> 0" "label \<noteq> []" "label_alone (content s (label_index_handle so)) label"
  shows "\<exists>ids s'. find_nodes_by_label K tx so label s = (Some ids, s') \<and> content s' = content s \<and> valid s'
    \<and> sorted_wrt (<) ids \<and> set ids = {i. labelled (content s) so label i}"
  using label_scan[OF assms(1,5), of tx] assms(3,4) graph_inv_handles(7)[OF assms(2)]
  by (auto simp: find_nodes_by_label_def labelled_def)

end

section \<open>Sequences of operations\<close>

text \<open>
  The operations that change the graph, and what they mean for it.  \<open>Empty_node\<close> is \<open>delete_node\<close> as
  DELETE calls it, without a label: the node stays, with an empty text and its labels.
\<close>

datatype graph_op =
    New_node string string
  | New_edge u64 u64 string string
  | Set_node u64 string
  | Set_labelled_node u64 string string
  | Empty_node u64
  | Remove_edge u64

record graph =
  g_next :: u64
  g_nodes :: "u64 \<Rightarrow> string option"
  g_edges :: "u64 \<Rightarrow> edge_data option"
  g_label :: "string \<Rightarrow> u64 \<Rightarrow> bool"

definition graph_of :: "(handle \<Rightarrow> (bytes \<times> bytes) list) \<Rightarrow> storage \<Rightarrow> graph" where
  "graph_of c so = \<lparr>g_next = next_id so, g_nodes = nodes_of c so, g_edges = edges_of c so, g_label = labelled c so\<rparr>"

fun graph_step :: "graph_op \<Rightarrow> graph \<Rightarrow> u64 option \<times> graph" where
  "graph_step (New_node label props) g =
     (Some (g_next g), g\<lparr>g_next := g_next g + 1, g_nodes := (g_nodes g)(g_next g \<mapsto> props),
        g_label := (\<lambda>l i. g_label g l i \<or> label \<noteq> [] \<and> l = label \<and> i = g_next g)\<rparr>)"
| "graph_step (New_edge from to label props) g =
     (Some (g_next g), g\<lparr>g_next := g_next g + 1, g_edges := (g_edges g)(g_next g \<mapsto>
        \<lparr>from_id = from, to_id = to, edge_label = label, edge_properties = props\<rparr>)\<rparr>)"
| "graph_step (Set_node i props) g = (None, g\<lparr>g_nodes := (g_nodes g)(i \<mapsto> props)\<rparr>)"
| "graph_step (Set_labelled_node i label props) g = (None, g\<lparr>g_nodes := (g_nodes g)(i \<mapsto> props)\<rparr>)"
| "graph_step (Empty_node i) g = (None, g\<lparr>g_nodes := (g_nodes g)(i \<mapsto> [])\<rparr>)"
| "graph_step (Remove_edge e) g = (None, g\<lparr>g_edges := (g_edges g)(e := None)\<rparr>)"

fun step_ok :: "graph_op \<Rightarrow> graph \<Rightarrow> bool" where
  "step_ok (New_node label props) g \<longleftrightarrow> g_next g + 1 \<noteq> 0"
| "step_ok (New_edge from to label props) g \<longleftrightarrow> g_next g + 1 \<noteq> 0 \<and> length label + 20 < 2 ^ 32"
| "step_ok (Set_node i props) g \<longleftrightarrow> i < g_next g"
| "step_ok (Set_labelled_node i label props) g \<longleftrightarrow> i < g_next g"
| "step_ok (Empty_node i) g \<longleftrightarrow> i < g_next g"
| "step_ok (Remove_edge e) g \<longleftrightarrow> True"

fun store_step :: "'s kvs \<Rightarrow> hash_order \<Rightarrow> tx_handle \<Rightarrow> graph_op \<Rightarrow> storage \<times> 's \<Rightarrow> u64 option \<times> storage \<times> 's" where
  "store_step K ord tx (New_node label props) (so, s) = create_node K tx so label props s"
| "store_step K ord tx (New_edge from to label props) (so, s) = create_edge K tx so from to label props s"
| "store_step K ord tx (Set_node i props) (so, s) = (None, so, snd (update_node K tx so i props s))"
| "store_step K ord tx (Set_labelled_node i label props) (so, s) =
     (None, so, snd (update_node_with_label K ord tx so i label props s))"
| "store_step K ord tx (Empty_node i) (so, s) = (None, so, snd (delete_node K tx so i [] s))"
| "store_step K ord tx (Remove_edge e) (so, s) = (None, so, snd (delete_edge K tx so e s))"

fun graph_run :: "graph_op list \<Rightarrow> graph \<Rightarrow> u64 option list \<times> graph" where
  "graph_run [] g = ([], g)"
| "graph_run (op # ops) g = (let (r, g1) = graph_step op g; (rs, g2) = graph_run ops g1 in (r # rs, g2))"

fun run_ok :: "graph_op list \<Rightarrow> graph \<Rightarrow> bool" where
  "run_ok [] g = True"
| "run_ok (op # ops) g \<longleftrightarrow> step_ok op g \<and> run_ok ops (snd (graph_step op g))"

fun store_run :: "'s kvs \<Rightarrow> hash_order \<Rightarrow> tx_handle \<Rightarrow> graph_op list \<Rightarrow> storage \<times> 's \<Rightarrow> u64 option list \<times> storage \<times> 's" where
  "store_run K ord tx [] st = ([], st)"
| "store_run K ord tx (op # ops) st =
     (let (r, st1) = store_step K ord tx op st; (rs, st2) = store_run K ord tx ops st1 in (r # rs, st2))"

context kvs_basic
begin

lemma remove_edge_step:
  assumes "valid s" "graph_inv (content s) so" "tx \<noteq> 0"
  shows "\<exists>s' b. delete_edge K tx so e s = (Decoded b, s') \<and> valid s' \<and> graph_inv (content s') so
    \<and> nodes_of (content s') so = nodes_of (content s) so
    \<and> edges_of (content s') so = (edges_of (content s) so)(e := None)
    \<and> labelled (content s') so = labelled (content s) so"
proof (cases "edges_of (content s) so e")
  case None
  obtain r s1 where g: "get_edge K tx so e s = (r, s1)" "content s1 = content s" "valid s1"
    "edges_of (content s) so e = (case r of Decoded d \<Rightarrow> Some d | _ \<Rightarrow> None)" "r \<noteq> Out_of_bounds"
    using get_edge_law[OF assms] by blast
  then have "r = Rejected" using None by (cases r) auto
  then have "delete_edge K tx so e s = (Decoded False, s1)"
    using g(1) assms(3) graph_inv_handles(4)[OF assms(2)] by (simp add: delete_edge_def)
  moreover have "(edges_of (content s) so)(e := None) = edges_of (content s) so"
    using None by (simp add: fun_eq_iff)
  ultimately show ?thesis using g assms(2) by auto
next
  case (Some d)
  from delete_edge_law[OF assms this] show ?thesis by blast
qed

lemma step_refines:
  assumes "valid s" "graph_inv (content s) so" "tx \<noteq> 0" "step_ok op (graph_of (content s) so)"
  shows "\<exists>so' s'. store_step K ord tx op (so, s) = (fst (graph_step op (graph_of (content s) so)), so', s')
    \<and> graph_of (content s') so' = snd (graph_step op (graph_of (content s) so))
    \<and> valid s' \<and> graph_inv (content s') so'"
proof (cases op)
  case (New_node label props)
  then show ?thesis
    using create_node_law[OF assms(1-3), of label props] assms(4) by (auto simp: graph_of_def)
next
  case (New_edge f t label props)
  then show ?thesis
    using create_edge_law[OF assms(1-3), of label f t props] assms(4) by (auto simp: graph_of_def)
next
  case (Set_node i props)
  then show ?thesis
    using update_node_law[OF assms(1-3), of i props] assms(4) by (auto simp: graph_of_def)
next
  case (Set_labelled_node i label props)
  then show ?thesis
    using update_node_with_label_law[OF assms(1-3), of i ord label props] assms(4) by (auto simp: graph_of_def)
next
  case (Empty_node i)
  then show ?thesis
    using delete_node_law[OF assms(1-3), of i] assms(4) by (auto simp: graph_of_def)
next
  case (Remove_edge e)
  then show ?thesis
    using remove_edge_step[OF assms(1-3), of e] by (auto simp: graph_of_def)
qed

lemma run_refines:
  assumes "valid s" "graph_inv (content s) so" "tx \<noteq> 0" "run_ok ops (graph_of (content s) so)"
  shows "\<exists>so' s'. store_run K ord tx ops (so, s) = (fst (graph_run ops (graph_of (content s) so)), so', s')
    \<and> graph_of (content s') so' = snd (graph_run ops (graph_of (content s) so))
    \<and> valid s' \<and> graph_inv (content s') so'"
  using assms
proof (induction ops arbitrary: so s)
  case (Cons op ops)
  let ?g = "graph_of (content s) so"
  obtain so1 s1 where 1: "store_step K ord tx op (so, s) = (fst (graph_step op ?g), so1, s1)"
    "graph_of (content s1) so1 = snd (graph_step op ?g)" "valid s1" "graph_inv (content s1) so1"
    using step_refines[OF Cons.prems(1-3), of op ord] Cons.prems(4) by auto
  from Cons.IH[OF 1(3,4) Cons.prems(3)] show ?case
    using 1 Cons.prems(4) by (auto simp: case_prod_beta)
qed simp

end

end
