(* ===== verification/Storage_Props.thy ===== *)
theory Storage_Props
  imports Graph_Store "HOL-Library.Multiset"
begin

text \<open>
  Properties of the storage operations: the graph they implement, what the scans find, the ids
  they hand out, and the property index across an update of a node.
\<close>

section \<open>Ids and the sequence\<close>

text \<open>Some ids in a row.\<close>

fun allocate_ids :: "'s kvs \<Rightarrow> tx_handle \<Rightarrow> nat \<Rightarrow> storage \<Rightarrow> 's \<Rightarrow> u64 list \<times> storage \<times> 's" where
  "allocate_ids K tx 0 so s = ([], so, s)"
| "allocate_ids K tx (Suc n) so s =
     (let (i, so1, s1) = allocate_id K tx so s; (is, so2, s2) = allocate_ids K tx n so1 s1 in (i # is, so2, s2))"

text \<open>While ids of a batch remain, the sequence holds the last id of the batch.\<close>

definition batch_inv :: "('s \<Rightarrow> nat \<Rightarrow> int option) \<Rightarrow> storage \<Rightarrow> 's \<Rightarrow> bool" where
  "batch_inv persisted so s \<longleftrightarrow> uint (sequence_batch_remaining so) < 64 \<and>
     (sequence_batch_remaining so = 0
      \<or> persisted s (sequence_id so) = Some (uint (next_id so) + uint (sequence_batch_remaining so) - 1))"

lemma uint_add_small:
  assumes "uint (a :: u64) + k < 2 ^ 64" "0 \<le> k"
  shows "uint (a + of_int k) = uint a + k"
proof -
  have "k < 2 ^ 64" "uint a + k < 2 ^ 64" using assms uint_u64_bounds(1)[of a] by linarith+
  then show ?thesis
    using assms(2) by (simp add: uint_word_ariths(1) unsigned_of_int take_bit_eq_mod mod_pos_pos_trivial)
qed

lemma sint_small: "uint (a :: u64) < 2 ^ 63 \<Longrightarrow> sint a = uint a"
  by (simp add: sint_uint signed_take_bit_eq_if_positive bit_iff_odd div_pos_pos_trivial take_bit_int_eq_self)

lemma uint_minus_one: "a \<noteq> 0 \<Longrightarrow> uint (a - 1 :: u64) = uint a - 1"
proof -
  assume "a \<noteq> 0"
  then have "1 \<le> uint a" using uint_u64_bounds(1)[of a] by (auto simp: le_less uint_0_iff)
  then show "uint (a - 1) = uint a - 1"
    using uint_u64_bounds(2)[of a] by (simp add: uint_word_ariths(2) mod_pos_pos_trivial)
qed

context kvs_sequences
begin

lemma allocate_step:
  assumes "valid s" "batch_inv persisted so s" "uint (next_id so) + 64 < 2 ^ 63"
  shows "\<exists>so' s' v. allocate_id K tx so s = (next_id so, so', s') \<and> valid s' \<and> batch_inv persisted so' s'
    \<and> uint (next_id so') = uint (next_id so) + 1 \<and> sequence_id so' = sequence_id so
    \<and> persisted s' (sequence_id so) = Some v \<and> uint (next_id so) \<le> v"
proof (cases "sequence_batch_remaining so = 0")
  case True
  let ?n = "next_id so" and ?v = "uint (next_id so) + 63"
  have up: "uint (?n + 1) = uint ?n + 1" using uint_add_small[of ?n 1] assms(3) by simp
  have "uint (?n + 63) = uint ?n + 63" using uint_add_small[of ?n 63] assms(3) by simp
  then have "sint (?n + 63) = ?v" using assms(3) by (simp add: sint_small)
  moreover have eq: "?n + 1 + sequence_batch_size - 2 = ?n + 63" by (simp add: sequence_batch_size_def)
  ultimately have val: "sint (?n + 1 + sequence_batch_size - 2) = ?v" unfolding eq by simp
  obtain s' where s': "sequence_put K tx (sequence_id so) (sequence_version so + 1) ?v s = (Ok, s')"
    "persisted s' = (persisted s)(sequence_id so \<mapsto> ?v)"
    using sequence_put_law by blast
  have v': "valid s'" using sequence_law[OF assms(1), of tx "sequence_id so" "sequence_version so + 1" ?v] s'(1) by auto
  let ?so = "so\<lparr>next_id := ?n + 1, sequence_version := sequence_version so + 1, sequence_batch_remaining := sequence_batch_size - 1\<rparr>"
  have "allocate_id K tx so s = (?n, ?so, s')"
    using True s'(1) val by (simp add: allocate_id_def Let_def)
  moreover have "batch_inv persisted ?so s'"
    using s'(2) up by (simp add: batch_inv_def sequence_batch_size_def)
  ultimately show ?thesis using s'(2) v' up True by auto
next
  case False
  let ?n = "next_id so" and ?r = "sequence_batch_remaining so"
  have up: "uint (?n + 1) = uint ?n + 1" using uint_add_small[of ?n 1] assms(3) by simp
  have down: "uint (?r - 1) = uint ?r - 1" "1 \<le> uint ?r"
    using uint_minus_one[OF False] False uint_u64_bounds(1)[of ?r] by (auto simp: uint_0_iff le_less)
  let ?so = "so\<lparr>next_id := ?n + 1, sequence_batch_remaining := ?r - 1\<rparr>"
  have p: "persisted s (sequence_id so) = Some (uint ?n + uint ?r - 1)"
    using assms(2) False by (simp add: batch_inv_def)
  have "allocate_id K tx so s = (?n, ?so, s)"
    using False by (simp add: allocate_id_def Let_def)
  moreover have "batch_inv persisted ?so s"
    using p up down assms(2) by (simp add: batch_inv_def)
  ultimately show ?thesis using p up down assms(1) by auto
qed

lemma allocate_many:
  assumes "valid s" "batch_inv persisted so s" "uint (next_id so) + int n + 64 < 2 ^ 63"
  shows "\<exists>is so' s'. allocate_ids K tx n so s = (is, so', s') \<and> valid s' \<and> batch_inv persisted so' s'
    \<and> map uint is = map (\<lambda>k. uint (next_id so) + int k) [0..<n] \<and> sequence_id so' = sequence_id so
    \<and> (0 < n \<longrightarrow> (\<exists>v. persisted s' (sequence_id so) = Some v \<and> uint (next_id so) + int n - 1 \<le> v))"
  using assms
proof (induction n arbitrary: so s)
  case (Suc n)
  let ?m = "uint (next_id so)"
  obtain so1 s1 v where 1: "allocate_id K tx so s = (next_id so, so1, s1)" "valid s1" "batch_inv persisted so1 s1"
    "uint (next_id so1) = ?m + 1" "sequence_id so1 = sequence_id so"
    "persisted s1 (sequence_id so) = Some v" "?m \<le> v"
    using allocate_step[OF Suc.prems(1,2), of tx] Suc.prems(3) by auto
  obtain ids so2 s2 where 2: "allocate_ids K tx n so1 s1 = (ids, so2, s2)" "valid s2" "batch_inv persisted so2 s2"
    "map uint ids = map (\<lambda>k. ?m + 1 + int k) [0..<n]" "sequence_id so2 = sequence_id so"
    "0 < n \<longrightarrow> (\<exists>v. persisted s2 (sequence_id so) = Some v \<and> ?m + 1 + int n - 1 \<le> v)"
    using Suc.IH[OF 1(2,3)] Suc.prems(3) 1(4,5) by auto
  have "n = 0 \<Longrightarrow> s2 = s1" using 2(1) by simp
  then have "\<exists>v. persisted s2 (sequence_id so) = Some v \<and> ?m + int (Suc n) - 1 \<le> v"
    using 2(6) 1(6,7) by (cases "n = 0") auto
  moreover have "map uint (next_id so # ids) = map (\<lambda>k. ?m + int k) [0..<Suc n]"
    using 2(4) by (simp add: upt_conv_Cons map_Suc_upt[symmetric] comp_def add.commute add.left_commute del: upt_Suc)
  ultimately show ?case using 1(1) 2 by (auto simp del: upt_Suc)
qed simp

end

section \<open>The streaming scan\<close>

lemma label_next_Nil: "iter_it li = Some [] \<Longrightarrow> label_drain li = []"
  by (subst label_drain.simps) (simp add: label_next_def iter_stop_def)

lemma label_drain_prefixed:
  assumes "iter_it li = Some (readable (es @ extra))" "iter_label li = label"
    and "\<forall>e\<in>set es. prefix label (fst e) \<and> length (fst e) = length label + 8"
    and "\<forall>e\<in>set extra. \<not> prefix label (fst e)"
  shows "label_drain li = map (\<lambda>e. from_key_ptr (drop (length label) (fst e))) es"
  using assms(1-3)
proof (induction es arbitrary: li)
  case Nil
  show ?case
  proof (cases extra)
    case Nil
    then show ?thesis using Nil.prems by (simp add: readable_def label_next_Nil)
  next
    case (Cons e es)
    then have "take (length label) (fst e) \<noteq> label"
      using assms(4) by (metis append_take_drop_id list.set_intros(1) prefix_def)
    then show ?thesis
      using Nil.prems Cons
      by (subst label_drain.simps) (simp add: label_next_def iter_stop_def readable_def case_prod_beta)
  qed
next
  case (Cons e es)
  have t: "take (length label) (fst e) = label" using Cons.prems(3) by (auto simp: prefix_def)
  let ?li = "li\<lparr>iter_it := Some (readable (es @ extra)), current_id := from_key_ptr (drop (length label) (fst e)), iter_valid := True\<rparr>"
  have "label_next li = (True, ?li)"
    using Cons.prems t by (simp add: label_next_def readable_def case_prod_beta)
  then have "label_drain li = current_id ?li # label_drain ?li"
    by (subst label_drain.simps) simp
  then show ?case using Cons.IH[of ?li] Cons.prems by simp
qed

context kvs_basic
begin

lemma label_stream_law:
  assumes "valid s" "graph_inv (content s) so" "tx \<noteq> 0" "label \<noteq> []" "label_alone (content s (label_index_handle so)) label"
  shows "Some (label_drain (fst (find_nodes_by_label_iter K tx so label s))) = fst (find_nodes_by_label K tx so label s)"
proof -
  let ?h = "label_index_handle so"
  let ?es = "filter (\<lambda>e. prefix label (fst e)) (content s ?h)"
  obtain extra s' where p: "prefix_scan K tx ?h label s = (Ok, readable (?es @ extra), s')"
    "\<forall>e\<in>set extra. \<not> prefix label (fst e)"
    using prefix_law[OF assms(1), of tx ?h label] by (auto simp: prefix_scan_def)
  have es: "\<forall>e\<in>set ?es. prefix label (fst e) \<and> length (fst e) = length label + 8"
    using assms(5) by (auto simp: label_alone_def map_keys_def)
  then have "filter (\<lambda>e. length label + 8 \<le> length (fst e)) ?es = ?es"
    by (subst filter_id_conv) auto
  then have "label_loop label (readable (?es @ extra)) = map (\<lambda>e. from_key_ptr (drop (length label) (fst e))) ?es"
    using label_loop_prefixed[of ?es label extra] p(2) by simp
  moreover have "label_drain (fst (find_nodes_by_label_iter K tx so label s)) =
      map (\<lambda>e. from_key_ptr (drop (length label) (fst e))) ?es"
    by (rule label_drain_prefixed[OF _ _ es p(2)]) (simp_all add: find_nodes_by_label_iter_def p(1))
  ultimately show ?thesis
    using assms(3,4) graph_inv_handles(7)[OF assms(2)] p(1) by (simp add: find_nodes_by_label_def)
qed

end

section \<open>The property index across an update\<close>

definition iteration_order :: "hash_order \<Rightarrow> bool" where
  "iteration_order ord \<longleftrightarrow> (\<forall>m. mset (ord m) = mset m)"

lemma ordered_entries:
  assumes "iteration_order ord"
  shows "(key, val) \<in> set (ord (AList.clearjunk ps)) \<longleftrightarrow> map_of ps key = Some val"
    "map_of (ord (AList.clearjunk ps)) = map_of ps"
proof -
  let ?m = "ord (AList.clearjunk ps)"
  have m: "mset ?m = mset (AList.clearjunk ps)" using assms by (simp add: iteration_order_def)
  then have d: "distinct (map fst ?m)" by (metis distinct_clearjunk mset_eq_imp_distinct_iff mset_map)
  have "set ?m = set (AList.clearjunk ps)" using m by (rule mset_eq_setD)
  then have "map_of ?m = map_of (AList.clearjunk ps)"
    using d map_of_inject_set[OF d distinct_clearjunk] by simp
  then show eq: "map_of ?m = map_of ps" by (simp add: map_of_clearjunk)
  show "(key, val) \<in> set ?m \<longleftrightarrow> map_of ps key = Some val"
    using map_of_eq_Some_iff[OF d, of key val] by (simp add: eq)
qed

definition has_key :: "string \<Rightarrow> (string \<times> string) list \<Rightarrow> bytes \<Rightarrow> bool" where
  \<comment> \<open>one of the properties has this index key\<close>
  "has_key label props k \<longleftrightarrow> (\<exists>key val. map_of props key = Some val \<and> k = build_prop_index_key label key val)"

lemma key_count_pos:
  "key_count label ps k \<noteq> 0 \<longleftrightarrow> (\<exists>key val. (key, val) \<in> set ps \<and> build_prop_index_key label key val = k)"
  by (auto simp: key_count_def filter_empty_conv)

lemma changed_set:
  "(key, val) \<in> set (changed_entries m n) \<longleftrightarrow> (key, val) \<in> set m \<and> map_of n key \<noteq> Some val"
  by (simp add: changed_entries_def)

lemma changed_count:
  assumes "iteration_order ord"
  shows "key_count label (changed_entries (ord (AList.clearjunk ps)) (ord (AList.clearjunk qs))) k \<noteq> 0 \<longleftrightarrow>
    (\<exists>key val. map_of ps key = Some val \<and> map_of qs key \<noteq> Some val \<and> build_prop_index_key label key val = k)"
  unfolding key_count_pos changed_set ordered_entries[OF assms] by simp

text \<open>Taking out the keys of the changed old entries and adding those of the changed new ones
  leaves the keys of the new entries.\<close>

lemma changed_keys:
  assumes "nul \<notin> set label" "\<And>key. key \<in> fst ` set old \<union> fst ` set new \<Longrightarrow> nul \<notin> set key"
  shows "has_key label old k
       \<and> \<not> (\<exists>key val. map_of old key = Some val \<and> map_of new key \<noteq> Some val \<and> build_prop_index_key label key val = k)
     \<or> (\<exists>key val. map_of new key = Some val \<and> map_of old key \<noteq> Some val \<and> build_prop_index_key label key val = k)
     \<longleftrightarrow> has_key label new k"
proof -
  have nul: "nul \<notin> set key" if "map_of old key = Some val \<or> map_of new key = Some val" for key val
    using that assms(2) by (force dest: map_of_SomeD)
  have inj: "key = key'" if "build_prop_index_key label key val = build_prop_index_key label key' val'"
      "map_of old key = Some val \<or> map_of new key = Some val"
      "map_of old key' = Some val' \<or> map_of new key' = Some val'" for key key' val val'
    using that index_key_eq[OF assms(1,1) nul[OF that(2)] nul[OF that(3)]] by blast
  have kept: "map_of new key' = Some val'"
    if "map_of old key = Some val" "map_of new key = Some val"
      "map_of old key' = Some val'" "build_prop_index_key label key' val' = build_prop_index_key label key val"
    for key val key' val'
    using inj[OF that(4)] that(1-3) by auto
  show ?thesis (is "?old \<and> \<not> ?gone \<or> ?added \<longleftrightarrow> ?new")
  proof
    assume "?old \<and> \<not> ?gone \<or> ?added"
    then show ?new unfolding has_key_def by blast
  next
    assume ?new
    then obtain key val where kv: "map_of new key = Some val" "k = build_prop_index_key label key val"
      by (auto simp: has_key_def)
    show "?old \<and> \<not> ?gone \<or> ?added"
    proof (cases "map_of old key = Some val")
      case True
      then have "\<not> ?gone" using kept[OF True kv(1)] kv(2) by blast
      then show ?thesis using True kv(2) by (auto simp: has_key_def)
    next
      case False
      then have ?added using kv by blast
      then show ?thesis by (rule disjI2)
    qed
  qed
qed

context kvs_strict
begin

lemma update_index_law:
  assumes "valid s" "packed_index (content s (property_index_handle so))" "iteration_order ord"
    and "nul \<notin> set label" "\<forall>key\<in>fst ` set (parse_json_properties old) \<union> fst ` set (parse_json_properties new). nul \<notin> set key"
    and "\<forall>k. i \<in> set (index_ids (content s (property_index_handle so)) k) \<longleftrightarrow> has_key label (parse_json_properties old) k"
  shows "valid (update_node_index K ord tx so i label old new s)
    \<and> packed_index (content (update_node_index K ord tx so i label old new s) (property_index_handle so))
    \<and> (i \<in> set (index_ids (content (update_node_index K ord tx so i label old new s) (property_index_handle so)) k)
         \<longleftrightarrow> has_key label (parse_json_properties new) k)
    \<and> filter (\<lambda>j. j \<noteq> i) (index_ids (content (update_node_index K ord tx so i label old new s) (property_index_handle so)) k)
      = filter (\<lambda>j. j \<noteq> i) (index_ids (content s (property_index_handle so)) k)"
proof -
  let ?h = "property_index_handle so"
  let ?o = "ord (AList.clearjunk (parse_json_properties old))"
  let ?n = "ord (AList.clearjunk (parse_json_properties new))"
  define s1 where "s1 = fold (\<lambda>(key, val). remove_index_entry K tx ?h (build_prop_index_key label key val) i) (changed_entries ?o ?n) s"
  define s2 where "s2 = fold (\<lambda>(key, val). add_index_entry K tx ?h (build_prop_index_key label key val) i) (changed_entries ?n ?o) s1"
  have run: "update_node_index K ord tx so i label old new s = s2"
    by (simp add: update_node_index_def Let_def s1_def s2_def)
  note R = remove_entries_law[OF assms(1,2), of tx label i "changed_entries ?o ?n" k, folded s1_def]
  have v1: "valid s1" "packed_index (content s1 ?h)" using R by blast+
  note A = add_entries_law[OF v1, of tx label i "changed_entries ?n ?o" k, folded s2_def]
  have ids: "index_ids (content s2 ?h) k = (if key_count label (changed_entries ?o ?n) k = 0 then index_ids (content s ?h) k
      else filter (\<lambda>j. j \<noteq> i) (index_ids (content s ?h) k)) @ replicate (key_count label (changed_entries ?n ?o) k) i"
    using A R by simp
  define gone where "gone \<longleftrightarrow> (\<exists>key val. map_of (parse_json_properties old) key = Some val \<and>
      map_of (parse_json_properties new) key \<noteq> Some val \<and> build_prop_index_key label key val = k)"
  define added where "added \<longleftrightarrow> (\<exists>key val. map_of (parse_json_properties new) key = Some val \<and>
      map_of (parse_json_properties old) key \<noteq> Some val \<and> build_prop_index_key label key val = k)"
  have C: "key_count label (changed_entries ?o ?n) k \<noteq> 0 \<longleftrightarrow> gone" "key_count label (changed_entries ?n ?o) k \<noteq> 0 \<longleftrightarrow> added"
    unfolding gone_def added_def by (rule changed_count[OF assms(3)])+
  have "i \<in> set (index_ids (content s2 ?h) k) \<longleftrightarrow> has_key label (parse_json_properties old) k \<and> \<not> gone \<or> added"
    unfolding ids using spec[OF assms(6), of k] C by (cases gone; cases added) simp_all
  also have "\<dots> \<longleftrightarrow> has_key label (parse_json_properties new) k"
    unfolding gone_def added_def using changed_keys[OF assms(4)] assms(5) by blast
  finally have mem: "i \<in> set (index_ids (content s2 ?h) k) \<longleftrightarrow> has_key label (parse_json_properties new) k" .
  moreover have "filter (\<lambda>j. j \<noteq> i) (index_ids (content s2 ?h) k) = filter (\<lambda>j. j \<noteq> i) (index_ids (content s ?h) k)"
    unfolding ids by simp
  ultimately show ?thesis unfolding run using A by blast
qed

lemma update_lookup_law:
  assumes "valid s" "graph_inv (content s) so" "tx \<noteq> 0" "i < next_id so"
    and "packed_index (content s (property_index_handle so))" "iteration_order ord"
    and "label \<noteq> []" "nul \<notin> set label" "nul \<notin> set key"
    and "\<forall>key\<in>fst ` set (parse_json_properties old) \<union> fst ` set (parse_json_properties new). nul \<notin> set key"
    and "nodes_of (content s) so i = Some old" "old \<noteq> []" "old \<noteq> ''{}''"
    and "\<forall>k. i \<in> set (index_ids (content s (property_index_handle so)) k) \<longleftrightarrow> has_key label (parse_json_properties old) k"
  shows "\<exists>s' s'' ids. update_node_with_label K ord tx so i label new s = (True, s')
    \<and> find_nodes_by_property K tx so label key val s' = (Some ids, s'')
    \<and> (i \<in> set ids \<longleftrightarrow> (\<exists>v. map_of (parse_json_properties new) key = Some v \<and> value_class v = value_class val))
    \<and> filter (\<lambda>j. j \<noteq> i) ids =
        filter (\<lambda>j. j \<noteq> i) (index_ids (content s (property_index_handle so)) (build_prop_index_key label key val))"
proof -
  let ?h = "property_index_handle so" and ?k = "build_prop_index_key label key val"
  obtain sg where g: "get_node K tx so i s = (Some old, sg)" "content sg = content s" "valid sg"
    using get_node_law[OF assms(1-3), of i] assms(11) by auto
  define s1 where "s1 = update_node_index K ord tx so i label old new sg"
  note U = update_index_law[where s = sg and tx = tx, unfolded g(2), OF g(3) assms(5,6,8,10,14), folded s1_def]
  have v1: "valid s1" using U by blast
  have inv1: "graph_inv (content s1) so"
    using same_graph(1)[OF assms(2), of "content s1"] update_index_frame[OF g(3), of ord tx so i label old new] g(2)
    by (auto simp: s1_def)
  obtain s' where s': "content_put K tx (nodes_handle so) (to_key i) new Create_or_update s1 = (Ok, s')" "valid s'"
    "content s' ?h = content s1 ?h"
    using write_node_law[OF v1 inv1 assms(4), of tx new] by blast
  have guard: "(tx = 0 \<or> nodes_handle so = []) = False" "(label = []) = False" "(old \<noteq> [] \<and> old \<noteq> ''{}'') = True"
    using assms(3,7,12,13) graph_inv_handles(3)[OF assms(2)] by simp_all
  have "update_node_with_label K ord tx so i label new s =
      (case content_put K tx (nodes_handle so) (write_key i) new Create_or_update s1 of (rc, s2) \<Rightarrow> (rc = Ok, s2))"
    by (simp only: update_node_with_label_def guard if_False if_True Let_def g(1) prod.case option.case s1_def)
  then have run: "update_node_with_label K ord tx so i label new s = (True, s')" using s'(1) by simp
  obtain s'' where "find_nodes_by_property K tx so label key val s' = (Some (index_ids (content s1 ?h) ?k), s'')"
    using find_law[OF s'(2) assms(3) graph_inv_handles(8)[OF assms(2)], of label key val] s'(3) by auto
  moreover have "has_key label (parse_json_properties new) ?k \<longleftrightarrow>
      (\<exists>v. map_of (parse_json_properties new) key = Some v \<and> value_class v = value_class val)"
  proof
    assume "has_key label (parse_json_properties new) ?k"
    then obtain key' v where kv: "map_of (parse_json_properties new) key' = Some v" "?k = build_prop_index_key label key' v"
      by (auto simp: has_key_def)
    moreover have "nul \<notin> set key'" using assms(10) kv(1) by (force dest: map_of_SomeD)
    ultimately show "\<exists>v. map_of (parse_json_properties new) key = Some v \<and> value_class v = value_class val"
      using index_key_eq[OF assms(8,8,9), of key' val v] by auto
  next
    assume "\<exists>v. map_of (parse_json_properties new) key = Some v \<and> value_class v = value_class val"
    then obtain v where v: "map_of (parse_json_properties new) key = Some v" "value_class val = value_class v" by auto
    then have "?k = build_prop_index_key label key v" using index_key_eq[OF assms(8,8,9,9), of val v] by blast
    then show "has_key label (parse_json_properties new) ?k" using v(1) by (auto simp: has_key_def)
  qed
  ultimately show ?thesis using run U[of ?k] by metis
qed

end

section \<open>Properties\<close>

text \<open>A storage object and an empty mock store, as \<open>init\<close> leaves them.\<close>

definition opened :: storage where
  "opened = new_storage\<lparr>nodes_handle := storage_name_nodes, edges_handle := storage_name_edges,
     out_index_handle := storage_name_out_index, in_index_handle := storage_name_in_index,
     label_index_handle := storage_name_label_index, property_index_handle := storage_name_property_index\<rparr>"

lemmas storage_names =
  storage_name_nodes_def storage_name_edges_def storage_name_out_index_def storage_name_in_index_def
  storage_name_label_index_def storage_name_property_index_def

lemma empty_graph_inv: "(\<And>h. c h = []) \<Longrightarrow> graph_inv c opened"
  by (simp add: graph_inv_def all_handles_def opened_def storage_names ids_below_def index_sound_def labels_sound_def
      in_bounds_def map_keys_def edge_at_def)

lemma opened_mock: "graph_inv (mock_db_state empty_mock) opened"
  by (rule empty_graph_inv) (simp add: empty_mock_def)

lemma opened_graph:
  "graph_of (mock_db_state empty_mock) opened =
     \<lparr>g_next = 1, g_nodes = (\<lambda>i. None), g_edges = (\<lambda>e. None), g_label = (\<lambda>l i. False)\<rparr>"
  by (simp add: graph_of_def opened_def new_storage_def nodes_of_def edges_of_def edge_at_def labelled_def
      map_keys_def empty_mock_def fun_eq_iff)

text \<open>What a run on the empty mock leaves behind.\<close>

definition after_run :: "graph_op list \<Rightarrow> storage \<times> mock_state" where
  "after_run ops = snd (store_run mock_kvs id 1 ops (opened, empty_mock))"

lemma after_run_ok:
  assumes "run_ok ops (graph_of (mock_db_state empty_mock) opened)"
  shows "mock_valid (snd (after_run ops))" "graph_inv (mock_db_state (snd (after_run ops))) (fst (after_run ops))"
    "graph_of (mock_db_state (snd (after_run ops))) (fst (after_run ops)) =
       snd (graph_run ops (graph_of (mock_db_state empty_mock) opened))"
  using mock.run_refines[OF empty_mock_valid opened_mock _ assms, of 1 id] by (auto simp: after_run_def)

lemma labels_alone:
  assumes "graph_inv c so" "\<And>l i. labelled c so l i \<Longrightarrow> prefix label (l @ to_key i) \<Longrightarrow> length l = length label"
  shows "label_alone (c (label_index_handle so)) label"
  using assms unfolding label_alone_def graph_inv_def labels_sound_def labelled_def by fastforce

text \<open>C2: on every store with the documented laws, any sequence of creations, updates of existing nodes and
  deletions (of a node without giving its label, which empties its text and leaves its labels; of
  an edge) changes the stored graph exactly as the abstract property graph changes, returns the
  same ids, and keeps the invariant that ties ids, edges and indexes together, as long as the ids
  do not run out and the labels of edges have a length of 32 bits.\<close>

theorem store_run_is_graph:
  assumes "kvs_basic K content valid" "valid s" "graph_inv (content s) so" "tx \<noteq> 0"
    and "run_ok ops (graph_of (content s) so)" "store_run K ord tx ops (so, s) = (rs, so', s')"
  shows "(rs, graph_of (content s') so') = graph_run ops (graph_of (content s) so)
    \<and> valid s' \<and> graph_inv (content s') so'"
proof -
  obtain so2 s2 where "store_run K ord tx ops (so, s) = (fst (graph_run ops (graph_of (content s) so)), so2, s2)"
    "graph_of (content s2) so2 = snd (graph_run ops (graph_of (content s) so))" "valid s2" "graph_inv (content s2) so2"
    using kvs_basic.run_refines[OF assms(1-5), of ord] by blast
  with assms(6) show ?thesis by (auto simp: prod_eq_iff)
qed

lemma store_run_is_graph_witness:
  "fst (store_run mock_kvs id 1 [New_node ''Person'' ''{}'', New_node ''Person'' ''{}'', New_edge 1 2 ''KNOWS'' ''{}'', Remove_edge 3] (opened, empty_mock))
     = [Some 1, Some 2, Some 3, None]"
proof -
  let ?ops = "[New_node ''Person'' ''{}'', New_node ''Person'' ''{}'', New_edge 1 2 ''KNOWS'' ''{}'', Remove_edge 3]"
  obtain rs so' s' where run: "store_run mock_kvs id 1 ?ops (opened, empty_mock) = (rs, so', s')"
    by (cases "store_run mock_kvs id 1 ?ops (opened, empty_mock)")
  have "run_ok ?ops (graph_of (mock_db_state empty_mock) opened)" by (simp add: opened_graph)
  from store_run_is_graph[OF mock.kvs_basic_axioms empty_mock_valid opened_mock _ this run]
  show ?thesis using run by (simp add: opened_graph Let_def)
qed

definition deleted_edges :: "(handle \<Rightarrow> (bytes \<times> bytes) list) \<Rightarrow> storage \<Rightarrow> u64 set" where
  "deleted_edges c so = {e. to_key e \<in> map_keys (c (edges_handle so)) \<and> edges_of c so e = None}"

text \<open>C23: the edge lists of a node are in increasing order.  Of the listed edges, those that are not
  deleted are exactly the edges of the graph that start (end) at the node; whatever else is
  listed is a deleted edge, whose key is still in the storage of edges.  (Deleted edges do stay
  listed: \<open>stale_scans\<close>.)\<close>

theorem edge_lists_exact:
  assumes "kvs_basic K content valid" "valid s" "graph_inv (content s) so" "tx \<noteq> 0"
  shows "\<exists>outs s1 ins s2. get_outgoing_edges K tx so n s = (Some outs, s1) \<and> get_incoming_edges K tx so n s = (Some ins, s2)
    \<and> sorted_wrt (<) outs \<and> sorted_wrt (<) ins
    \<and> {e. e \<in> set outs \<and> edges_of (content s) so e \<noteq> None} = {e. \<exists>d. edges_of (content s) so e = Some d \<and> from_id d = n}
    \<and> {e. e \<in> set ins \<and> edges_of (content s) so e \<noteq> None} = {e. \<exists>d. edges_of (content s) so e = Some d \<and> to_id d = n}
    \<and> {e. e \<in> set outs \<and> edges_of (content s) so e = None} \<subseteq> deleted_edges (content s) so
    \<and> {e. e \<in> set ins \<and> edges_of (content s) so e = None} \<subseteq> deleted_edges (content s) so"
proof -
  have exact: "{e. to_key n @ to_key e \<in> map_keys idx \<and> edge_at edges e \<noteq> None} = {e. \<exists>d. edge_at edges e = Some d \<and> at d = n}"
    and stored: "to_key n @ to_key e \<in> map_keys idx \<Longrightarrow> to_key e \<in> map_keys edges"
    if "index_sound edges idx at" for edges idx at e
    using that unfolding index_sound_def by fastforce+
  have inv: "index_sound (content s (edges_handle so)) (content s (out_index_handle so)) from_id"
    "index_sound (content s (edges_handle so)) (content s (in_index_handle so)) to_id"
    using assms(3) unfolding graph_inv_def by blast+
  show ?thesis
    using kvs_basic.outgoing_law[OF assms, of n] kvs_basic.incoming_law[OF assms, of n]
      stored[OF inv(1)] stored[OF inv(2)]
    unfolding edges_of_def deleted_edges_def exact[OF inv(1), symmetric] exact[OF inv(2), symmetric] by fastforce
qed

text \<open>Three edges, of which the second is deleted.\<close>

lemma edge_lists_exact_witness:
  "\<exists>so s outs s1 ins s2. (so, s) = after_run [New_edge 5 6 [] [], New_edge 5 7 [] [], New_edge 6 5 [] [], Remove_edge 2]
    \<and> get_outgoing_edges mock_kvs 1 so 5 s = (Some outs, s1) \<and> get_incoming_edges mock_kvs 1 so 5 s = (Some ins, s2)
    \<and> {e. e \<in> set outs \<and> edges_of (mock_db_state s) so e \<noteq> None} = {1}
    \<and> {e. e \<in> set ins \<and> edges_of (mock_db_state s) so e \<noteq> None} = {3}"
proof -
  let ?ops = "[New_edge 5 6 [] [], New_edge 5 7 [] [], New_edge 6 5 [] [], Remove_edge 2]"
  let ?so = "fst (after_run ?ops)" and ?s = "snd (after_run ?ops)"
  have "run_ok ?ops (graph_of (mock_db_state empty_mock) opened)" by (simp add: opened_graph)
  note ok = after_run_ok[OF this]
  have "g_edges (graph_of (mock_db_state ?s) ?so) = [1 \<mapsto> \<lparr>from_id = 5, to_id = 6, edge_label = [], edge_properties = []\<rparr>,
      3 \<mapsto> \<lparr>from_id = 6, to_id = 5, edge_label = [], edge_properties = []\<rparr>]"
    unfolding ok(3) by (simp add: opened_graph fun_eq_iff)
  then have e: "edges_of (mock_db_state ?s) ?so = [1 \<mapsto> \<lparr>from_id = 5, to_id = 6, edge_label = [], edge_properties = []\<rparr>,
      3 \<mapsto> \<lparr>from_id = 6, to_id = 5, edge_label = [], edge_properties = []\<rparr>]"
    by (simp only: graph_of_def graph.select_convs)
  have live: "{i. \<exists>d. edges_of (mock_db_state ?s) ?so i = Some d \<and> from_id d = 5} = {1}"
    "{i. \<exists>d. edges_of (mock_db_state ?s) ?so i = Some d \<and> to_id d = 5} = {3}"
    unfolding e by auto
  from edge_lists_exact[OF mock.kvs_basic_axioms ok(1,2), of 1 5, unfolded live] show ?thesis
    by (intro exI[of _ ?so] exI[of _ ?s]) auto
qed

text \<open>C25: when no other label of the index continues the label (as PX continues P), the label lookup
  returns the ids of exactly the nodes created with it, once each and in increasing order, and the streaming
  iterator of ADR-0012 delivers the same ids in the same order.\<close>

theorem label_lookup_exact:
  assumes "kvs_basic K content valid" "valid s" "graph_inv (content s) so" "tx \<noteq> 0" "label \<noteq> []"
    and "label_alone (content s (label_index_handle so)) label"
  shows "\<exists>ids s'. find_nodes_by_label K tx so label s = (Some ids, s') \<and> sorted_wrt (<) ids
    \<and> set ids = {i. labelled (content s) so label i}
    \<and> label_drain (fst (find_nodes_by_label_iter K tx so label s)) = ids"
proof -
  obtain ids s' where *: "find_nodes_by_label K tx so label s = (Some ids, s')" "sorted_wrt (<) ids"
    "set ids = {i. labelled (content s) so label i}"
    using kvs_basic.find_label_law[OF assms] by blast
  moreover have "label_drain (fst (find_nodes_by_label_iter K tx so label s)) = ids"
    using kvs_basic.label_stream_law[OF assms] unfolding *(1) by simp
  ultimately show ?thesis by blast
qed

text \<open>Two people and a city between them.\<close>

lemma label_lookup_exact_witness:
  "\<exists>so s s'. (so, s) = after_run [New_node ''Person'' [], New_node ''City'' [], New_node ''Person'' []]
    \<and> find_nodes_by_label mock_kvs 1 so ''Person'' s = (Some [1, 3], s')
    \<and> label_drain (fst (find_nodes_by_label_iter mock_kvs 1 so ''Person'' s)) = [1, 3]"
proof -
  define ops where "ops = [New_node ''Person'' [], New_node ''City'' [], New_node ''Person'' []]"
  obtain so s where run: "after_run ops = (so, s)" by (cases "after_run ops")
  have "run_ok ops (graph_of (mock_db_state empty_mock) opened)" by (simp add: opened_graph ops_def)
  note ok = after_run_ok[OF this, unfolded run fst_conv snd_conv]
  have "g_label (graph_of (mock_db_state s) so) = (\<lambda>l i. l = ''Person'' \<and> (i = 1 \<or> i = 3) \<or> l = ''City'' \<and> i = 2)"
    unfolding ok(3) ops_def by (auto simp add: opened_graph fun_eq_iff)
  then have l: "labelled (mock_db_state s) so = (\<lambda>l i. l = ''Person'' \<and> (i = 1 \<or> i = 3) \<or> l = ''City'' \<and> i = 2)"
    by (simp only: graph_of_def graph.select_convs)
  have alone: "label_alone (mock_db_state s (label_index_handle so)) ''Person''"
    by (rule labels_alone[OF ok(2)]) (auto simp only: l, simp_all)
  have plain: "(1 :: nat) \<noteq> 0" "''Person'' \<noteq> []" by simp_all
  obtain ids s' where
    *: "find_nodes_by_label mock_kvs 1 so ''Person'' s = (Some ids, s')" "sorted_wrt (<) ids"
      "set ids = {i. labelled (mock_db_state s) so ''Person'' i}"
      "label_drain (fst (find_nodes_by_label_iter mock_kvs 1 so ''Person'' s)) = ids"
    using label_lookup_exact[OF mock.kvs_basic_axioms ok(1,2) plain alone] by blast
  have "ids = [1, 3]" by (rule strict_sorted_equal[OF _ *(2)]) (auto simp: *(3) l)
  then show ?thesis using *(1,4) run unfolding ops_def by metis
qed

text \<open>C27: ids are handed out one after the other without a gap, and at every moment the sequence has
  been set to at least every id handed out, although it is written for one id in 64 only.\<close>

theorem allocated_ids_reserved:
  assumes "kvs_sequences K content valid persisted" "valid s" "batch_inv persisted so s"
    and "uint (next_id so) + int n + 64 < 2 ^ 63" "0 < n"
  shows "\<exists>is so' s' v. allocate_ids K tx n so s = (is, so', s')
    \<and> map uint is = map (\<lambda>k. uint (next_id so) + int k) [0..<n]
    \<and> persisted s' (sequence_id so) = Some v \<and> (\<forall>i\<in>set is. uint i \<le> v)"
proof -
  obtain "is" so' s' v where *: "allocate_ids K tx n so s = (is, so', s')"
    "map uint is = map (\<lambda>k. uint (next_id so) + int k) [0..<n]"
    "persisted s' (sequence_id so) = Some v" "uint (next_id so) + int n - 1 \<le> v"
    using kvs_sequences.allocate_many[OF assms(1-4), of tx] assms(5) by blast
  have "uint i \<le> v" if "i \<in> set is" for i
  proof -
    have "uint i \<in> set (map uint is)" using that by simp
    then show ?thesis unfolding *(2) using *(4) by auto
  qed
  then show ?thesis using * by blast
qed

lemma allocated_ids_reserved_witness:
  "\<exists>is so' s' v. allocate_ids mock_kvs 1 100 new_storage empty_mock = (is, so', s') \<and> mock_persisted s' 0 = Some v
    \<and> map uint is = map (\<lambda>k. 1 + int k) [0..<100]"
proof -
  have "batch_inv mock_persisted new_storage empty_mock" by (simp add: batch_inv_def new_storage_def)
  from allocated_ids_reserved[OF mock.kvs_sequences_axioms empty_mock_valid this, of 100 1]
  show ?thesis unfolding new_storage_def by (auto simp del: upt_Suc upt_rec_numeral)
qed

text \<open>C24: after \<open>update_node_with_label\<close>, with a label, on a stored node whose old text is not empty and
  whose entries in the property index are those of that text, an equality lookup finds the node
  exactly when its new text has a value of the same value class for the key, and what a lookup
  finds besides is unchanged, whatever the iteration order of the hash maps; label and property
  names are free of the separator byte and the store's CREATE is strict.\<close>

theorem update_keeps_index:
  assumes "kvs_strict K content valid" "valid s" "graph_inv (content s) so" "tx \<noteq> 0" "i < next_id so"
    and "packed_index (content s (property_index_handle so))" "iteration_order ord"
    and "label \<noteq> []" "nul \<notin> set label" "nul \<notin> set key"
    and "\<forall>key\<in>fst ` set (parse_json_properties old) \<union> fst ` set (parse_json_properties new). nul \<notin> set key"
    and "nodes_of (content s) so i = Some old" "old \<noteq> []" "old \<noteq> ''{}''"
    and "\<forall>k. i \<in> set (index_ids (content s (property_index_handle so)) k) \<longleftrightarrow> has_key label (parse_json_properties old) k"
  shows "\<exists>s' s'' ids. update_node_with_label K ord tx so i label new s = (True, s')
    \<and> find_nodes_by_property K tx so label key val s' = (Some ids, s'')
    \<and> (i \<in> set ids \<longleftrightarrow> (\<exists>v. map_of (parse_json_properties new) key = Some v \<and> value_class v = value_class val))
    \<and> filter (\<lambda>j. j \<noteq> i) ids =
        filter (\<lambda>j. j \<noteq> i) (index_ids (content s (property_index_handle so)) (build_prop_index_key label key val))"
  using kvs_strict.update_lookup_law[OF assms] .

definition bob_text :: string where "bob_text = ''{\"name\":\"Bob\"}''"
definition amy_text :: string where "amy_text = ''{\"name\":\"Amy\"}''"

lemma parse_texts: "parse_json_properties bob_text = [(''name'', ''Bob'')]" "parse_json_properties amy_text = [(''name'', ''Amy'')]"
  by code_simp+

text \<open>A store with the one node 1, whose text is \<open>bob_text\<close>.\<close>

definition one_node :: mock_state where
  "one_node = empty_mock\<lparr>mock_db_state := (\<lambda>h.
     if h = storage_name_nodes then [(to_key 1, bob_text)]
     else if h = storage_name_property_index then [(build_prop_index_key ''Person'' ''name'' ''Bob'', to_key 1)]
     else [])\<rparr>"

lemma one_node_store:
  "mock_valid one_node" "graph_inv (mock_db_state one_node) (opened\<lparr>next_id := 2\<rparr>)"
  "packed_index (mock_db_state one_node (property_index_handle opened))"
  "nodes_of (mock_db_state one_node) (opened\<lparr>next_id := 2\<rparr>) 1 = Some bob_text"
  "\<forall>k. 1 \<in> set (index_ids (mock_db_state one_node (property_index_handle opened)) k) \<longleftrightarrow> has_key ''Person'' (parse_json_properties bob_text) k"
proof -
  have names: "storage_name_nodes \<noteq> storage_name_property_index" by (simp add: storage_names)
  have p: "mock_db_state one_node (property_index_handle opened) = [(build_prop_index_key ''Person'' ''name'' ''Bob'', to_key 1)]"
    using names by (simp add: one_node_def opened_def)
  show "mock_valid one_node" by (simp add: mock_valid_def one_node_def sorted_map_def)
  show "graph_inv (mock_db_state one_node) (opened\<lparr>next_id := 2\<rparr>)"
    by (auto simp: graph_inv_def all_handles_def opened_def storage_names ids_below_def index_sound_def labels_sound_def
        in_bounds_def map_keys_def edge_at_def one_node_def intro: exI[of _ 1])
  show "packed_index (mock_db_state one_node (property_index_handle opened))"
    unfolding p by (simp add: packed_index_def)
  show "nodes_of (mock_db_state one_node) (opened\<lparr>next_id := 2\<rparr>) 1 = Some bob_text"
    by (simp add: nodes_of_def one_node_def opened_def)
  have "unpack_ids (to_key 1) = [1]" using unpack_to_key[of 1 "[]"] by simp
  then show "\<forall>k. 1 \<in> set (index_ids (mock_db_state one_node (property_index_handle opened)) k) \<longleftrightarrow>
      has_key ''Person'' (parse_json_properties bob_text) k"
    unfolding p by (simp add: index_ids_def has_key_def parse_texts)
qed

lemma update_keeps_index_witness:
  "\<exists>s' s'' ids. update_node_with_label ref_kvs id 1 (opened\<lparr>next_id := 2\<rparr>) 1 ''Person'' amy_text one_node = (True, s')
    \<and> find_nodes_by_property ref_kvs 1 (opened\<lparr>next_id := 2\<rparr>) ''Person'' ''name'' ''Amy'' s' = (Some ids, s'') \<and> 1 \<in> set ids"
proof -
  let ?so = "opened\<lparr>next_id := 2\<rparr>"
  have h: "property_index_handle ?so = property_index_handle opened" "1 < next_id ?so" by simp_all
  have names: "\<forall>key\<in>fst ` set (parse_json_properties bob_text) \<union> fst ` set (parse_json_properties amy_text). nul \<notin> set key"
    by (simp add: parse_texts)
  have plain: "(1 :: nat) \<noteq> 0" "''Person'' \<noteq> []" "nul \<notin> set ''Person''" "nul \<notin> set ''name''" "iteration_order id"
    "bob_text \<noteq> []" "bob_text \<noteq> ''{}''"
    by (simp_all add: iteration_order_def bob_text_def)
  show ?thesis
    using update_keeps_index[where K = ref_kvs and so = ?so, unfolded h(1), OF ref.kvs_strict_axioms one_node_store(1,2) plain(1) h(2)
        one_node_store(3) plain(5,2,3,4) names one_node_store(4) plain(6,7) one_node_store(5), of "''Amy''"]
    by (auto simp: parse_texts)
qed

section \<open>Starting again\<close>

text \<open>The storages that \<open>init\<close> opens.\<close>

definition all_storages :: "string list" where
  "all_storages = [storage_name_nodes, storage_name_edges, storage_name_out_index, storage_name_in_index,
     storage_name_label_index, storage_name_property_index]"

context kvs_opening
begin

lemma init_storage_law:
  assumes "valid s" "named s name = Some h"
  shows "\<exists>s'. init_storage K db name s = (True, h, s') \<and> content s' = content s \<and> valid s' \<and> named s' = named s"
proof -
  obtain h1 s1 where 1: "storage_create K db name s = (Already_exists, h1, s1)" "content s1 = content s" "valid s1" "named s1 = named s"
    using reopen_law[OF assms] by blast
  then have "named s1 name = Some h" using assms(2) by simp
  then obtain s2 where "storage_get K db name s1 = (Ok, h, s2)" "content s2 = content s1" "valid s2" "named s2 = named s1"
    using open_law[OF 1(3)] by blast
  then show ?thesis using 1 by (auto simp: init_storage_def)
qed

lemma init_storages_law:
  assumes "valid s" "\<forall>(name, f)\<in>set fs. named s name \<noteq> None"
  shows "\<exists>s'. init_storages K db fs so s = (True, fold (\<lambda>(name, f). f (the (named s name))) fs so, s')
    \<and> content s' = content s \<and> valid s' \<and> named s' = named s"
  using assms
proof (induction fs arbitrary: so s)
  case (Cons nf fs)
  obtain name f where nf: "nf = (name, f)" by (cases nf)
  then obtain h where h: "named s name = Some h" using Cons.prems(2) by auto
  obtain s1 where 1: "init_storage K db name s = (True, h, s1)" "content s1 = content s" "valid s1" "named s1 = named s"
    using init_storage_law[OF Cons.prems(1) h] by blast
  have "\<forall>(name, f)\<in>set fs. named s1 name \<noteq> None" using Cons.prems(2) 1(4) by auto
  from Cons.IH[OF 1(3) this] show ?case using 1 h nf by auto
qed auto

lemma init_again:
  assumes "valid s" "db \<noteq> 0" "\<forall>name\<in>set all_storages. named s name \<noteq> None"
  shows "\<exists>so' s'. init K db so s = (True, so', s') \<and> next_id so' = 1 \<and> nodes_handle so' = the (named s storage_name_nodes)
    \<and> content s' = content s \<and> valid s'"
proof -
  let ?fs = "[(storage_name_nodes, \<lambda>h. nodes_handle_update (\<lambda>_. h)),
               (storage_name_edges, \<lambda>h. edges_handle_update (\<lambda>_. h)),
               (storage_name_out_index, \<lambda>h. out_index_handle_update (\<lambda>_. h)),
               (storage_name_in_index, \<lambda>h. in_index_handle_update (\<lambda>_. h)),
               (storage_name_label_index, \<lambda>h. label_index_handle_update (\<lambda>_. h)),
               (storage_name_property_index, \<lambda>h. property_index_handle_update (\<lambda>_. h))]"
  let ?so1 = "fold (\<lambda>(name, f). f (the (named s name))) ?fs so"
  have "\<forall>(name, f)\<in>set ?fs. named s name \<noteq> None" using assms(3) by (simp add: all_storages_def)
  from init_storages_law[OF assms(1) this, of db so] obtain s1 where
    1: "init_storages K db ?fs so s = (True, ?so1, s1)" "content s1 = content s" "valid s1" by blast
  obtain i s2 rc ver val s3 where 2: "sequence_create K db s1 = (Ok, i, s2)" "sequence_get K db i s2 = (rc, ver, val, s3)"
    "content s3 = content s1" "valid s3" "rc = Ok \<longrightarrow> val = 0"
    using fresh_sequence_law[OF 1(3)] by blast
  obtain so2 where so2: "init_sequence K db ?so1 s1 = (so2, s3)" "next_id so2 = 1" "nodes_handle so2 = nodes_handle ?so1"
    using 2 by (cases "rc = Ok") (auto simp: init_sequence_def)
  have "init K db so s = (True, so2, s3)" using assms(2) 1(1) so2(1) by (simp add: init_def del: init_storages.simps fold_simps)
  then show ?thesis using so2 1 2 by simp
qed

text \<open>Creations whose ids are taken are refused, one after the other.\<close>

lemma refused_creations:
  assumes "valid s" "tx \<noteq> 0" "nodes_handle so \<noteq> []"
    and "\<forall>k<length ns. to_key (next_id so + of_nat k) \<in> map_keys (content s (nodes_handle so))"
  shows "\<exists>so' s'. store_run K ord tx (map (\<lambda>(l, p). New_node l p) ns) (so, s) = (replicate (length ns) None, so', s')
    \<and> content s' = content s"
  using assms
proof (induction ns arbitrary: so s)
  case (Cons lp ns)
  obtain l p where lp: "lp = (l, p)" by (cases lp)
  obtain so1 s1 where 1: "allocate_id K tx so s = (next_id so, so1, s1)" "next_id so1 = next_id so + 1" "same_handles so so1"
    "content s1 = content s" "valid s1" using allocate_law[OF Cons.prems(1)] by blast
  have h: "nodes_handle so1 = nodes_handle so" using 1(3) by (simp add: same_handles_def)
  have "to_key (next_id so) \<in> map_keys (content s (nodes_handle so))" using Cons.prems(4)[rule_format, of 0] by simp
  then obtain s2 where 2: "content_put K tx (nodes_handle so1) (to_key (next_id so)) p Create s1 = (Already_exists, s2)"
    "content s2 = content s1" "valid s2"
    using create_existing[OF 1(5), of "to_key (next_id so)" "nodes_handle so1" tx p] 1(4) h by (auto simp: map_keys_def)
  have "create_node K tx so l p s = (None, so1, s2)" using Cons.prems(2,3) 1(1) 2(1) by (simp add: create_node_def)
  moreover have "\<forall>k<length ns. to_key (next_id so1 + of_nat k) \<in> map_keys (content s2 (nodes_handle so1))"
  proof (intro allI impI)
    fix k assume "k < length ns"
    then show "to_key (next_id so1 + of_nat k) \<in> map_keys (content s2 (nodes_handle so1))"
      using Cons.prems(4)[rule_format, of "Suc k"] 1(2,4) 2(2) h by (simp add: add.assoc)
  qed
  from Cons.IH[OF 2(3) Cons.prems(2) _ this, of] obtain so' s' where
    "store_run K ord tx (map (\<lambda>(l, p). New_node l p) ns) (so1, s2) = (replicate (length ns) None, so', s')" "content s' = content s2"
    using Cons.prems(3) h by auto
  ultimately show ?case using lp 1(4) 2(2) by auto
qed simp

end



text \<open>A label that continues another is found by the other's lookup, with an id that no node has;
  and an edge that was deleted stays in the list of its node, where only its value is gone.\<close>

lemma stale_scans:
  "(case create_node mock_kvs 1 opened ''PX'' [] empty_mock of (i, so, s) \<Rightarrow>
     (i, fst (find_nodes_by_label mock_kvs 1 so ''P'' s))) = (Some 1, Some [from_key_ptr (''X'' @ to_key 1)])
   \<and> (case create_edge mock_kvs 1 opened 5 6 [] [] empty_mock of (e, so, s) \<Rightarrow>
     case delete_edge mock_kvs 1 so 1 s of (b, s1) \<Rightarrow>
       (b, fst (get_outgoing_edges mock_kvs 1 so 5 s1), fst (get_edge mock_kvs 1 so 1 s1)))
     = (Decoded True, Some [1], Rejected)"
proof
  have le: "''P'' \<le> ''PX'' @ to_key 1" by (rule prefix_le) simp
  have le5: "to_key 5 \<le> to_key 5 @ to_key 1" by (rule prefix_le) simp
  note ops = storage_names opened_def new_storage_def empty_mock_def allocate_id_def mock_sequence_put_def
    mock_content_put_def mock_content_get_def mock_content_scan_def prefix_scan_def readable_def above_point_def
    sequence_batch_size_def
  have kvs: "sequence_put mock_kvs = mock_sequence_put" "content_put mock_kvs = mock_content_put" by simp_all
  show "(case create_node mock_kvs 1 opened ''PX'' [] empty_mock of (i, so, s) \<Rightarrow>
     (i, fst (find_nodes_by_label mock_kvs 1 so ''P'' s))) = (Some 1, Some [from_key_ptr (''X'' @ to_key 1)])"
    using le by (simp add: create_node_def find_nodes_by_label_def ops)
  have dec: "decode_edge (encode_edge 5 6 [] []) = Decoded \<lparr>from_id = 5, to_id = 6, edge_label = [], edge_properties = []\<rparr>"
    by (rule decode_encode_edge) simp
  show "(case create_edge mock_kvs 1 opened 5 6 [] [] empty_mock of (e, so, s) \<Rightarrow>
     case delete_edge mock_kvs 1 so 1 s of (b, s1) \<Rightarrow>
       (b, fst (get_outgoing_edges mock_kvs 1 so 5 s1), fst (get_edge mock_kvs 1 so 1 s1)))
     = (Decoded True, Some [1], Rejected)"
    using le5 dec by (simp add: create_edge_def delete_edge_def get_edge_def get_outgoing_edges_def ops)
qed

end
