(* ===== verification/Executor.thy ===== *)
theory Executor
  imports Storage Ast
begin

text \<open>
  The executor of \<open>core/executor.cpp\<close>.  The symbol tables of class \<open>executor\<close>, the storage object
  it refers to, the state of the store and the result text are one record that every clause
  takes and returns.  \<open>return false\<close> is \<open>Failed\<close>, an exception \<open>Thrown\<close>, and what the C++
  standard leaves undefined \<open>Undefined\<close>; after the latter the state means nothing.  The
  iteration order of the hash maps is a parameter (\<open>hash_orders\<close>).
\<close>

section \<open>State\<close>

datatype status = Done | Failed | Thrown | Undefined

record unwind_binding =
  binding_properties :: "string \<Rightarrow> string option"
  binding_is_string :: "string \<Rightarrow> bool option"

record 's exec =
  ctx :: "string \<Rightarrow> u64 list option"
  ctx_labels :: "string \<Rightarrow> string option"
  unwind_ctx :: "string \<Rightarrow> unwind_binding option"
  store_obj :: storage
  kv :: 's
  result_json :: string

definition new_exec :: "storage \<Rightarrow> 's \<Rightarrow> 's exec" where
  "new_exec so s = \<lparr>ctx = (\<lambda>_. None), ctx_labels = (\<lambda>_. None), unwind_ctx = (\<lambda>_. None),
     store_obj = so, kv = s, result_json = []\<rparr>"

type_synonym pending = "(u64 \<times> string \<times> string) list"

record hash_orders =
  string_order :: hash_order
  pending_order :: "pending \<Rightarrow> pending"

text \<open>A loop that returns at the first step that is not \<open>Done\<close>.\<close>

fun run_all :: "('x \<Rightarrow> 'a \<Rightarrow> status \<times> 'a) \<Rightarrow> 'x list \<Rightarrow> 'a \<Rightarrow> status \<times> 'a" where
  "run_all f [] a = (Done, a)"
| "run_all f (x # xs) a = (let (st, a1) = f x a in if st = Done then run_all f xs a1 else (st, a1))"

definition batch_size :: nat where
  "batch_size = 1024"

definition parallel_threshold :: nat where
  "parallel_threshold = 10000"

definition json_quoted :: "string \<Rightarrow> string" where
  "json_quoted t = dquote # t @ [dquote]"

fun join :: "string \<Rightarrow> string list \<Rightarrow> string" where
  "join sep [] = []"
| "join sep [t] = t"
| "join sep (t # ts) = t @ sep @ join sep ts"

section \<open>Properties of a pattern\<close>

definition property_text :: "(string \<Rightarrow> unwind_binding option) \<Rightarrow> expression \<Rightarrow> string" where
  "property_text uw e =
     (case e of
        Literal v is_str \<Rightarrow> (if is_str then json_quoted v else v)
      | Property_access var key \<Rightarrow>
          (case uw var of
             None \<Rightarrow> []
           | Some b \<Rightarrow>
               (case binding_properties b key of
                  None \<Rightarrow> []
                | Some v \<Rightarrow> if binding_is_string b key = Some True then json_quoted v else v))
      | _ \<Rightarrow> [])"

definition evaluate_properties :: "(string \<Rightarrow> unwind_binding option) \<Rightarrow> property_map \<Rightarrow> string" where
  "evaluate_properties uw props =
     ''{'' @ join '', '' (map (\<lambda>(key, e). json_quoted key @ '': '' @ property_text uw e) props) @ ''}''"

section \<open>CREATE\<close>

text \<open>The first node bound to the variable, or a new node.\<close>

definition bound_or_new :: "'s kvs \<Rightarrow> tx_handle \<Rightarrow> pattern_node \<Rightarrow> 's exec \<Rightarrow> u64 option \<times> 's exec" where
  "bound_or_new K tx n x =
     (case (if node_variable n = [] then None else ctx x (node_variable n)) of
        Some (i # _) \<Rightarrow> (Some i, x)
      | _ \<Rightarrow>
          let props = evaluate_properties (unwind_ctx x) (node_props n);
              (r, so, s) = create_node K tx (store_obj x) (node_label n) props (kv x);
              x1 = x\<lparr>store_obj := so, kv := s\<rparr>
          in (case r of
                None \<Rightarrow> (None, x1)
              | Some i \<Rightarrow>
                  (Some i, if node_variable n = [] then x1 else x1\<lparr>ctx := (ctx x1)(node_variable n \<mapsto> [i])\<rparr>)))"

definition create_relationship ::
  "'s kvs \<Rightarrow> tx_handle \<Rightarrow> pattern_relationship \<Rightarrow> u64 \<Rightarrow> u64 \<Rightarrow> 's exec \<Rightarrow> status \<times> 's exec" where
  "create_relationship K tx r node_id next_node_id x =
     (let props = evaluate_properties (unwind_ctx x) (rel_props r);
          (from, to) = (if rel_direction r = ''<-'' then (next_node_id, node_id) else (node_id, next_node_id));
          (e, so, s) = create_edge K tx (store_obj x) from to (rel_type r) props (kv x);
          x1 = x\<lparr>store_obj := so, kv := s\<rparr>
      in case e of
           None \<Rightarrow> (Failed, x1)
         | Some i \<Rightarrow> (Done, if rel_variable r = [] then x1 else x1\<lparr>ctx := (ctx x1)(rel_variable r \<mapsto> [i])\<rparr>))"

fun create_elements :: "'s kvs \<Rightarrow> tx_handle \<Rightarrow> pattern_path \<Rightarrow> 's exec \<Rightarrow> status \<times> 's exec" where
  "create_elements K tx [] x = (Done, x)"
| "create_elements K tx (el # rest) x =
     (case bound_or_new K tx (elem_node el) x of
        (None, x1) \<Rightarrow> (Failed, x1)
      | (Some i, x1) \<Rightarrow>
          (case (elem_rel el, rest) of
             (Some r, next # _) \<Rightarrow>
               (case bound_or_new K tx (elem_node next) x1 of
                  (None, x2) \<Rightarrow> (Failed, x2)
                | (Some j, x2) \<Rightarrow>
                    let (st, x3) = create_relationship K tx r i j x2
                    in if st = Done then create_elements K tx rest x3 else (st, x3))
           | _ \<Rightarrow> create_elements K tx rest x1))"

definition execute_create :: "'s kvs \<Rightarrow> tx_handle \<Rightarrow> pattern_path list \<Rightarrow> 's exec \<Rightarrow> status \<times> 's exec" where
  "execute_create K tx paths x = run_all (create_elements K tx) paths x"

section \<open>MATCH\<close>

text \<open>\<open>std::set_intersection\<close> of two sorted ranges.\<close>

fun set_intersection :: "u64 list \<Rightarrow> u64 list \<Rightarrow> u64 list" where
  "set_intersection (a # as) (b # bs) =
     (if a < b then set_intersection as (b # bs)
      else if b < a then set_intersection (a # as) bs
      else a # set_intersection as bs)"
| "set_intersection _ _ = []"

text \<open>The intersection of the index lookups; \<open>None\<close> before the first one.\<close>

fun index_loop ::
  "'s kvs \<Rightarrow> tx_handle \<Rightarrow> storage \<Rightarrow> string \<Rightarrow> property_map \<Rightarrow> u64 list option \<Rightarrow> 's \<Rightarrow> bool \<times> u64 list option \<times> 's" where
  "index_loop K tx so label [] acc s = (True, acc, s)"
| "index_loop K tx so label ((key, e) # ps) acc s =
     (case e of
        Literal v is_str \<Rightarrow>
          (let (r, s1) = find_nodes_by_property K tx so label key v s in
           case r of
             None \<Rightarrow> (False, acc, s1)
           | Some ids \<Rightarrow>
               index_loop K tx so label ps
                 (Some (case acc of None \<Rightarrow> sort ids | Some is \<Rightarrow> set_intersection is (sort ids))) s1)
      | _ \<Rightarrow> (False, acc, s))"

definition inline_match :: "property_map \<Rightarrow> string \<Rightarrow> bool" where
  "inline_match ps props =
     list_all (\<lambda>(key, e). case e of Literal v is_str \<Rightarrow> get_json_value props key = v | _ \<Rightarrow> True) ps"

function filter_stream :: "'s kvs \<Rightarrow> property_map \<Rightarrow> label_iterator \<Rightarrow> 's \<Rightarrow> u64 list \<times> 's" where
  "filter_stream K ps li s =
     (let (ok, li1) = label_next li in
      if ok then
        let (p, s1) = iter_get_properties K li1 s;
            (ids, s2) = filter_stream K ps li1 s1
        in (case p of
              None \<Rightarrow> (ids, s2)
            | Some props \<Rightarrow> (if inline_match ps props then current_id li1 # ids else ids, s2))
      else ([], s))"
  by pat_completeness auto
termination filter_stream
  by (relation "measure (\<lambda>(K, ps, li, s). length (the (iter_it li)))") (auto dest: label_next_shorter[OF sym])

declare filter_stream.simps [simp del]

definition match_first :: "'s kvs \<Rightarrow> tx_handle \<Rightarrow> pattern_node \<Rightarrow> 's exec \<Rightarrow> 's exec" where
  "match_first K tx n x =
     (if node_label n = [] then x
      else
        let so = store_obj x; var = node_variable n;
            (all_indexed, found, s1) =
              (if node_props n = [] then (False, None, kv x)
               else index_loop K tx so (node_label n) (node_props n) None (kv x));
            x1 = x\<lparr>kv := s1\<rparr>;
            bind = (\<lambda>ids y. y\<lparr>ctx := (ctx y)(var \<mapsto> ids), ctx_labels := (ctx_labels y)(var \<mapsto> node_label n)\<rparr>)
        in (case (all_indexed, found) of
              (True, Some ids) \<Rightarrow> (if var = [] then x1 else bind ids x1)
            | _ \<Rightarrow>
                let (li, s2) = find_nodes_by_label_iter K tx so (node_label n) s1;
                    (ids, s3) = (if node_props n = [] then (label_drain li, s2)
                                 else filter_stream K (node_props n) li s2);
                    x2 = x1\<lparr>kv := s3\<rparr>
                in if var \<noteq> [] \<and> ids \<noteq> [] then bind ids x2 else x2))"

text \<open>
  The edges of one source node.  Pushing to the vector over which the outer loop iterates, when
  the relationship has the variable of the node before it, is undefined.
\<close>

fun hop_edges ::
  "'s kvs \<Rightarrow> tx_handle \<Rightarrow> pattern_relationship \<Rightarrow> string \<Rightarrow> u64 list option \<Rightarrow> u64 list \<Rightarrow> u64 list \<times> 's exec
     \<Rightarrow> status \<times> u64 list \<times> 's exec" where
  "hop_edges K tx r prev_var label_set [] (next_ids, x) = (Done, next_ids, x)"
| "hop_edges K tx r prev_var label_set (eid # eids) (next_ids, x) =
     (let (ed, s1) = get_edge K tx (store_obj x) eid (kv x); x1 = x\<lparr>kv := s1\<rparr> in
      case ed of
        Out_of_bounds \<Rightarrow> (Undefined, next_ids, x1)
      | Rejected \<Rightarrow> hop_edges K tx r prev_var label_set eids (next_ids, x1)
      | Decoded d \<Rightarrow>
          let target = (if rel_direction r \<noteq> ''<-'' then to_id d else from_id d) in
          if rel_type r \<noteq> [] \<and> edge_label d \<noteq> rel_type r then hop_edges K tx r prev_var label_set eids (next_ids, x1)
          else if (case label_set of None \<Rightarrow> False | Some l \<Rightarrow> target \<notin> set l)
          then hop_edges K tx r prev_var label_set eids (next_ids, x1)
          else if rel_variable r = [] then hop_edges K tx r prev_var label_set eids (next_ids @ [target], x1)
          else if rel_variable r = prev_var then (Undefined, next_ids, x1)
          else
            let bound = (case ctx x1 (rel_variable r) of None \<Rightarrow> [] | Some es \<Rightarrow> es) in
            hop_edges K tx r prev_var label_set eids
              (next_ids @ [target], x1\<lparr>ctx := (ctx x1)(rel_variable r \<mapsto> bound @ [eid])\<rparr>))"

definition hop_source ::
  "'s kvs \<Rightarrow> tx_handle \<Rightarrow> pattern_relationship \<Rightarrow> string \<Rightarrow> u64 list option \<Rightarrow> u64 \<Rightarrow> u64 list \<times> 's exec
     \<Rightarrow> status \<times> u64 list \<times> 's exec" where
  "hop_source K tx r prev_var label_set src acc =
     (let (next_ids, x) = acc;
          (es, s1) = (if rel_direction r \<noteq> ''<-'' then get_outgoing_edges K tx (store_obj x) src (kv x)
                      else get_incoming_edges K tx (store_obj x) src (kv x));
          edge_ids = (case es of None \<Rightarrow> [] | Some es' \<Rightarrow> es')
      in hop_edges K tx r prev_var label_set edge_ids (next_ids, x\<lparr>kv := s1\<rparr>))"

text \<open>The multi-hop loop; the cache maps a label to the ids that have it.\<close>

type_synonym label_cache = "string \<Rightarrow> u64 list option"

definition cache_label ::
  "'s kvs \<Rightarrow> tx_handle \<Rightarrow> string \<Rightarrow> label_cache \<Rightarrow> 's exec \<Rightarrow> label_cache \<times> 's exec" where
  "cache_label K tx label cache x =
     (if label = [] \<or> cache label \<noteq> None then (cache, x)
      else
        let (ids, s1) = find_nodes_by_label K tx (store_obj x) label (kv x)
        in (cache(label \<mapsto> (case ids of None \<Rightarrow> [] | Some l \<Rightarrow> l)), x\<lparr>kv := s1\<rparr>))"

fun match_hops :: "'s kvs \<Rightarrow> tx_handle \<Rightarrow> pattern_path \<Rightarrow> label_cache \<Rightarrow> 's exec \<Rightarrow> status \<times> 's exec" where
  "match_hops K tx (el # next # rest) cache x =
     (case elem_rel el of
        None \<Rightarrow> match_hops K tx (next # rest) cache x
      | Some r \<Rightarrow>
          let prev_var = node_variable (elem_node el); nn = elem_node next in
          (case (if prev_var = [] then None else ctx x prev_var) of
             None \<Rightarrow> match_hops K tx (next # rest) cache x
           | Some sources \<Rightarrow>
               let (cache1, x1) = cache_label K tx (node_label nn) cache x;
                   label_set = (if node_label nn = [] then None else cache1 (node_label nn));
                   (st, next_ids, x2) = run_all (hop_source K tx r prev_var label_set) sources ([], x1)
               in if st \<noteq> Done then (st, x2)
                  else
                    let x3 = (if node_variable nn = [] then x2
                              else let x' = x2\<lparr>ctx := (ctx x2)(node_variable nn \<mapsto> next_ids)\<rparr>
                                   in if node_label nn = [] then x'
                                      else x'\<lparr>ctx_labels := (ctx_labels x')(node_variable nn \<mapsto> node_label nn)\<rparr>)
                    in match_hops K tx (next # rest) cache1 x3))"
| "match_hops K tx _ cache x = (Done, x)"

fun match_path :: "'s kvs \<Rightarrow> tx_handle \<Rightarrow> pattern_path \<Rightarrow> 's exec \<Rightarrow> status \<times> 's exec" where
  "match_path K tx [] x = (Done, x)"
| "match_path K tx (el # rest) x =
     match_hops K tx (el # rest) (\<lambda>_. None) (match_first K tx (elem_node el) x)"

definition execute_match :: "'s kvs \<Rightarrow> tx_handle \<Rightarrow> pattern_path list \<Rightarrow> 's exec \<Rightarrow> status \<times> 's exec" where
  "execute_match K tx paths x = run_all (match_path K tx) paths x"

text \<open>MATCH and the WHERE behind it by one index lookup.\<close>

definition try_indexed_match_where ::
  "'s kvs \<Rightarrow> tx_handle \<Rightarrow> pattern_path list \<Rightarrow> where_clause \<Rightarrow> 's exec \<Rightarrow> bool \<times> 's exec" where
  "try_indexed_match_where K tx paths w x =
     (case paths of
        [[el]] \<Rightarrow>
          (let n = elem_node el in
           if node_label n = [] \<or> node_variable n = [] then (False, x)
           else if where_variable w \<noteq> node_variable n \<or> where_op w \<noteq> ''='' then (False, x)
           else if where_property w = [] then (False, x)
           else case deref_value w of
               Some (Literal v is_str) \<Rightarrow>
                 (let (r, s1) = find_nodes_by_property K tx (store_obj x) (node_label n) (where_property w) v (kv x);
                      x1 = x\<lparr>kv := s1\<rparr>
                  in case r of
                       None \<Rightarrow> (False, x1)
                     | Some ids \<Rightarrow> (True, x1\<lparr>ctx := (ctx x1)(node_variable n \<mapsto> ids),
                         ctx_labels := (ctx_labels x1)(node_variable n \<mapsto> node_label n)\<rparr>))
             | _ \<Rightarrow> (False, x))
      | _ \<Rightarrow> (False, x))"

end
