(* ===== verification/Query_Run.thy ===== *)
theory Query_Run
  imports Executor
begin

text \<open>
  The rest of the executor: WHERE with its index lookups and its batched scan, RETURN, DELETE,
  SET, UNWIND and the loop over the clauses of a statement.
\<close>

section \<open>WHERE\<close>

text \<open>The value to compare with: its text, and the number of a literal that is no string.\<close>

definition compare_literal :: "where_clause \<Rightarrow> string \<times> double option" where
  "compare_literal w =
     (case deref_value w of
        Some (Literal v is_str) \<Rightarrow>
          (v, if is_str then None else (case stod v of Stod n \<Rightarrow> Some n | _ \<Rightarrow> None))
      | _ \<Rightarrow> ([], None))"

definition filter_value :: "string \<Rightarrow> string \<Rightarrow> string \<Rightarrow> double option \<Rightarrow> string \<Rightarrow> bool" where
  "filter_value op key compare_value compare_numeric props =
     (let val = get_json_value props key in
      if val = [] then False
      else if op = ''='' then val = compare_value
      else case compare_numeric of
          Some c \<Rightarrow> (case stod val of Stod node_val \<Rightarrow> compare_numbers op node_val c | _ \<Rightarrow> False)
        | None \<Rightarrow> compare_strings op val compare_value)"

definition filter_node :: "(string \<Rightarrow> bool) \<Rightarrow> (u64 \<times> string) list \<Rightarrow> u64 \<Rightarrow> bool" where
  \<comment> \<open>the hash map keeps the last of several entries of an id\<close>
  "filter_node ok batch_results i = (case map_of (rev batch_results) i of None \<Rightarrow> False | Some props \<Rightarrow> ok props)"

text \<open>
  The parallel branch: every thread filters its slice and the results are put together in the
  order of the threads; \<open>hw\<close> is \<open>hardware_concurrency\<close>.  The threads share nothing they
  write to.
\<close>

definition parallel_filter :: "nat \<Rightarrow> (u64 \<Rightarrow> bool) \<Rightarrow> u64 list \<Rightarrow> u64 list" where
  "parallel_filter hw P ids =
     (let n = length ids;
          num_threads = max (min hw (n div 1000)) 2;
          chunk_sz = (n + num_threads - 1) div num_threads
      in concat (map (\<lambda>t. filter P (take chunk_sz (drop (t * chunk_sz) ids))) [0..<num_threads]))"

definition filter_chunk :: "nat \<Rightarrow> (u64 \<Rightarrow> bool) \<Rightarrow> u64 list \<Rightarrow> u64 list" where
  "filter_chunk hw P ids = (if length ids \<ge> parallel_threshold then parallel_filter hw P ids else filter P ids)"

function scan_batches ::
  "'s kvs \<Rightarrow> nat \<Rightarrow> tx_handle \<Rightarrow> storage \<Rightarrow> (string \<Rightarrow> bool) \<Rightarrow> u64 list \<Rightarrow> 's \<Rightarrow> u64 list \<times> 's" where
  "scan_batches K hw tx so ok ids s =
     (if ids = [] then ([], s)
      else
        let chunk = take batch_size ids;
            (r, s1) = get_nodes_batch K tx so chunk s;
            batch_results = (case r of None \<Rightarrow> [] | Some l \<Rightarrow> l);
            kept = filter_chunk hw (filter_node ok batch_results) chunk;
            (rest, s2) = scan_batches K hw tx so ok (drop batch_size ids) s1
        in (kept @ rest, s2))"
  by pat_completeness auto
termination scan_batches
  by (relation "measure (\<lambda>(K, hw, tx, so, ok, ids, s). length ids)") (auto simp: batch_size_def)

declare scan_batches.simps [simp del]

text \<open>The index lookup for the operator; \<open>None\<close> when the full scan has to be used.\<close>

definition where_index ::
  "'s kvs \<Rightarrow> tx_handle \<Rightarrow> storage \<Rightarrow> where_clause \<Rightarrow> string \<Rightarrow> string option \<Rightarrow> 's \<Rightarrow> u64 list option \<times> 's" where
  "where_index K tx so w compare_value label s =
     (case label of
        None \<Rightarrow> (None, s)
      | Some l \<Rightarrow>
          if l = [] then (None, s)
          else if where_op w = ''='' then find_nodes_by_property K tx so l (where_property w) compare_value s
          else if where_op w \<noteq> ''<>'' then find_nodes_by_property_range K tx so l (where_property w) (where_op w) compare_value s
          else (None, s))"

definition execute_where :: "'s kvs \<Rightarrow> nat \<Rightarrow> tx_handle \<Rightarrow> where_clause \<Rightarrow> 's exec \<Rightarrow> status \<times> 's exec" where
  "execute_where K hw tx w x =
     (if where_variable w = [] \<or> where_property w = [] then (Done, x)
      else case ctx x (where_variable w) of
          None \<Rightarrow> (Done, x)
        | Some ids \<Rightarrow>
            let (compare_value, compare_numeric) = compare_literal w;
                (found, s1) = where_index K tx (store_obj x) w compare_value (ctx_labels x (where_variable w)) (kv x)
            in (case found of
                  Some results \<Rightarrow>
                    (Done, x\<lparr>kv := s1, ctx := (ctx x)(where_variable w \<mapsto> set_intersection (sort ids) (sort results))\<rparr>)
                | None \<Rightarrow>
                    let (filtered, s2) = scan_batches K hw tx (store_obj x)
                          (filter_value (where_op w) (where_property w) compare_value compare_numeric) ids s1
                    in (Done, x\<lparr>kv := s2, ctx := (ctx x)(where_variable w \<mapsto> filtered)\<rparr>)))"

section \<open>RETURN\<close>

definition item_variable :: "return_item \<Rightarrow> string" where
  "item_variable it = (case item_expr it of Variable v \<Rightarrow> v | Property_access v k \<Rightarrow> v | _ \<Rightarrow> [])"

definition needed_vars :: "return_item list \<Rightarrow> string list" where
  \<comment> \<open>a \<open>std::set\<close>, in its order\<close>
  "needed_vars items = sort (remdups (filter (\<lambda>v. v \<noteq> []) (map item_variable items)))"

definition max_rows :: "(string \<Rightarrow> u64 list option) \<Rightarrow> return_item list \<Rightarrow> nat" where
  "max_rows c items =
     fold (\<lambda>v m. case c v of None \<Rightarrow> m | Some ids \<Rightarrow> max m (length ids)) (filter (\<lambda>v. v \<noteq> []) (map item_variable items)) 1"

text \<open>The properties of the rows of a batch, per variable.\<close>

fun load_batch ::
  "'s kvs \<Rightarrow> tx_handle \<Rightarrow> storage \<Rightarrow> (string \<Rightarrow> u64 list option) \<Rightarrow> nat \<Rightarrow> nat \<Rightarrow> string list
     \<Rightarrow> 's \<Rightarrow> (string \<Rightarrow> u64 \<Rightarrow> string option) \<times> 's" where
  "load_batch K tx so c start end [] s = ((\<lambda>_ _. None), s)"
| "load_batch K tx so c start end (v # vs) s =
     (let batch_ids = (case c v of None \<Rightarrow> [] | Some ids \<Rightarrow> take (end - start) (drop start ids));
          (entries, s1) =
            (if batch_ids = [] then ([], s)
             else let (r, s') = get_nodes_batch K tx so batch_ids s
                  in (case r of None \<Rightarrow> [] | Some l \<Rightarrow> l, s'));
          (cache, s2) = load_batch K tx so c start end vs s1
      in (cache(v := map_of (rev entries)), s2))"

definition edge_json :: "u64 \<Rightarrow> edge_data \<Rightarrow> string" where
  "edge_json i d =
     ''{'' @ json_quoted ''_id'' @ '': '' @ to_decimal (unat i)
     @ '', '' @ json_quoted ''_from'' @ '': '' @ to_decimal (unat (from_id d))
     @ '', '' @ json_quoted ''_to'' @ '': '' @ to_decimal (unat (to_id d))
     @ '', '' @ json_quoted ''_label'' @ '': '' @ json_quoted (edge_label d)
     @ (if edge_properties d \<noteq> [] \<and> edge_properties d \<noteq> ''{}''
        then '', '' @ json_quoted ''_properties'' @ '': '' @ edge_properties d else [])
     @ ''}''"

definition number_like :: "string \<Rightarrow> bool" where
  "number_like val \<longleftrightarrow> val \<noteq> [] \<and> (is_digit (hd val) \<or> hd val = CHR ''-'')"

definition property_json :: "string \<Rightarrow> string \<Rightarrow> string" where
  "property_json props key =
     (if props = [] then ''null''
      else let val = get_json_value props key in
           if val = [] then ''null'' else if number_like val then val else json_quoted val)"

text \<open>The text of one item in a row.  An expression that is neither a variable nor a property
  access leaves no text.\<close>

definition item_json ::
  "'s kvs \<Rightarrow> tx_handle \<Rightarrow> (string \<Rightarrow> u64 \<Rightarrow> string option) \<Rightarrow> nat \<Rightarrow> return_item \<Rightarrow> 's exec \<Rightarrow> status \<times> string \<times> 's exec" where
  "item_json K tx cache row it x =
     (case item_expr it of
        Variable v \<Rightarrow>
          (let alias = (if item_alias it = [] then v else item_alias it); head = json_quoted alias @ '': '' in
           case ctx x v of
             None \<Rightarrow> (Done, head @ ''null'', x)
           | Some ids \<Rightarrow>
               if row \<ge> length ids then (Done, head @ ''null'', x)
               else
                 let i = ids ! row in
                 (case cache v i of
                    Some (c # cs) \<Rightarrow> (Done, head @ c # cs, x)
                  | _ \<Rightarrow>
                      let (ed, s1) = get_edge K tx (store_obj x) i (kv x); x1 = x\<lparr>kv := s1\<rparr> in
                      (case ed of
                         Out_of_bounds \<Rightarrow> (Undefined, [], x1)
                       | Rejected \<Rightarrow> (Done, head @ ''null'', x1)
                       | Decoded d \<Rightarrow> (Done, head @ edge_json i d, x1))))
      | Property_access v key \<Rightarrow>
          (let alias = (if item_alias it = [] then v @ ''.'' @ key else item_alias it); head = json_quoted alias @ '': '' in
           case ctx x v of
             None \<Rightarrow> (Done, head @ ''null'', x)
           | Some ids \<Rightarrow>
               if row \<ge> length ids then (Done, head @ ''null'', x)
               else
                 let props = (case cache v (ids ! row) of None \<Rightarrow> [] | Some p \<Rightarrow> p)
                 in (Done, head @ property_json props key, x))
      | _ \<Rightarrow> (Done, [], x))"

fun items_json ::
  "'s kvs \<Rightarrow> tx_handle \<Rightarrow> (string \<Rightarrow> u64 \<Rightarrow> string option) \<Rightarrow> nat \<Rightarrow> return_item list \<Rightarrow> 's exec \<Rightarrow> status \<times> string list \<times> 's exec" where
  "items_json K tx cache row [] x = (Done, [], x)"
| "items_json K tx cache row (it # its) x =
     (let (st, t, x1) = item_json K tx cache row it x in
      if st \<noteq> Done then (st, [], x1)
      else let (st', ts, x2) = items_json K tx cache row its x1 in (st', t # ts, x2))"

definition row_json ::
  "'s kvs \<Rightarrow> tx_handle \<Rightarrow> (string \<Rightarrow> u64 \<Rightarrow> string option) \<Rightarrow> return_item list \<Rightarrow> nat \<Rightarrow> 's exec \<Rightarrow> status \<times> 's exec" where
  "row_json K tx cache items row x =
     (let (st, ts, x1) = items_json K tx cache row items x;
          text = (if row > 0 then '', '' else []) @ ''{'' @ join '', '' ts @ ''}''
      in (st, x1\<lparr>result_json := result_json x1 @ text\<rparr>))"

definition return_batch ::
  "'s kvs \<Rightarrow> tx_handle \<Rightarrow> return_item list \<Rightarrow> nat \<Rightarrow> nat \<Rightarrow> 's exec \<Rightarrow> status \<times> 's exec" where
  "return_batch K tx items rows start x =
     (let end = min (start + batch_size) rows;
          (cache, s1) = load_batch K tx (store_obj x) (ctx x) start end (needed_vars items) (kv x)
      in run_all (row_json K tx cache items) [start..<end] (x\<lparr>kv := s1\<rparr>))"

definition execute_return :: "'s kvs \<Rightarrow> tx_handle \<Rightarrow> return_item list \<Rightarrow> 's exec \<Rightarrow> status \<times> 's exec" where
  "execute_return K tx items x =
     (let rows = max_rows (ctx x) items;
          starts = map (\<lambda>b. b * batch_size) [0..<(rows + batch_size - 1) div batch_size];
          (st, x1) = run_all (return_batch K tx items rows) starts (x\<lparr>result_json := ''[''\<rparr>)
      in (st, x1\<lparr>result_json := result_json x1 @ '']''\<rparr>))"

section \<open>DELETE\<close>

definition delete_edge_step :: "'s kvs \<Rightarrow> tx_handle \<Rightarrow> u64 \<Rightarrow> 's exec \<Rightarrow> status \<times> 's exec" where
  "delete_edge_step K tx e x =
     (let (r, s1) = delete_edge K tx (store_obj x) e (kv x)
      in (if r = Out_of_bounds then Undefined else Done, x\<lparr>kv := s1\<rparr>))"

definition delete_one :: "'s kvs \<Rightarrow> tx_handle \<Rightarrow> bool \<Rightarrow> u64 \<Rightarrow> 's exec \<Rightarrow> status \<times> 's exec" where
  "delete_one K tx detach i x =
     (let (r, s1) = get_node K tx (store_obj x) i (kv x); x1 = x\<lparr>kv := s1\<rparr> in
      if r = None \<or> r = Some [] then delete_edge_step K tx i x1
      else
        let (st, x2) =
          (if \<not> detach then (Done, x1)
           else
             let (outs, s2) = get_outgoing_edges K tx (store_obj x) i s1;
                 (ins, s3) = get_incoming_edges K tx (store_obj x) i s2;
                 edges = (case outs of None \<Rightarrow> [] | Some l \<Rightarrow> l) @ (case ins of None \<Rightarrow> [] | Some l \<Rightarrow> l)
             in run_all (delete_edge_step K tx) edges (x1\<lparr>kv := s3\<rparr>))
        in if st \<noteq> Done then (st, x2)
           else (Done, x2\<lparr>kv := snd (delete_node K tx (store_obj x2) i [] (kv x2))\<rparr>))"

definition delete_variable :: "'s kvs \<Rightarrow> tx_handle \<Rightarrow> bool \<Rightarrow> string \<Rightarrow> 's exec \<Rightarrow> status \<times> 's exec" where
  "delete_variable K tx detach v x =
     (case ctx x v of
        None \<Rightarrow> (Done, x)
      | Some ids \<Rightarrow>
          let (st, x1) = run_all (delete_one K tx detach) ids x
          in (st, x1\<lparr>ctx := (ctx x1)(v := None)\<rparr>))"

definition execute_delete :: "'s kvs \<Rightarrow> tx_handle \<Rightarrow> string list \<Rightarrow> bool \<Rightarrow> 's exec \<Rightarrow> status \<times> 's exec" where
  "execute_delete K tx vars detach x = run_all (delete_variable K tx detach) vars x"

section \<open>SET\<close>

text \<open>Phase 1: the text of every node after all assignments; nothing is written yet.\<close>

definition set_node_step ::
  "'s kvs \<Rightarrow> tx_handle \<Rightarrow> string \<Rightarrow> string \<Rightarrow> string \<Rightarrow> bool \<Rightarrow> u64 \<Rightarrow> pending \<times> 's exec \<Rightarrow> status \<times> pending \<times> 's exec" where
  "set_node_step K tx label key nval is_str i acc =
     (let (p, x) = acc;
          (lbl, props) = (case map_of p i of None \<Rightarrow> ([], []) | Some e \<Rightarrow> e);
          (lbl1, props1, x1) =
            (if props = [] then
               let (r, s1) = get_node K tx (store_obj x) i (kv x)
               in (label, case r of None \<Rightarrow> [] | Some t \<Rightarrow> t, x\<lparr>kv := s1\<rparr>)
             else (lbl, props, x))
      in case update_json_property props1 key nval is_str of
           None \<Rightarrow> (Thrown, p, x1)
         | Some t \<Rightarrow> (Done, AList.update i (lbl1, t) p, x1))"

definition set_assignment ::
  "'s kvs \<Rightarrow> tx_handle \<Rightarrow> assignment \<Rightarrow> pending \<times> 's exec \<Rightarrow> status \<times> pending \<times> 's exec" where
  "set_assignment K tx a acc =
     (let (p, x) = acc in
      case ctx x (asgn_variable a) of
        None \<Rightarrow> (Done, p, x)
      | Some ids \<Rightarrow>
          let (nval, is_str) = (case asgn_value a of Literal v b \<Rightarrow> (v, b) | _ \<Rightarrow> ([], False));
              label = (case ctx_labels x (asgn_variable a) of None \<Rightarrow> [] | Some l \<Rightarrow> l)
          in run_all (set_node_step K tx label (asgn_property a) nval is_str) ids (p, x))"

text \<open>Phase 2: one write per node; what the storage returns is not looked at.\<close>

definition apply_pending :: "'s kvs \<Rightarrow> hash_orders \<Rightarrow> tx_handle \<Rightarrow> storage \<Rightarrow> u64 \<times> string \<times> string \<Rightarrow> 's \<Rightarrow> 's" where
  "apply_pending K ords tx so e s =
     (let (i, label, props) = e in
      if label \<noteq> [] then snd (update_node_with_label K (string_order ords) tx so i label props s)
      else snd (update_node K tx so i props s))"

definition execute_set ::
  "'s kvs \<Rightarrow> hash_orders \<Rightarrow> tx_handle \<Rightarrow> assignment list \<Rightarrow> 's exec \<Rightarrow> status \<times> 's exec" where
  "execute_set K ords tx as x =
     (let (st, p, x1) = run_all (set_assignment K tx) as ([], x) in
      if st \<noteq> Done then (st, x1)
      else (Done, x1\<lparr>kv := fold (apply_pending K ords tx (store_obj x1)) (pending_order ords p) (kv x1)\<rparr>))"

section \<open>UNWIND and the statement\<close>

definition element_binding :: "expression \<Rightarrow> unwind_binding" where
  "element_binding e =
     (case e of
        Map_literal m \<Rightarrow>
          (let lits = List.map_filter (\<lambda>(k, v). case v of Literal t b \<Rightarrow> Some (k, t, b) | _ \<Rightarrow> None) m
           in \<lparr>binding_properties = map_of (map (\<lambda>(k, t, b). (k, t)) lits),
               binding_is_string = map_of (map (\<lambda>(k, t, b). (k, b)) lits)\<rparr>)
      | Literal t b \<Rightarrow> \<lparr>binding_properties = [''_value'' \<mapsto> t], binding_is_string = [''_value'' \<mapsto> b]\<rparr>
      | _ \<Rightarrow> \<lparr>binding_properties = Map.empty, binding_is_string = Map.empty\<rparr>)"

text \<open>A clause after UNWIND: a further UNWIND is skipped.\<close>

fun execute_clause ::
  "'s kvs \<Rightarrow> hash_orders \<Rightarrow> nat \<Rightarrow> tx_handle \<Rightarrow> clause \<Rightarrow> 's exec \<Rightarrow> status \<times> 's exec" where
  "execute_clause K ords hw tx (Create_clause ps) x = execute_create K tx ps x"
| "execute_clause K ords hw tx (Match_clause ps) x = execute_match K tx ps x"
| "execute_clause K ords hw tx (Where_clause w) x = execute_where K hw tx w x"
| "execute_clause K ords hw tx (Return_clause items) x = execute_return K tx items x"
| "execute_clause K ords hw tx (Delete_clause vs d) x = execute_delete K tx vs d x"
| "execute_clause K ords hw tx (Set_clause as) x = execute_set K ords tx as x"
| "execute_clause K ords hw tx (Unwind_clause e a) x = (Done, x)"

definition unwind_element ::
  "'s kvs \<Rightarrow> hash_orders \<Rightarrow> nat \<Rightarrow> tx_handle \<Rightarrow> string \<Rightarrow> clause list \<Rightarrow> expression \<Rightarrow> 's exec \<Rightarrow> status \<times> 's exec" where
  "unwind_element K ords hw tx alias rest e x =
     (let (st, x1) = run_all (execute_clause K ords hw tx) rest
            (x\<lparr>unwind_ctx := (unwind_ctx x)(alias \<mapsto> element_binding e)\<rparr>)
      in if st \<noteq> Done then (st, x1) else (Done, x1\<lparr>ctx := (\<lambda>_. None), ctx_labels := (\<lambda>_. None)\<rparr>))"

text \<open>The flag tells whether the remaining clauses have been consumed.\<close>

definition execute_unwind ::
  "'s kvs \<Rightarrow> hash_orders \<Rightarrow> nat \<Rightarrow> tx_handle \<Rightarrow> expression \<Rightarrow> string \<Rightarrow> clause list \<Rightarrow> 's exec \<Rightarrow> bool \<times> status \<times> 's exec" where
  "execute_unwind K ords hw tx list_expr alias rest x =
     (case list_expr of
        List_literal (e # es) \<Rightarrow>
          (let (st, x1) = run_all (unwind_element K ords hw tx alias rest) (e # es) x
           in (True, st, if st = Done then x1\<lparr>unwind_ctx := (unwind_ctx x1)(alias := None)\<rparr> else x1))
      | _ \<Rightarrow> (False, Done, x))"

fun execute_clauses ::
  "'s kvs \<Rightarrow> hash_orders \<Rightarrow> nat \<Rightarrow> tx_handle \<Rightarrow> statement \<Rightarrow> 's exec \<Rightarrow> status \<times> 's exec" where
  "execute_clauses K ords hw tx [] x = (Done, x)"
| "execute_clauses K ords hw tx (Unwind_clause e a # cs) x =
     (let (consumed, st, x1) = execute_unwind K ords hw tx e a cs x in
      if st \<noteq> Done \<or> consumed then (st, x1) else execute_clauses K ords hw tx cs x1)"
| "execute_clauses K ords hw tx (Match_clause ps # Where_clause w # cs) x =
     (let (fused, x1) = try_indexed_match_where K tx ps w x in
      if fused then execute_clauses K ords hw tx cs x1
      else
        let (st, x2) = execute_match K tx ps x1
        in if st \<noteq> Done then (st, x2) else execute_clauses K ords hw tx (Where_clause w # cs) x2)"
| "execute_clauses K ords hw tx (c # cs) x =
     (let (st, x1) = execute_clause K ords hw tx c x
      in if st \<noteq> Done then (st, x1) else execute_clauses K ords hw tx cs x1)"

definition execute ::
  "'s kvs \<Rightarrow> hash_orders \<Rightarrow> nat \<Rightarrow> tx_handle \<Rightarrow> storage \<Rightarrow> statement \<Rightarrow> 's \<Rightarrow> status \<times> string \<times> storage \<times> 's" where
  \<comment> \<open>a new executor on the storage object, an empty result text\<close>
  "execute K ords hw tx so st s =
     (let (r, x) = execute_clauses K ords hw tx st (new_exec so s)
      in (r, result_json x, store_obj x, kv x))"

end
