(* ===== verification/Exec_Props.thy ===== *)
theory Exec_Props
  imports Query_Run Storage_Props
begin

text \<open>
  What the clauses do to the graph of the store: the batched and parallel WHERE scan, the
  expansion of a relationship in MATCH, CREATE of a path, DELETE and SET.
\<close>

section \<open>Intersections and slices\<close>

lemma set_intersection_sorted:
  "sorted as \<Longrightarrow> sorted bs \<Longrightarrow> set (set_intersection as bs) = set as \<inter> set bs \<and> sorted (set_intersection as bs)"
proof (induction as bs rule: set_intersection.induct)
  case (1 a as b bs)
  consider "a < b" | "b < a" | "a = b" by fastforce
  then show ?case
  proof cases
    case 1
    then have "a \<notin> set (b # bs)" using \<open>sorted (b # bs)\<close> by auto
    then show ?thesis using 1 "1.IH"(1) "1.prems" by auto
  next
    case 2
    then have "b \<notin> set (a # as)" using \<open>sorted (a # as)\<close> by auto
    moreover have "\<not> a < b" using 2 by simp
    ultimately show ?thesis using 2 "1.IH"(2) "1.prems" by auto
  next
    case 3
    then show ?thesis using "1.IH"(3) "1.prems" by auto
  qed
qed auto

lemma slices: "concat (map (\<lambda>t. filter P (take c (drop (t * c) xs))) [0..<n]) = filter P (take (n * c) xs)"
proof (induction n)
  case (Suc n)
  have "take (Suc n * c) xs = take (n * c) xs @ take c (drop (n * c) xs)"
    by (simp add: take_add[symmetric] add.commute)
  then show ?case using Suc by simp
qed simp

lemma ceiling_slices: "0 < t \<Longrightarrow> n \<le> t * ((n + t - 1) div t)" for n t :: nat
proof -
  assume t: "0 < t"
  have "n + t - 1 < t * ((n + t - 1) div t) + t"
    using t by (metis add.commute div_mod_decomp mod_less_divisor mult.commute nat_add_left_cancel_less)
  then show ?thesis using t by linarith
qed

lemma parallel_is_filter: "parallel_filter hw P ids = filter P ids"
proof -
  let ?t = "max (min hw (length ids div 1000)) 2"
  have "length ids \<le> ?t * ((length ids + ?t - 1) div ?t)" by (rule ceiling_slices) simp
  then show ?thesis by (simp only: parallel_filter_def Let_def slices take_all)
qed

lemma chunk_is_filter: "filter_chunk hw P ids = filter P ids"
  by (simp add: filter_chunk_def parallel_is_filter)

section \<open>The scan of WHERE\<close>

definition node_passes :: "(u64 \<Rightarrow> string option) \<Rightarrow> (string \<Rightarrow> bool) \<Rightarrow> u64 \<Rightarrow> bool" where
  "node_passes nodes ok i = (case nodes i of None \<Rightarrow> False | Some props \<Rightarrow> ok props)"

context kvs_basic
begin

lemma batch_loop_law:
  assumes "valid s" "graph_inv (content s) so"
  shows "\<exists>r s'. nodes_batch_loop K tx so ids s = (r, s') \<and> content s' = content s \<and> valid s'
    \<and> set r = {(i, p). i \<in> set ids \<and> nodes_of (content s) so i = Some p}"
  using assms
proof (induction ids arbitrary: s)
  case (Cons i ids)
  obtain rc v s1 where g: "content_get K tx (nodes_handle so) (to_key i) s = (rc, v, s1)" "content s1 = content s" "valid s1"
    "rc = Ok \<longleftrightarrow> nodes_of (content s) so i = Some v" "rc \<noteq> Ok \<longleftrightarrow> nodes_of (content s) so i = None"
    by (cases rule: get_cases[OF Cons.prems(1), of "nodes_handle so" "to_key i" tx]) (auto simp: nodes_of_def)
  obtain r s2 where r: "nodes_batch_loop K tx so ids s1 = (r, s2)" "content s2 = content s" "valid s2"
    "set r = {(i, p). i \<in> set ids \<and> nodes_of (content s) so i = Some p}"
    using Cons.IH[of s1] g Cons.prems(2) by auto
  show ?case using g(1,4,5) r by (cases "rc = Ok") auto
qed simp

lemma map_of_rev_graph:
  assumes "set r = {(i, p). i \<in> A \<and> f i = Some p}" "i \<in> A"
  shows "map_of (rev r) i = f i"
proof (cases "f i")
  case None
  then have "i \<notin> fst ` set (rev r)" using assms by auto
  then have "map_of (rev r) i = None" by (simp only: map_of_eq_None_iff) simp
  then show ?thesis using None by simp
next
  case (Some p)
  then have "i \<in> fst ` set (rev r)" using assms by force
  then obtain q where q: "map_of (rev r) i = Some q" by (meson map_of_eq_None_iff not_None_eq)
  from map_of_SomeD[OF q] show ?thesis using q assms(1) by auto
qed

lemma scan_batches_law:
  assumes "valid s" "graph_inv (content s) so" "tx \<noteq> 0"
  shows "\<exists>s'. scan_batches K hw tx so ok ids s = (filter (node_passes (nodes_of (content s) so) ok) ids, s')
    \<and> content s' = content s \<and> valid s'"
  using assms
proof (induction "length ids" arbitrary: ids s rule: less_induct)
  case less
  show ?case
  proof (cases "ids = []")
    case True
    then show ?thesis using less.prems by (subst scan_batches.simps) simp
  next
    case False
    let ?chunk = "take batch_size ids" and ?rest = "drop batch_size ids"
    obtain r s1 where r: "nodes_batch_loop K tx so ?chunk s = (r, s1)" "content s1 = content s" "valid s1"
      "set r = {(i, p). i \<in> set ?chunk \<and> nodes_of (content s) so i = Some p}"
      using batch_loop_law[OF less.prems(1,2)] by blast
    have b: "get_nodes_batch K tx so ?chunk s = (Some r, s1)"
      using less.prems(3) graph_inv_handles(3)[OF less.prems(2)] r(1) by (simp add: get_nodes_batch_def)
    have "length ?rest < length ids" using False by (simp add: batch_size_def)
    then obtain s2 where s2: "scan_batches K hw tx so ok ?rest s1 = (filter (node_passes (nodes_of (content s) so) ok) ?rest, s2)"
      "content s2 = content s" "valid s2"
      using less.hyps[of ?rest s1] r(2,3) less.prems(2,3) by auto
    have "filter (filter_node ok r) ?chunk = filter (node_passes (nodes_of (content s) so) ok) ?chunk"
      using map_of_rev_graph[OF r(4)] by (intro filter_cong) (simp_all add: filter_node_def node_passes_def)
    moreover have "filter Q ?chunk @ filter Q ?rest = filter Q ids" for Q
      by (metis append_take_drop_id filter_append)
    ultimately have "scan_batches K hw tx so ok ids s = (filter (node_passes (nodes_of (content s) so) ok) ids, s2)"
      using False b s2(1) by (subst scan_batches.simps) (simp add: Let_def chunk_is_filter)
    then show ?thesis using s2 by blast
  qed
qed

end

section \<open>The expansion of MATCH\<close>

definition edge_target :: "pattern_relationship \<Rightarrow> edge_data \<Rightarrow> u64" where
  "edge_target r d = (if rel_direction r = ''<-'' then from_id d else to_id d)"

definition edge_source :: "pattern_relationship \<Rightarrow> edge_data \<Rightarrow> u64" where
  "edge_source r d = (if rel_direction r = ''<-'' then to_id d else from_id d)"

definition edge_fits :: "pattern_relationship \<Rightarrow> u64 list option \<Rightarrow> edge_data \<Rightarrow> bool" where
  "edge_fits r label_set d \<longleftrightarrow> (rel_type r = [] \<or> edge_label d = rel_type r)
     \<and> (case label_set of None \<Rightarrow> True | Some l \<Rightarrow> edge_target r d \<in> set l)"

context kvs_basic
begin

lemma hop_edges_law:
  assumes "valid (kv x)" "graph_inv (content (kv x)) (store_obj x)" "tx \<noteq> 0" "rel_variable r = []"
  shows "\<exists>next s'. hop_edges K tx r prev label_set eids (acc, x) = (Done, next, x\<lparr>kv := s'\<rparr>)
    \<and> content s' = content (kv x) \<and> valid s'
    \<and> set next = set acc \<union> {edge_target r d |e d. e \<in> set eids \<and> edges_of (content (kv x)) (store_obj x) e = Some d \<and> edge_fits r label_set d}"
  using assms(1-3)
proof (induction eids arbitrary: acc x)
  case Nil
  then show ?case by (auto intro: exI[of _ "kv x"])
next
  case (Cons e eids)
  let ?E = "edges_of (content (kv x)) (store_obj x)"
  obtain q s1 where g: "get_edge K tx (store_obj x) e (kv x) = (q, s1)" "content s1 = content (kv x)" "valid s1"
    "?E e = (case q of Decoded d \<Rightarrow> Some d | _ \<Rightarrow> None)" "q \<noteq> Out_of_bounds"
    using get_edge_law[OF Cons.prems] by blast
  let ?x = "x\<lparr>kv := s1\<rparr>"
  define acc' where "acc' = (case q of Decoded d \<Rightarrow> if edge_fits r label_set d then acc @ [edge_target r d] else acc | _ \<Rightarrow> acc)"
  have step: "hop_edges K tx r prev label_set (e # eids) (acc, x) = hop_edges K tx r prev label_set eids (acc', ?x)"
    using g(1,5) assms(4) by (cases q) (auto simp: acc'_def edge_fits_def edge_target_def Let_def split: option.split)
  obtain "next" s' where n: "hop_edges K tx r prev label_set eids (acc', ?x) = (Done, next, ?x\<lparr>kv := s'\<rparr>)"
    "content s' = content (kv x)" "valid s'"
    "set next = set acc' \<union> {edge_target r d |e d. e \<in> set eids \<and> ?E e = Some d \<and> edge_fits r label_set d}"
    using Cons.IH[of ?x acc'] g(2,3) Cons.prems by auto
  have "set acc' \<union> {edge_target r d |e d. e \<in> set eids \<and> ?E e = Some d \<and> edge_fits r label_set d} =
      set acc \<union> {edge_target r d |e' d. e' \<in> set (e # eids) \<and> ?E e' = Some d \<and> edge_fits r label_set d}"
    using g(4) by (cases q) (auto simp: acc'_def)
  then show ?case using step n by auto
qed

lemma hop_source_law:
  assumes "valid (kv x)" "graph_inv (content (kv x)) (store_obj x)" "tx \<noteq> 0" "rel_variable r = []"
  shows "\<exists>next s'. hop_source K tx r prev label_set src (acc, x) = (Done, next, x\<lparr>kv := s'\<rparr>)
    \<and> content s' = content (kv x) \<and> valid s'
    \<and> set next = set acc \<union> {edge_target r d |e d. edges_of (content (kv x)) (store_obj x) e = Some d
        \<and> edge_source r d = src \<and> edge_fits r label_set d}"
proof -
  let ?c = "content (kv x)" and ?so = "store_obj x"
  let ?h = "if rel_direction r \<noteq> ''<-'' then out_index_handle ?so else in_index_handle ?so"
  obtain es s1 where es: "(if rel_direction r \<noteq> ''<-'' then get_outgoing_edges K tx ?so src (kv x)
      else get_incoming_edges K tx ?so src (kv x)) = (Some es, s1)" "content s1 = ?c" "valid s1"
    "set es = {e. to_key src @ to_key e \<in> map_keys (?c ?h)}"
    using outgoing_law[OF assms(1-3), of src] incoming_law[OF assms(1-3), of src]
    by (cases "rel_direction r = ''<-''") auto
  have snd: "index_sound (?c (edges_handle ?so)) (?c ?h) (edge_source r)"
    using assms(2) unfolding graph_inv_def edge_source_def by (cases "rel_direction r = ''<-''") auto
  have mem: "e \<in> set es \<longleftrightarrow> edge_source r d = src" if "edges_of ?c ?so e = Some d" for e d
    using snd that unfolding es(4) index_sound_def edges_of_def by fastforce
  obtain "next" s' where n: "hop_edges K tx r prev label_set es (acc, x\<lparr>kv := s1\<rparr>) = (Done, next, x\<lparr>kv := s'\<rparr>)"
    "content s' = ?c" "valid s'"
    "set next = set acc \<union> {edge_target r d |e d. e \<in> set es \<and> edges_of ?c ?so e = Some d \<and> edge_fits r label_set d}"
    using hop_edges_law[of "x\<lparr>kv := s1\<rparr>" tx r prev label_set es acc] es(2,3) assms by auto
  have "{edge_target r d |e d. e \<in> set es \<and> edges_of ?c ?so e = Some d \<and> edge_fits r label_set d} =
      {edge_target r d |e d. edges_of ?c ?so e = Some d \<and> edge_source r d = src \<and> edge_fits r label_set d}"
    using mem by blast
  then have "set next = set acc \<union> {edge_target r d |e d. edges_of ?c ?so e = Some d \<and> edge_source r d = src \<and> edge_fits r label_set d}"
    using n(4) by simp
  moreover have "hop_source K tx r prev label_set src (acc, x) = (Done, next, x\<lparr>kv := s'\<rparr>)"
    using es(1) n(1) by (simp add: hop_source_def)
  ultimately show ?thesis using n(2,3) by blast
qed

lemma hop_sources_law:
  assumes "valid (kv x)" "graph_inv (content (kv x)) (store_obj x)" "tx \<noteq> 0" "rel_variable r = []"
  shows "\<exists>next s'. run_all (hop_source K tx r prev label_set) sources (acc, x) = (Done, next, x\<lparr>kv := s'\<rparr>)
    \<and> content s' = content (kv x) \<and> valid s'
    \<and> set next = set acc \<union> {edge_target r d |e d. edges_of (content (kv x)) (store_obj x) e = Some d
        \<and> edge_source r d \<in> set sources \<and> edge_fits r label_set d}"
  using assms(1-3)
proof (induction sources arbitrary: acc x)
  case Nil
  then show ?case by (auto intro: exI[of _ "kv x"])
next
  case (Cons src sources)
  let ?E = "edges_of (content (kv x)) (store_obj x)"
  obtain acc' s1 where 1: "hop_source K tx r prev label_set src (acc, x) = (Done, acc', x\<lparr>kv := s1\<rparr>)"
    "content s1 = content (kv x)" "valid s1"
    "set acc' = set acc \<union> {edge_target r d |e d. ?E e = Some d \<and> edge_source r d = src \<and> edge_fits r label_set d}"
    using hop_source_law[OF Cons.prems assms(4)] by blast
  obtain "next" s' where 2: "run_all (hop_source K tx r prev label_set) sources (acc', x\<lparr>kv := s1\<rparr>) = (Done, next, x\<lparr>kv := s'\<rparr>)"
    "content s' = content (kv x)" "valid s'"
    "set next = set acc' \<union> {edge_target r d |e d. ?E e = Some d \<and> edge_source r d \<in> set sources \<and> edge_fits r label_set d}"
    using Cons.IH[of "x\<lparr>kv := s1\<rparr>" acc'] 1(2,3) Cons.prems by auto
  show ?case using 1 2 by auto
qed

end

section \<open>CREATE of a path\<close>

definition unbound :: "'s exec \<Rightarrow> string \<Rightarrow> bool" where
  "unbound x v \<longleftrightarrow> v = [] \<or> ctx x v = None \<or> ctx x v = Some []"

text \<open>The labels of a graph with a new node; without a label it gets no entry.\<close>

definition with_label :: "(string \<Rightarrow> u64 \<Rightarrow> bool) \<Rightarrow> string \<Rightarrow> u64 \<Rightarrow> string \<Rightarrow> u64 \<Rightarrow> bool" where
  "with_label L label i = (\<lambda>l j. L l j \<or> label \<noteq> [] \<and> l = label \<and> j = i)"

lemma not_last:
  assumes "uint (n :: u64) + k < 2 ^ 64" "1 \<le> k"
  shows "n + 1 \<noteq> 0"
proof
  assume "n + 1 = 0"
  moreover have "uint (n + 1) = uint n + 1" using uint_add_small[of n 1] assms by simp
  ultimately show False using uint_u64_bounds(1)[of n] by simp
qed

context kvs_basic
begin

lemma new_node_law:
  assumes "valid (kv x)" "graph_inv (content (kv x)) (store_obj x)" "tx \<noteq> 0" "next_id (store_obj x) + 1 \<noteq> 0"
    and "unbound x (node_variable n)"
  shows "\<exists>x'. bound_or_new K tx n x = (Some (next_id (store_obj x)), x')
    \<and> valid (kv x') \<and> graph_inv (content (kv x')) (store_obj x') \<and> next_id (store_obj x') = next_id (store_obj x) + 1
    \<and> nodes_of (content (kv x')) (store_obj x') = (nodes_of (content (kv x)) (store_obj x))
        (next_id (store_obj x) \<mapsto> evaluate_properties (unwind_ctx x) (node_props n))
    \<and> edges_of (content (kv x')) (store_obj x') = edges_of (content (kv x)) (store_obj x)
    \<and> labelled (content (kv x')) (store_obj x') =
        with_label (labelled (content (kv x)) (store_obj x)) (node_label n) (next_id (store_obj x))
    \<and> unwind_ctx x' = unwind_ctx x
    \<and> ctx x' = (if node_variable n = [] then ctx x else (ctx x)(node_variable n \<mapsto> [next_id (store_obj x)]))"
proof -
  obtain so' s' where "create_node K tx (store_obj x) (node_label n) (evaluate_properties (unwind_ctx x) (node_props n)) (kv x)
      = (Some (next_id (store_obj x)), so', s')"
    "valid s'" "graph_inv (content s') so'" "next_id so' = next_id (store_obj x) + 1"
    "nodes_of (content s') so' = (nodes_of (content (kv x)) (store_obj x))
        (next_id (store_obj x) \<mapsto> evaluate_properties (unwind_ctx x) (node_props n))"
    "edges_of (content s') so' = edges_of (content (kv x)) (store_obj x)"
    "labelled (content s') so' = with_label (labelled (content (kv x)) (store_obj x)) (node_label n) (next_id (store_obj x))"
    unfolding with_label_def using create_node_law[OF assms(1-4)] by blast
  then show ?thesis
    using assms(5) by (auto simp: bound_or_new_def unbound_def Let_def)
qed

lemma new_relationship_law:
  assumes "valid (kv x)" "graph_inv (content (kv x)) (store_obj x)" "tx \<noteq> 0" "next_id (store_obj x) + 1 \<noteq> 0"
    and "length (rel_type r) + 20 < 2 ^ 32"
  shows "\<exists>x'. create_relationship K tx r i j x = (Done, x')
    \<and> valid (kv x') \<and> graph_inv (content (kv x')) (store_obj x') \<and> next_id (store_obj x') = next_id (store_obj x) + 1
    \<and> nodes_of (content (kv x')) (store_obj x') = nodes_of (content (kv x)) (store_obj x)
    \<and> edges_of (content (kv x')) (store_obj x') = (edges_of (content (kv x)) (store_obj x))(next_id (store_obj x) \<mapsto>
        \<lparr>from_id = (if rel_direction r = ''<-'' then j else i), to_id = (if rel_direction r = ''<-'' then i else j),
         edge_label = rel_type r, edge_properties = evaluate_properties (unwind_ctx x) (rel_props r)\<rparr>)
    \<and> labelled (content (kv x')) (store_obj x') = labelled (content (kv x)) (store_obj x)
    \<and> unwind_ctx x' = unwind_ctx x
    \<and> ctx x' = (if rel_variable r = [] then ctx x else (ctx x)(rel_variable r \<mapsto> [next_id (store_obj x)]))"
proof -
  let ?f = "if rel_direction r = ''<-'' then j else i" and ?t = "if rel_direction r = ''<-'' then i else j"
  obtain so' s' where "create_edge K tx (store_obj x) ?f ?t (rel_type r) (evaluate_properties (unwind_ctx x) (rel_props r)) (kv x)
      = (Some (next_id (store_obj x)), so', s')"
    "valid s'" "graph_inv (content s') so'" "next_id so' = next_id (store_obj x) + 1"
    "nodes_of (content s') so' = nodes_of (content (kv x)) (store_obj x)"
    "edges_of (content s') so' = (edges_of (content (kv x)) (store_obj x))(next_id (store_obj x) \<mapsto>
        \<lparr>from_id = ?f, to_id = ?t, edge_label = rel_type r, edge_properties = evaluate_properties (unwind_ctx x) (rel_props r)\<rparr>)"
    "labelled (content s') so' = labelled (content (kv x)) (store_obj x)"
    using create_edge_law[OF assms] by blast
  then show ?thesis
    by (cases "rel_direction r = ''<-''") (auto simp: create_relationship_def Let_def)
qed

end

section \<open>DELETE\<close>

lemma run_all_append:
  "run_all f (xs @ ys) a = (let (st, a1) = run_all f xs a in if st = Done then run_all f ys a1 else (st, a1))"
  by (induction xs arbitrary: a) (auto simp: Let_def case_prod_beta)

definition without_edges :: "(u64 \<Rightarrow> edge_data option) \<Rightarrow> (u64 \<Rightarrow> edge_data \<Rightarrow> bool) \<Rightarrow> u64 \<Rightarrow> edge_data option" where
  "without_edges E P e = (case E e of Some d \<Rightarrow> if P e d then None else Some d | None \<Rightarrow> None)"

context kvs_basic
begin

lemma delete_edges_law:
  assumes "valid (kv x)" "graph_inv (content (kv x)) (store_obj x)" "tx \<noteq> 0"
  shows "\<exists>s'. run_all (delete_edge_step K tx) es x = (Done, x\<lparr>kv := s'\<rparr>) \<and> valid s' \<and> graph_inv (content s') (store_obj x)
    \<and> nodes_of (content s') (store_obj x) = nodes_of (content (kv x)) (store_obj x)
    \<and> edges_of (content s') (store_obj x) = without_edges (edges_of (content (kv x)) (store_obj x)) (\<lambda>e d. e \<in> set es)
    \<and> labelled (content s') (store_obj x) = labelled (content (kv x)) (store_obj x)"
  using assms
proof (induction es arbitrary: x)
  case Nil
  have "x = x\<lparr>kv := kv x\<rparr>" by simp
  then show ?case using Nil by (auto simp: without_edges_def fun_eq_iff split: option.split intro!: exI[of _ "kv x"])
next
  case (Cons e es)
  obtain s1 b where 1: "delete_edge K tx (store_obj x) e (kv x) = (Decoded b, s1)" "valid s1" "graph_inv (content s1) (store_obj x)"
    "nodes_of (content s1) (store_obj x) = nodes_of (content (kv x)) (store_obj x)"
    "edges_of (content s1) (store_obj x) = (edges_of (content (kv x)) (store_obj x))(e := None)"
    "labelled (content s1) (store_obj x) = labelled (content (kv x)) (store_obj x)"
    using remove_edge_step[OF Cons.prems, of e] by blast
  have "\<exists>s2. run_all (delete_edge_step K tx) es (x\<lparr>kv := s1\<rparr>) = (Done, x\<lparr>kv := s2\<rparr>) \<and> valid s2 \<and> graph_inv (content s2) (store_obj x)
    \<and> nodes_of (content s2) (store_obj x) = nodes_of (content s1) (store_obj x)
    \<and> edges_of (content s2) (store_obj x) = without_edges (edges_of (content s1) (store_obj x)) (\<lambda>e d. e \<in> set es)
    \<and> labelled (content s2) (store_obj x) = labelled (content s1) (store_obj x)"
    using Cons.IH[of "x\<lparr>kv := s1\<rparr>"] 1(2,3) Cons.prems(3) by simp
  then obtain s2 where 2: "run_all (delete_edge_step K tx) es (x\<lparr>kv := s1\<rparr>) = (Done, x\<lparr>kv := s2\<rparr>)" "valid s2" "graph_inv (content s2) (store_obj x)"
    "nodes_of (content s2) (store_obj x) = nodes_of (content (kv x)) (store_obj x)"
    "edges_of (content s2) (store_obj x) = without_edges ((edges_of (content (kv x)) (store_obj x))(e := None)) (\<lambda>e d. e \<in> set es)"
    "labelled (content s2) (store_obj x) = labelled (content (kv x)) (store_obj x)"
    unfolding 1(4-6) by blast
  have "run_all (delete_edge_step K tx) (e # es) x = (Done, x\<lparr>kv := s2\<rparr>)"
    using 1(1) 2(1) by (simp add: delete_edge_step_def)
  moreover have "without_edges ((edges_of (content (kv x)) (store_obj x))(e := None)) (\<lambda>e d. e \<in> set es) =
      without_edges (edges_of (content (kv x)) (store_obj x)) (\<lambda>e' d. e' \<in> set (e # es))"
    by (auto simp: without_edges_def fun_eq_iff split: option.split)
  ultimately show ?case using 2 by auto
qed

lemma live_node_below:
  "graph_inv c so \<Longrightarrow> nodes_of c so i = Some p \<Longrightarrow> i < next_id so"
  by (auto simp: graph_inv_def ids_below_def nodes_of_def dest!: map_keys_Some)

lemma detach_one_law:
  assumes "valid (kv x)" "graph_inv (content (kv x)) (store_obj x)" "tx \<noteq> 0"
    and "nodes_of (content (kv x)) (store_obj x) i = Some p" "p \<noteq> []"
  shows "\<exists>s'. delete_one K tx True i x = (Done, x\<lparr>kv := s'\<rparr>) \<and> valid s' \<and> graph_inv (content s') (store_obj x)
    \<and> nodes_of (content s') (store_obj x) = (nodes_of (content (kv x)) (store_obj x))(i \<mapsto> [])
    \<and> edges_of (content s') (store_obj x) =
        without_edges (edges_of (content (kv x)) (store_obj x)) (\<lambda>e d. from_id d = i \<or> to_id d = i)
    \<and> labelled (content s') (store_obj x) = labelled (content (kv x)) (store_obj x)"
proof -
  let ?so = "store_obj x" and ?c = "content (kv x)"
  obtain s1 where g: "get_node K tx ?so i (kv x) = (Some p, s1)" "content s1 = ?c" "valid s1"
    using get_node_law[OF assms(1-3), of i] assms(4) by auto
  have inv1: "graph_inv (content s1) ?so" using g(2) assms(2) by simp
  obtain outs s2 where o: "get_outgoing_edges K tx ?so i s1 = (Some outs, s2)" "content s2 = ?c" "valid s2"
    "set outs = {e. to_key i @ to_key e \<in> map_keys (?c (out_index_handle ?so))}"
    using outgoing_law[OF g(3) inv1 assms(3), of i] g(2) by auto
  have inv2: "graph_inv (content s2) ?so" using o(2) assms(2) by simp
  obtain ins s3 where n: "get_incoming_edges K tx ?so i s2 = (Some ins, s3)" "content s3 = ?c" "valid s3"
    "set ins = {e. to_key i @ to_key e \<in> map_keys (?c (in_index_handle ?so))}"
    using incoming_law[OF o(3) inv2 assms(3), of i] o(2) by auto
  obtain s4 where d: "run_all (delete_edge_step K tx) (outs @ ins) (x\<lparr>kv := s3\<rparr>) = (Done, x\<lparr>kv := s4\<rparr>)"
    "valid s4" "graph_inv (content s4) ?so" "nodes_of (content s4) ?so = nodes_of ?c ?so"
    "edges_of (content s4) ?so = without_edges (edges_of ?c ?so) (\<lambda>e d. e \<in> set (outs @ ins))"
    "labelled (content s4) ?so = labelled ?c ?so"
    using delete_edges_law[of "x\<lparr>kv := s3\<rparr>" tx "outs @ ins"] n(2,3) assms(2,3) by auto
  have "i < next_id ?so" using live_node_below[OF assms(2,4)] .
  then obtain s5 where r: "delete_node K tx ?so i [] s4 = (True, s5)" "valid s5" "graph_inv (content s5) ?so"
    "nodes_of (content s5) ?so = (nodes_of ?c ?so)(i \<mapsto> [])" "edges_of (content s5) ?so = edges_of (content s4) ?so"
    "labelled (content s5) ?so = labelled ?c ?so"
    using delete_node_law[OF d(2,3) assms(3)] d(4,6) by auto
  have "delete_one K tx True i x = (Done, x\<lparr>kv := s5\<rparr>)"
    using g(1) o(1) n(1) d(1) r(1) assms(5) by (simp add: delete_one_def)
  moreover have "e \<in> set (outs @ ins) \<longleftrightarrow> from_id d = i \<or> to_id d = i" if "edges_of ?c ?so e = Some d" for e d
    using assms(2) that o(4) n(4) unfolding graph_inv_def index_sound_def edges_of_def by fastforce
  then have "without_edges (edges_of ?c ?so) (\<lambda>e d. e \<in> set (outs @ ins)) =
      without_edges (edges_of ?c ?so) (\<lambda>e d. from_id d = i \<or> to_id d = i)"
    by (auto simp: without_edges_def fun_eq_iff split: option.split)
  ultimately show ?thesis using r d(5) by auto
qed

lemma detach_all_law:
  assumes "valid (kv x)" "graph_inv (content (kv x)) (store_obj x)" "tx \<noteq> 0" "distinct ids"
    and "\<forall>i\<in>set ids. \<exists>p. nodes_of (content (kv x)) (store_obj x) i = Some p \<and> p \<noteq> []"
  shows "\<exists>s'. run_all (delete_one K tx True) ids x = (Done, x\<lparr>kv := s'\<rparr>) \<and> valid s' \<and> graph_inv (content s') (store_obj x)
    \<and> nodes_of (content s') (store_obj x) = (\<lambda>i. if i \<in> set ids then Some [] else nodes_of (content (kv x)) (store_obj x) i)
    \<and> edges_of (content s') (store_obj x) =
        without_edges (edges_of (content (kv x)) (store_obj x)) (\<lambda>e d. from_id d \<in> set ids \<or> to_id d \<in> set ids)
    \<and> labelled (content s') (store_obj x) = labelled (content (kv x)) (store_obj x)"
  using assms
proof (induction ids arbitrary: x)
  case Nil
  have "x = x\<lparr>kv := kv x\<rparr>" by simp
  then show ?case using Nil by (auto simp: without_edges_def fun_eq_iff split: option.split intro!: exI[of _ "kv x"])
next
  case (Cons i ids)
  obtain p where "nodes_of (content (kv x)) (store_obj x) i = Some p" "p \<noteq> []" using Cons.prems(5) by auto
  from detach_one_law[OF Cons.prems(1-3) this] obtain s1 where
    1: "delete_one K tx True i x = (Done, x\<lparr>kv := s1\<rparr>)" "valid s1" "graph_inv (content s1) (store_obj x)"
    "nodes_of (content s1) (store_obj x) = (nodes_of (content (kv x)) (store_obj x))(i \<mapsto> [])"
    "edges_of (content s1) (store_obj x) =
        without_edges (edges_of (content (kv x)) (store_obj x)) (\<lambda>e d. from_id d = i \<or> to_id d = i)"
    "labelled (content s1) (store_obj x) = labelled (content (kv x)) (store_obj x)" by blast
  have "\<forall>j\<in>set ids. \<exists>p. nodes_of (content s1) (store_obj x) j = Some p \<and> p \<noteq> []"
    using Cons.prems(4,5) 1(4) by auto
  then have "\<exists>s2. run_all (delete_one K tx True) ids (x\<lparr>kv := s1\<rparr>) = (Done, x\<lparr>kv := s2\<rparr>) \<and> valid s2
    \<and> graph_inv (content s2) (store_obj x)
    \<and> nodes_of (content s2) (store_obj x) = (\<lambda>j. if j \<in> set ids then Some [] else nodes_of (content s1) (store_obj x) j)
    \<and> edges_of (content s2) (store_obj x) =
        without_edges (edges_of (content s1) (store_obj x)) (\<lambda>e d. from_id d \<in> set ids \<or> to_id d \<in> set ids)
    \<and> labelled (content s2) (store_obj x) = labelled (content s1) (store_obj x)"
    using Cons.IH[of "x\<lparr>kv := s1\<rparr>"] 1(2,3) Cons.prems(3,4) by (simp cong: if_cong)
  then obtain s2 where 2: "run_all (delete_one K tx True) ids (x\<lparr>kv := s1\<rparr>) = (Done, x\<lparr>kv := s2\<rparr>)" "valid s2"
    "graph_inv (content s2) (store_obj x)"
    "nodes_of (content s2) (store_obj x) = (\<lambda>j. if j \<in> set ids then Some [] else nodes_of (content s1) (store_obj x) j)"
    "edges_of (content s2) (store_obj x) =
        without_edges (edges_of (content s1) (store_obj x)) (\<lambda>e d. from_id d \<in> set ids \<or> to_id d \<in> set ids)"
    "labelled (content s2) (store_obj x) = labelled (content (kv x)) (store_obj x)"
    unfolding 1(6) by blast
  have "run_all (delete_one K tx True) (i # ids) x = (Done, x\<lparr>kv := s2\<rparr>)" using 1(1) 2(1) by simp
  moreover have "nodes_of (content s2) (store_obj x) =
      (\<lambda>j. if j \<in> set (i # ids) then Some [] else nodes_of (content (kv x)) (store_obj x) j)"
    unfolding 2(4) 1(4) by (auto simp: fun_eq_iff)
  moreover have "edges_of (content s2) (store_obj x) =
      without_edges (edges_of (content (kv x)) (store_obj x)) (\<lambda>e d. from_id d \<in> set (i # ids) \<or> to_id d \<in> set (i # ids))"
    unfolding 2(5) 1(5) by (auto simp: without_edges_def fun_eq_iff split: option.split)
  ultimately show ?case using 2(2,3,6) by blast
qed

end

section \<open>SET\<close>

definition new_text :: "(u64 \<Rightarrow> string option) \<Rightarrow> string \<Rightarrow> string \<Rightarrow> bool \<Rightarrow> u64 \<Rightarrow> string" where
  "new_text nodes key val is_str i = the (update_json_property (the (nodes i)) key val is_str)"

definition updatable :: "(u64 \<Rightarrow> string option) \<Rightarrow> string \<Rightarrow> string \<Rightarrow> bool \<Rightarrow> u64 \<Rightarrow> bool" where
  \<comment> \<open>the node has a text and the update of it does not throw\<close>
  "updatable nodes key val is_str i \<longleftrightarrow>
     (\<exists>p q. nodes i = Some p \<and> p \<noteq> [] \<and> update_json_property p key val is_str = Some q)"

context kvs_basic
begin

lemma set_nodes_law:
  assumes "valid (kv x)" "graph_inv (content (kv x)) (store_obj x)" "tx \<noteq> 0" "distinct ids"
    and "\<forall>i\<in>set ids. updatable (nodes_of (content (kv x)) (store_obj x)) key v b i \<and> i \<notin> fst ` set p"
  shows "\<exists>s'. run_all (set_node_step K tx label key v b) ids (p, x) =
      (Done, p @ map (\<lambda>i. (i, label, new_text (nodes_of (content (kv x)) (store_obj x)) key v b i)) ids, x\<lparr>kv := s'\<rparr>)
    \<and> content s' = content (kv x) \<and> valid s'"
  using assms
proof (induction ids arbitrary: p x)
  case Nil
  have "x = x\<lparr>kv := kv x\<rparr>" by simp
  then show ?case using Nil by (auto intro!: exI[of _ "kv x"])
next
  case (Cons i ids)
  let ?N = "nodes_of (content (kv x)) (store_obj x)"
  obtain t q where t: "?N i = Some t" "t \<noteq> []" "update_json_property t key v b = Some q" "i \<notin> fst ` set p"
    using Cons.prems(5) by (auto simp: updatable_def)
  have q: "new_text ?N key v b i = q" using t by (simp add: new_text_def)
  obtain s1 where g: "get_node K tx (store_obj x) i (kv x) = (Some t, s1)" "content s1 = content (kv x)" "valid s1"
    using get_node_law[OF Cons.prems(1-3), of i] t(1) by auto
  have "map_of p i = None" using t(4) by (simp add: map_of_eq_None_iff)
  then have 1: "set_node_step K tx label key v b i (p, x) = (Done, p @ [(i, label, q)], x\<lparr>kv := s1\<rparr>)"
    using g(1) t(3,4) by (simp add: set_node_step_def alist_update_fresh)
  have "\<forall>j\<in>set ids. updatable ?N key v b j \<and> j \<notin> fst ` set (p @ [(i, label, q)])"
    using Cons.prems(4,5) by auto
  then have "\<exists>s'. run_all (set_node_step K tx label key v b) ids (p @ [(i, label, q)], x\<lparr>kv := s1\<rparr>) =
      (Done, (p @ [(i, label, q)]) @ map (\<lambda>i. (i, label, new_text ?N key v b i)) ids, (x\<lparr>kv := s1\<rparr>)\<lparr>kv := s'\<rparr>)
    \<and> content s' = content (kv x) \<and> valid s'"
    using Cons.IH[of "x\<lparr>kv := s1\<rparr>" "p @ [(i, label, q)]"] g(2,3) Cons.prems(2-4) by simp
  then show ?case using 1 q by auto
qed

lemma apply_pending_law:
  assumes "valid s" "graph_inv (content s) so" "tx \<noteq> 0" "i < next_id so"
  shows "valid (apply_pending K ords tx so (i, label, q) s) \<and> graph_inv (content (apply_pending K ords tx so (i, label, q) s)) so
    \<and> nodes_of (content (apply_pending K ords tx so (i, label, q) s)) so = (nodes_of (content s) so)(i \<mapsto> q)
    \<and> edges_of (content (apply_pending K ords tx so (i, label, q) s)) so = edges_of (content s) so"
  using update_node_law[OF assms, of q] update_node_with_label_law[OF assms, of "string_order ords" label q]
  by (auto simp: apply_pending_def)

lemma apply_all_law:
  assumes "valid s" "graph_inv (content s) so" "tx \<noteq> 0"
    and "\<forall>e\<in>set L. fst e < next_id so \<and> snd (snd e) = q (fst e)"
  shows "valid (fold (apply_pending K ords tx so) L s) \<and> graph_inv (content (fold (apply_pending K ords tx so) L s)) so
    \<and> nodes_of (content (fold (apply_pending K ords tx so) L s)) so =
        (\<lambda>j. if j \<in> fst ` set L then Some (q j) else nodes_of (content s) so j)
    \<and> edges_of (content (fold (apply_pending K ords tx so) L s)) so = edges_of (content s) so"
  using assms
proof (induction L arbitrary: s)
  case (Cons e L)
  obtain i label where e: "e = (i, label, q i)" using Cons.prems(4) by (cases e) auto
  let ?s = "apply_pending K ords tx so e s"
  have "i < next_id so" using Cons.prems(4) e by simp
  note A = apply_pending_law[OF Cons.prems(1-3) this, of ords label "q i", folded e]
  have v: "valid ?s" "graph_inv (content ?s) so" using A by blast+
  have "\<forall>e\<in>set L. fst e < next_id so \<and> snd (snd e) = q (fst e)" using Cons.prems(4) by simp
  from Cons.IH[OF v Cons.prems(3) this] show ?case
    using A e by (auto simp: fun_eq_iff)
qed simp

lemma execute_set_law:
  assumes "valid (kv x)" "graph_inv (content (kv x)) (store_obj x)" "tx \<noteq> 0"
    and "\<forall>p. mset (pending_order ords p) = mset p" "asgn_value a = Literal v b"
    and "ctx x (asgn_variable a) = Some ids" "distinct ids"
    and "\<forall>i\<in>set ids. updatable (nodes_of (content (kv x)) (store_obj x)) (asgn_property a) v b i"
  shows "\<exists>s'. execute_set K ords tx [a] x = (Done, x\<lparr>kv := s'\<rparr>) \<and> valid s' \<and> graph_inv (content s') (store_obj x)
    \<and> nodes_of (content s') (store_obj x) = (\<lambda>j. if j \<in> set ids
        then Some (new_text (nodes_of (content (kv x)) (store_obj x)) (asgn_property a) v b j)
        else nodes_of (content (kv x)) (store_obj x) j)
    \<and> edges_of (content s') (store_obj x) = edges_of (content (kv x)) (store_obj x)"
proof -
  let ?N = "nodes_of (content (kv x)) (store_obj x)" and ?so = "store_obj x"
  let ?q = "new_text ?N (asgn_property a) v b"
  define label where "label = (case ctx_labels x (asgn_variable a) of None \<Rightarrow> [] | Some l \<Rightarrow> l)"
  define p where "p = map (\<lambda>i. (i, label, ?q i)) ids"
  have "\<forall>i\<in>set ids. updatable ?N (asgn_property a) v b i \<and> i \<notin> fst ` set []" using assms(8) by simp
  from set_nodes_law[OF assms(1-3,7) this, of label] obtain s1 where
    1: "run_all (set_node_step K tx label (asgn_property a) v b) ids ([], x) = (Done, p, x\<lparr>kv := s1\<rparr>)"
    "content s1 = content (kv x)" "valid s1" by (auto simp: p_def)
  have set_p: "set (pending_order ords p) = set p" using assms(4) by (metis mset_eq_setD)
  have below: "\<forall>e\<in>set (pending_order ords p). fst e < next_id ?so \<and> snd (snd e) = ?q (fst e)"
    unfolding set_p using assms(2,8) live_node_below[OF assms(2)] by (fastforce simp: p_def updatable_def)
  let ?s = "fold (apply_pending K ords tx ?so) (pending_order ords p) s1"
  have inv1: "graph_inv (content s1) ?so" using 1(2) assms(2) by simp
  note A = apply_all_law[OF 1(3) inv1 assms(3) below, of ords]
  have "fst ` set (pending_order ords p) = set ids" unfolding set_p by (force simp: p_def)
  moreover have "execute_set K ords tx [a] x = (Done, x\<lparr>kv := ?s\<rparr>)"
    using 1(1) assms(5,6) by (simp add: execute_set_def set_assignment_def label_def)
  ultimately show ?thesis using A by (intro exI[of _ ?s]) (simp add: 1(2) cong: if_cong)
qed

end

section \<open>Properties\<close>

text \<open>The executor's record for a new query on \<open>one_node\<close>, with the node bound.\<close>

definition bound_one :: "mock_state exec" where
  "bound_one = (new_exec (opened\<lparr>next_id := 2\<rparr>) one_node)\<lparr>ctx := [''n'' \<mapsto> [1]]\<rparr>"

lemma bound_one_ok:
  "mock_valid (kv bound_one)" "graph_inv (mock_db_state (kv bound_one)) (store_obj bound_one)"
  "ctx bound_one = [''n'' \<mapsto> [1]]" "ctx_labels bound_one = (\<lambda>_. None)"
  "nodes_of (mock_db_state (kv bound_one)) (store_obj bound_one) 1 = Some bob_text"
  using one_node_store by (simp_all add: bound_one_def new_exec_def)

text \<open>C9: without a usable index (no label of the variable is known, or the comparison is \<open><>\<close>), WHERE keeps exactly the bound nodes whose stored text passes the
  comparison, in their order, however the scan is cut into batches and whatever the number of
  threads that filter a batch.\<close>

theorem where_scan_is_filter:
  assumes "kvs_basic K content valid" "valid (kv x)" "graph_inv (content (kv x)) (store_obj x)" "tx \<noteq> 0"
    and "where_variable w \<noteq> []" "where_property w \<noteq> []" "ctx x (where_variable w) = Some ids"
    and "ctx_labels x (where_variable w) = None \<or> where_op w = ''<>''"
  shows "\<exists>s'. execute_where K hw tx w x = (Done, x\<lparr>kv := s', ctx := (ctx x)(where_variable w \<mapsto>
      filter (node_passes (nodes_of (content (kv x)) (store_obj x))
        (filter_value (where_op w) (where_property w) (fst (compare_literal w)) (snd (compare_literal w)))) ids)\<rparr>)
    \<and> content s' = content (kv x)"
proof -
  let ?ok = "filter_value (where_op w) (where_property w) (fst (compare_literal w)) (snd (compare_literal w))"
  obtain s' where "scan_batches K hw tx (store_obj x) ?ok ids (kv x) =
      (filter (node_passes (nodes_of (content (kv x)) (store_obj x)) ?ok) ids, s')" "content s' = content (kv x)"
    using kvs_basic.scan_batches_law[OF assms(1-4)] by blast
  moreover have "where_index K tx (store_obj x) w c (ctx_labels x (where_variable w)) (kv x) = (None, kv x)" for c
    using assms(8) by (auto simp: where_index_def split: option.split)
  ultimately show ?thesis
    using assms(5-7) by (intro exI[of _ s']) (simp add: execute_where_def case_prod_beta)
qed

definition where_bob :: where_clause where
  "where_bob = \<lparr>where_condition = Variable ''n'', where_variable = ''n'', where_property = ''name'', where_op = ''='',
     where_val = Own_value (Literal ''Bob'' True)\<rparr>"

lemma where_bob_fields:
  "where_variable where_bob = ''n''" "where_property where_bob = ''name''" "where_op where_bob = ''=''"
  "compare_literal where_bob = (''Bob'', None)"
  by (simp_all add: where_bob_def compare_literal_def)

lemma where_scan_is_filter_witness:
  "\<exists>s'. execute_where mock_kvs 8 1 where_bob bound_one = (Done, bound_one\<lparr>kv := s', ctx := [''n'' \<mapsto> [1]]\<rparr>)"
proof -
  have "get_json_value bob_text ''name'' = ''Bob''" by code_simp
  then have "filter_value ''='' ''name'' ''Bob'' None bob_text" by (simp add: filter_value_def)
  then have f: "filter (node_passes (nodes_of (mock_db_state (kv bound_one)) (store_obj bound_one)) (filter_value ''='' ''name'' ''Bob'' None)) [1] = [1]"
    by (simp add: node_passes_def bound_one_ok(5))
  have c: "(ctx bound_one)(''n'' \<mapsto> [1]) = [''n'' \<mapsto> [1]]" by (simp add: bound_one_ok(3))
  have n: "ctx bound_one ''n'' = Some [1]" "ctx_labels bound_one ''n'' = None" by (simp_all add: bound_one_ok(3,4))
  from where_scan_is_filter[OF mock.kvs_basic_axioms bound_one_ok(1,2), of 1 where_bob "[1]" 8, unfolded where_bob_fields fst_conv snd_conv f c]
  show ?thesis using n by auto
qed



text \<open>C10: expanding a relationship without a variable from a bound variable without a label binds the next
  variable to exactly the end points of the edges of the graph that leave the bound nodes in the
  pattern's direction, have its type and end in a node of its label, when no other label of the
  index continues that label.\<close>

theorem match_expands_edges:
  assumes "kvs_basic K content valid" "valid (kv x)" "graph_inv (content (kv x)) (store_obj x)" "tx \<noteq> 0"
    and "node_label a = []" "node_variable a \<noteq> []" "ctx x (node_variable a) = Some sources"
    and "rel_variable r = []" "node_variable b \<noteq> []"
    and "node_label b = [] \<or> label_alone (content (kv x) (label_index_handle (store_obj x))) (node_label b)"
  shows "\<exists>x' found. execute_match K tx [[\<lparr>elem_node = a, elem_rel = Some r\<rparr>, \<lparr>elem_node = b, elem_rel = None\<rparr>]] x = (Done, x')
    \<and> ctx x' = (ctx x)(node_variable b \<mapsto> found)
    \<and> set found = {edge_target r d |e d. edges_of (content (kv x)) (store_obj x) e = Some d
        \<and> edge_source r d \<in> set sources \<and> (rel_type r = [] \<or> edge_label d = rel_type r)
        \<and> (node_label b = [] \<or> labelled (content (kv x)) (store_obj x) (node_label b) (edge_target r d))}"
proof -
  let ?l = "node_label b" and ?so = "store_obj x" and ?c = "content (kv x)"
  define cache where "cache = fst (cache_label K tx ?l (\<lambda>_. None) x)"
  have "\<exists>s1. cache_label K tx ?l (\<lambda>_. None) x = (cache, x\<lparr>kv := s1\<rparr>) \<and> content s1 = ?c \<and> valid s1
      \<and> (?l \<noteq> [] \<longrightarrow> (\<exists>ids. cache ?l = Some ids \<and> set ids = {i. labelled ?c ?so ?l i}))"
  proof (cases "?l = []")
    case True
    have "x = x\<lparr>kv := kv x\<rparr>" by simp
    then show ?thesis using True assms(2) by (auto simp: cache_def cache_label_def intro!: exI[of _ "kv x"])
  next
    case False
    then obtain ids s1 where "find_nodes_by_label K tx ?so ?l (kv x) = (Some ids, s1)" "content s1 = ?c" "valid s1"
      "set ids = {i. labelled ?c ?so ?l i}"
      using kvs_basic.find_label_law[OF assms(1-4) False] assms(10) by blast
    then show ?thesis using False by (auto simp: cache_def cache_label_def)
  qed
  then obtain s1 where 1: "cache_label K tx ?l (\<lambda>_. None) x = (cache, x\<lparr>kv := s1\<rparr>)" "content s1 = ?c" "valid s1"
    "?l \<noteq> [] \<longrightarrow> (\<exists>ids. cache ?l = Some ids \<and> set ids = {i. labelled ?c ?so ?l i})" by blast
  let ?set = "if ?l = [] then None else cache ?l"
  obtain found s2 where 2: "run_all (hop_source K tx r (node_variable a) ?set) sources ([], x\<lparr>kv := s1\<rparr>) = (Done, found, x\<lparr>kv := s2\<rparr>)"
    "set found = {edge_target r d |e d. edges_of ?c ?so e = Some d \<and> edge_source r d \<in> set sources \<and> edge_fits r ?set d}"
    using kvs_basic.hop_sources_law[OF assms(1), of "x\<lparr>kv := s1\<rparr>" tx r "node_variable a" ?set sources "[]"]
      1(2,3) assms(3,4,8) by auto
  have fits: "edge_fits r ?set d \<longleftrightarrow> (rel_type r = [] \<or> edge_label d = rel_type r)
      \<and> (?l = [] \<or> labelled ?c ?so ?l (edge_target r d))" for d
    using 1(4) by (auto simp: edge_fits_def)
  let ?x2 = "(x\<lparr>kv := s2\<rparr>)\<lparr>ctx := (ctx x)(node_variable b \<mapsto> found)\<rparr>"
  let ?x3 = "if ?l = [] then ?x2 else ?x2\<lparr>ctx_labels := (ctx_labels x)(node_variable b \<mapsto> ?l)\<rparr>"
  have "execute_match K tx [[\<lparr>elem_node = a, elem_rel = Some r\<rparr>, \<lparr>elem_node = b, elem_rel = None\<rparr>]] x = (Done, ?x3)"
    using 1(1) 2(1) assms(5-7,9) by (simp add: execute_match_def match_first_def)
  moreover have "ctx ?x3 = (ctx x)(node_variable b \<mapsto> found)" by simp
  ultimately show ?thesis using 2(2) unfolding fits by blast
qed

text \<open>A store with the one edge 1, from node 5 to node 6.\<close>

definition edge_store :: "storage \<times> mock_state" where
  "edge_store = after_run [New_edge 5 6 ''R'' []]"

lemma edge_store_ok:
  "mock_valid (snd edge_store)" "graph_inv (mock_db_state (snd edge_store)) (fst edge_store)"
  "edges_of (mock_db_state (snd edge_store)) (fst edge_store) =
     [1 \<mapsto> \<lparr>from_id = 5, to_id = 6, edge_label = ''R'', edge_properties = []\<rparr>]"
proof -
  have "run_ok [New_edge 5 6 ''R'' []] (graph_of (mock_db_state empty_mock) opened)" by (simp add: opened_graph)
  note ok = after_run_ok[OF this, folded edge_store_def]
  have "g_edges (graph_of (mock_db_state (snd edge_store)) (fst edge_store)) =
      [1 \<mapsto> \<lparr>from_id = 5, to_id = 6, edge_label = ''R'', edge_properties = []\<rparr>]"
    unfolding ok(3) by (simp add: opened_graph)
  then show "mock_valid (snd edge_store)" "graph_inv (mock_db_state (snd edge_store)) (fst edge_store)"
    "edges_of (mock_db_state (snd edge_store)) (fst edge_store) =
     [1 \<mapsto> \<lparr>from_id = 5, to_id = 6, edge_label = ''R'', edge_properties = []\<rparr>]"
    using ok(1,2) by (simp_all add: graph_of_def)
qed

definition plain_node :: "string \<Rightarrow> pattern_node" where
  "plain_node v = \<lparr>node_variable = v, node_label = [], node_props = []\<rparr>"

definition plain_rel :: "string \<Rightarrow> pattern_relationship" where
  "plain_rel dir = \<lparr>rel_variable = [], rel_type = [], rel_direction = dir, rel_props = []\<rparr>"

lemma match_expands_edges_witness:
  "\<exists>x' found. execute_match mock_kvs 1 [[\<lparr>elem_node = plain_node ''a'', elem_rel = Some (plain_rel ''->'')\<rparr>,
       \<lparr>elem_node = plain_node ''b'', elem_rel = None\<rparr>]]
     ((new_exec (fst edge_store) (snd edge_store))\<lparr>ctx := [''a'' \<mapsto> [5, 7]]\<rparr>) = (Done, x')
   \<and> ctx x' ''b'' = Some found \<and> set found = {6}"
proof -
  let ?x = "(new_exec (fst edge_store) (snd edge_store))\<lparr>ctx := [''a'' \<mapsto> [5, 7]]\<rparr>"
  have k: "kv ?x = snd edge_store" "store_obj ?x = fst edge_store" "ctx ?x = [''a'' \<mapsto> [5, 7]]" by (simp_all add: new_exec_def)
  have n: "node_variable (plain_node v) = v" "node_label (plain_node v) = []" for v by (simp_all add: plain_node_def)
  have r: "rel_variable (plain_rel d) = []" "rel_type (plain_rel d) = []" for d by (simp_all add: plain_rel_def)
  have t: "edge_target (plain_rel ''->'') = to_id" "edge_source (plain_rel ''->'') = from_id"
    by (simp_all add: fun_eq_iff edge_target_def edge_source_def plain_rel_def)
  have v: "mock_valid (kv ?x)" "graph_inv (mock_db_state (kv ?x)) (store_obj ?x)"
    unfolding k by (rule edge_store_ok)+
  obtain x' found where "execute_match mock_kvs 1 [[\<lparr>elem_node = plain_node ''a'', elem_rel = Some (plain_rel ''->'')\<rparr>,
       \<lparr>elem_node = plain_node ''b'', elem_rel = None\<rparr>]] ?x = (Done, x')" "ctx x' = (ctx ?x)(''b'' \<mapsto> found)"
    "set found = {to_id d |e d. edges_of (mock_db_state (kv ?x)) (store_obj ?x) e = Some d \<and> from_id d \<in> set [5, 7]}"
    using match_expands_edges[OF mock.kvs_basic_axioms v, of 1 "plain_node ''a''" "[5, 7]" "plain_rel ''->''" "plain_node ''b''", unfolded n r t]
      k(3) by auto
  moreover have "{to_id d |e d. edges_of (mock_db_state (kv ?x)) (store_obj ?x) e = Some d \<and> from_id d \<in> set [5, 7]} = {6}"
    unfolding k edge_store_ok(3) by auto
  ultimately show ?thesis by auto
qed

text \<open>C11: CREATE of a path of two nodes that have distinct variables, neither of them bound before,
  adds exactly two nodes, with the texts and labels of their patterns, and one edge between them
  in the pattern's direction, under three consecutive ids, and binds the variables to them, and
  the relationship's variable, if it has one other than the second node's, to the edge; provided
  the ids do not run out and the type's length fits 32 bits.\<close>

theorem create_path_adds_graph:
  assumes "kvs_basic K content valid" "valid (kv x)" "graph_inv (content (kv x)) (store_obj x)" "tx \<noteq> 0"
    and "uint (next_id (store_obj x)) + 3 < 2 ^ 64" "length (rel_type r) + 20 < 2 ^ 32"
    and "node_variable a \<noteq> []" "node_variable b \<noteq> []" "node_variable a \<noteq> node_variable b" "rel_variable r \<noteq> node_variable b"
    and "ctx x (node_variable a) = None" "ctx x (node_variable b) = None" "i = next_id (store_obj x)"
  shows "\<exists>x'. execute_create K tx [[\<lparr>elem_node = a, elem_rel = Some r\<rparr>, \<lparr>elem_node = b, elem_rel = None\<rparr>]] x = (Done, x')
    \<and> graph_inv (content (kv x')) (store_obj x')
    \<and> nodes_of (content (kv x')) (store_obj x') = (nodes_of (content (kv x)) (store_obj x))
        (i \<mapsto> evaluate_properties (unwind_ctx x) (node_props a), i + 1 \<mapsto> evaluate_properties (unwind_ctx x) (node_props b))
    \<and> edges_of (content (kv x')) (store_obj x') = (edges_of (content (kv x)) (store_obj x))(i + 2 \<mapsto>
        \<lparr>from_id = (if rel_direction r = ''<-'' then i + 1 else i), to_id = (if rel_direction r = ''<-'' then i else i + 1),
         edge_label = rel_type r, edge_properties = evaluate_properties (unwind_ctx x) (rel_props r)\<rparr>)
    \<and> labelled (content (kv x')) (store_obj x') =
        with_label (with_label (labelled (content (kv x)) (store_obj x)) (node_label a) i) (node_label b) (i + 1)
    \<and> ctx x' = (let c = (ctx x)(node_variable a \<mapsto> [i], node_variable b \<mapsto> [i + 1])
        in if rel_variable r = [] then c else c(rel_variable r \<mapsto> [i + 2]))"
proof -
  have up: "uint (i + 1) = uint i + 1" "uint (i + 1 + 1) = uint i + 2"
    using uint_add_small[of i 1] uint_add_small[of i 2] assms(5) by (simp_all add: assms(13) add.assoc)
  have ne: "i + 1 \<noteq> 0" "i + 1 + 1 \<noteq> 0" "i + 1 + 1 + 1 \<noteq> 0"
    using not_last[of i 3] not_last[of "i + 1" 2] not_last[of "i + 1 + 1" 1] assms(5) up by (simp_all add: assms(13))
  obtain x1 where 1: "bound_or_new K tx a x = (Some i, x1)" "valid (kv x1)" "graph_inv (content (kv x1)) (store_obj x1)"
    "next_id (store_obj x1) = i + 1"
    "nodes_of (content (kv x1)) (store_obj x1) = (nodes_of (content (kv x)) (store_obj x))(i \<mapsto> evaluate_properties (unwind_ctx x) (node_props a))"
    "edges_of (content (kv x1)) (store_obj x1) = edges_of (content (kv x)) (store_obj x)"
    "labelled (content (kv x1)) (store_obj x1) = with_label (labelled (content (kv x)) (store_obj x)) (node_label a) i"
    "unwind_ctx x1 = unwind_ctx x" "ctx x1 = (ctx x)(node_variable a \<mapsto> [i])"
    using kvs_basic.new_node_law[OF assms(1-4), of a] ne(1) assms(7,11,13) by (auto simp: unbound_def)
  obtain x2 where 2: "bound_or_new K tx b x1 = (Some (i + 1), x2)" "valid (kv x2)" "graph_inv (content (kv x2)) (store_obj x2)"
    "next_id (store_obj x2) = i + 1 + 1"
    "nodes_of (content (kv x2)) (store_obj x2) = (nodes_of (content (kv x1)) (store_obj x1))(i + 1 \<mapsto> evaluate_properties (unwind_ctx x1) (node_props b))"
    "edges_of (content (kv x2)) (store_obj x2) = edges_of (content (kv x1)) (store_obj x1)"
    "labelled (content (kv x2)) (store_obj x2) = with_label (labelled (content (kv x1)) (store_obj x1)) (node_label b) (i + 1)"
    "unwind_ctx x2 = unwind_ctx x1" "ctx x2 = (ctx x1)(node_variable b \<mapsto> [i + 1])"
    using kvs_basic.new_node_law[OF assms(1) 1(2,3) assms(4), of b] ne(2) 1(4,9) assms(8,9,12) by (auto simp: unbound_def)
  obtain x3 where 3: "create_relationship K tx r i (i + 1) x2 = (Done, x3)" "graph_inv (content (kv x3)) (store_obj x3)"
    "nodes_of (content (kv x3)) (store_obj x3) = nodes_of (content (kv x2)) (store_obj x2)"
    "edges_of (content (kv x3)) (store_obj x3) = (edges_of (content (kv x2)) (store_obj x2))(i + 1 + 1 \<mapsto>
        \<lparr>from_id = (if rel_direction r = ''<-'' then i + 1 else i), to_id = (if rel_direction r = ''<-'' then i else i + 1),
         edge_label = rel_type r, edge_properties = evaluate_properties (unwind_ctx x2) (rel_props r)\<rparr>)"
    "labelled (content (kv x3)) (store_obj x3) = labelled (content (kv x2)) (store_obj x2)"
    "ctx x3 = (if rel_variable r = [] then ctx x2 else (ctx x2)(rel_variable r \<mapsto> [i + 1 + 1]))"
    using kvs_basic.new_relationship_law[OF assms(1) 2(2,3) assms(4) _ assms(6), of i "i + 1"] ne(3) 2(4) by auto
  have "ctx x3 (node_variable b) = Some [i + 1]" using 3(6) 2(9) assms(10) by simp
  then have "bound_or_new K tx b x3 = (Some (i + 1), x3)"
    using assms(8) by (simp add: bound_or_new_def)
  then have "execute_create K tx [[\<lparr>elem_node = a, elem_rel = Some r\<rparr>, \<lparr>elem_node = b, elem_rel = None\<rparr>]] x = (Done, x3)"
    using 1(1) 2(1) 3(1) by (simp add: execute_create_def)
  then show ?thesis using 1 2 3 by (intro exI[of _ x3]) (simp add: add.assoc Let_def)
qed

lemma create_path_adds_graph_witness:
  "\<exists>x'. execute_create mock_kvs 1 [[\<lparr>elem_node = plain_node ''a'', elem_rel = Some (plain_rel ''->'')\<rparr>,
       \<lparr>elem_node = plain_node ''b'', elem_rel = None\<rparr>]] (new_exec opened empty_mock) = (Done, x')
   \<and> ctx x' = [''a'' \<mapsto> [1], ''b'' \<mapsto> [2]] \<and> map_option to_id (edges_of (mock_db_state (kv x')) (store_obj x') 3) = Some 2"
proof -
  let ?x = "new_exec opened empty_mock"
  have k: "kv ?x = empty_mock" "store_obj ?x = opened" "ctx ?x = (\<lambda>_. None)" "next_id opened = 1"
    by (simp_all add: new_exec_def opened_def new_storage_def)
  have v: "mock_valid (kv ?x)" "graph_inv (mock_db_state (kv ?x)) (store_obj ?x)"
    unfolding k by (rule empty_mock_valid opened_mock)+
  show ?thesis
    using create_path_adds_graph[OF mock.kvs_basic_axioms v, of 1 "plain_rel ''->''" "plain_node ''a''" "plain_node ''b''" 1] k
    by (auto simp: plain_node_def plain_rel_def)
qed

text \<open>C12: DETACH DELETE of a variable bound to distinct nodes with non-empty texts empties the text of exactly
  these nodes, deletes exactly the edges of the graph that start or end in one of them, leaves
  every other node and edge as it was, and unbinds the variable.  A node is emptied, not removed:
  its key stays in the store with an empty text, and all label entries stay.\<close>

theorem detach_delete_graph:
  assumes "kvs_basic K content valid" "valid (kv x)" "graph_inv (content (kv x)) (store_obj x)" "tx \<noteq> 0"
    and "ctx x v = Some ids" "distinct ids"
    and "\<forall>i\<in>set ids. \<exists>p. nodes_of (content (kv x)) (store_obj x) i = Some p \<and> p \<noteq> []"
  shows "\<exists>x'. execute_delete K tx [v] True x = (Done, x') \<and> ctx x' = (ctx x)(v := None)
    \<and> graph_inv (content (kv x')) (store_obj x')
    \<and> nodes_of (content (kv x')) (store_obj x') = (\<lambda>i. if i \<in> set ids then Some [] else nodes_of (content (kv x)) (store_obj x) i)
    \<and> edges_of (content (kv x')) (store_obj x') =
        without_edges (edges_of (content (kv x)) (store_obj x)) (\<lambda>e d. from_id d \<in> set ids \<or> to_id d \<in> set ids)
    \<and> labelled (content (kv x')) (store_obj x') = labelled (content (kv x)) (store_obj x)"
proof -
  from kvs_basic.detach_all_law[OF assms(1-4,6,7)] obtain s' where
    *: "run_all (delete_one K tx True) ids x = (Done, x\<lparr>kv := s'\<rparr>)" "graph_inv (content s') (store_obj x)"
    "nodes_of (content s') (store_obj x) = (\<lambda>i. if i \<in> set ids then Some [] else nodes_of (content (kv x)) (store_obj x) i)"
    "edges_of (content s') (store_obj x) =
        without_edges (edges_of (content (kv x)) (store_obj x)) (\<lambda>e d. from_id d \<in> set ids \<or> to_id d \<in> set ids)"
    "labelled (content s') (store_obj x) = labelled (content (kv x)) (store_obj x)" by blast
  have "execute_delete K tx [v] True x = (Done, x\<lparr>kv := s', ctx := (ctx x)(v := None)\<rparr>)"
    using *(1) assms(5) by (simp add: execute_delete_def delete_variable_def)
  then show ?thesis using * by (intro exI[of _ "x\<lparr>kv := s', ctx := (ctx x)(v := None)\<rparr>"]) (simp cong: if_cong)
qed

text \<open>Two people and an edge from the first to the second.\<close>

definition linked_ops :: "graph_op list" where
  "linked_ops = [New_node ''Person'' bob_text, New_node ''Person'' amy_text, New_edge 1 2 ''R'' []]"

definition linked_people :: "mock_state exec" where
  "linked_people = (new_exec (fst (after_run linked_ops)) (snd (after_run linked_ops)))\<lparr>ctx := [''n'' \<mapsto> [1]]\<rparr>"

lemma linked_people_ok:
  "mock_valid (kv linked_people)" "graph_inv (mock_db_state (kv linked_people)) (store_obj linked_people)"
  "nodes_of (mock_db_state (kv linked_people)) (store_obj linked_people) = [1 \<mapsto> bob_text, 2 \<mapsto> amy_text]"
  "edges_of (mock_db_state (kv linked_people)) (store_obj linked_people) =
     [3 \<mapsto> \<lparr>from_id = 1, to_id = 2, edge_label = ''R'', edge_properties = []\<rparr>]"
  "labelled (mock_db_state (kv linked_people)) (store_obj linked_people) ''Person'' 1"
  "ctx linked_people = [''n'' \<mapsto> [1]]"
proof -
  let ?g = "graph_of (mock_db_state empty_mock) opened"
  have "run_ok linked_ops ?g" by (simp add: opened_graph linked_ops_def)
  note ok = after_run_ok[OF this]
  have g: "g_nodes (snd (graph_run linked_ops ?g)) = [1 \<mapsto> bob_text, 2 \<mapsto> amy_text]"
    "g_edges (snd (graph_run linked_ops ?g)) = [3 \<mapsto> \<lparr>from_id = 1, to_id = 2, edge_label = ''R'', edge_properties = []\<rparr>]"
    "g_label (snd (graph_run linked_ops ?g)) ''Person'' 1"
    by (simp_all add: opened_graph linked_ops_def)
  have k: "kv linked_people = snd (after_run linked_ops)" "store_obj linked_people = fst (after_run linked_ops)"
    "ctx linked_people = [''n'' \<mapsto> [1]]"
    by (simp_all add: linked_people_def new_exec_def)
  show "mock_valid (kv linked_people)" "graph_inv (mock_db_state (kv linked_people)) (store_obj linked_people)"
    "nodes_of (mock_db_state (kv linked_people)) (store_obj linked_people) = [1 \<mapsto> bob_text, 2 \<mapsto> amy_text]"
    "edges_of (mock_db_state (kv linked_people)) (store_obj linked_people) =
       [3 \<mapsto> \<lparr>from_id = 1, to_id = 2, edge_label = ''R'', edge_properties = []\<rparr>]"
    "labelled (mock_db_state (kv linked_people)) (store_obj linked_people) ''Person'' 1"
    "ctx linked_people = [''n'' \<mapsto> [1]]"
    unfolding k using ok(1,2) g[folded ok(3)] by (simp_all add: graph_of_def)
qed

lemma detach_delete_graph_witness:
  "\<exists>x'. execute_delete mock_kvs 1 [''n''] True linked_people = (Done, x')
    \<and> nodes_of (mock_db_state (kv x')) (store_obj x') 1 = Some [] \<and> nodes_of (mock_db_state (kv x')) (store_obj x') 2 = Some amy_text
    \<and> edges_of (mock_db_state (kv x')) (store_obj x') 3 = None \<and> labelled (mock_db_state (kv x')) (store_obj x') ''Person'' 1"
proof -
  have "bob_text \<noteq> []" by (simp add: bob_text_def)
  then show ?thesis
    using detach_delete_graph[OF mock.kvs_basic_axioms linked_people_ok(1,2), of 1 "''n''" "[1]"] linked_people_ok(3-6)
    by (auto simp: without_edges_def)
qed

text \<open>C13: SET with one assignment of a literal to a variable bound to distinct nodes with texts that can be
  updated rewrites the text of exactly the bound nodes, each as
  \<open>update_json_property\<close> does, whatever the order in which the deferred writes are applied and
  whether or not the label is known.\<close>

theorem set_rewrites_nodes:
  assumes "kvs_basic K content valid" "valid (kv x)" "graph_inv (content (kv x)) (store_obj x)" "tx \<noteq> 0"
    and "\<forall>p. mset (pending_order ords p) = mset p" "asgn_value a = Literal v b"
    and "ctx x (asgn_variable a) = Some ids" "distinct ids"
    and "\<forall>i\<in>set ids. updatable (nodes_of (content (kv x)) (store_obj x)) (asgn_property a) v b i"
  shows "\<exists>s'. execute_set K ords tx [a] x = (Done, x\<lparr>kv := s'\<rparr>) \<and> graph_inv (content s') (store_obj x)
    \<and> nodes_of (content s') (store_obj x) = (\<lambda>j. if j \<in> set ids
        then Some (new_text (nodes_of (content (kv x)) (store_obj x)) (asgn_property a) v b j)
        else nodes_of (content (kv x)) (store_obj x) j)
    \<and> edges_of (content s') (store_obj x) = edges_of (content (kv x)) (store_obj x)"
  using kvs_basic.execute_set_law[OF assms] by blast

lemma set_rewrites_nodes_witness:
  "\<exists>s'. execute_set mock_kvs \<lparr>string_order = id, pending_order = rev\<rparr> 1
      [\<lparr>asgn_variable = ''n'', asgn_property = ''name'', asgn_value = Literal ''Amy'' True\<rparr>] bound_one = (Done, bound_one\<lparr>kv := s'\<rparr>)
    \<and> nodes_of (mock_db_state s') (store_obj bound_one) 1 = Some amy_text"
proof -
  let ?a = "\<lparr>asgn_variable = ''n'', asgn_property = ''name'', asgn_value = Literal ''Amy'' True\<rparr>"
  have u: "update_json_property bob_text ''name'' ''Amy'' True = Some amy_text" by code_simp
  have n: "bob_text \<noteq> []" by (simp add: bob_text_def)
  have up: "updatable (nodes_of (mock_db_state (kv bound_one)) (store_obj bound_one)) ''name'' ''Amy'' True 1"
    "new_text (nodes_of (mock_db_state (kv bound_one)) (store_obj bound_one)) ''name'' ''Amy'' True 1 = amy_text"
    using u n by (simp_all add: updatable_def new_text_def bound_one_ok(5))
  show ?thesis
    using set_rewrites_nodes[OF mock.kvs_basic_axioms bound_one_ok(1,2), of 1 "\<lparr>string_order = id, pending_order = rev\<rparr>" ?a "''Amy''" True "[1]"]
      up bound_one_ok(3) by auto
qed

section \<open>Where the clauses surprise\<close>

text \<open>
  The end of a relationship is created when the relationship is met and met again as an element
  of its own: without a variable it is created twice, the second time with no edge.
\<close>

lemma anonymous_end_created_twice:
  "\<exists>x'. execute_create mock_kvs 1 [[\<lparr>elem_node = plain_node ''a'', elem_rel = Some (plain_rel ''->'')\<rparr>,
       \<lparr>elem_node = plain_node [], elem_rel = None\<rparr>]] (new_exec opened empty_mock) = (Done, x')
   \<and> nodes_of (mock_db_state (kv x')) (store_obj x') = [1 \<mapsto> ''{}'', 2 \<mapsto> ''{}'', 4 \<mapsto> ''{}'']
   \<and> dom (edges_of (mock_db_state (kv x')) (store_obj x')) = {3}"
proof -
  let ?x = "new_exec opened empty_mock"
  have k: "kv ?x = empty_mock" "store_obj ?x = opened" "ctx ?x = (\<lambda>_. None)" "next_id opened = 1" "unwind_ctx ?x = (\<lambda>_. None)"
    by (simp_all add: new_exec_def opened_def new_storage_def)
  have v: "mock_valid (kv ?x)" "graph_inv (mock_db_state (kv ?x)) (store_obj ?x)"
    unfolding k by (rule empty_mock_valid opened_mock)+
  have g: "nodes_of (mock_db_state empty_mock) opened = (\<lambda>_. None)" "edges_of (mock_db_state empty_mock) opened = (\<lambda>_. None)"
    using opened_graph by (simp_all add: graph_of_def)
  have n: "node_variable (plain_node w) = w" "node_props (plain_node w) = []" for w by (simp_all add: plain_node_def)
  have e: "evaluate_properties uw [] = ''{}''" for uw by (simp add: evaluate_properties_def)
  obtain x1 where 1: "bound_or_new mock_kvs 1 (plain_node ''a'') ?x = (Some 1, x1)" "mock_valid (kv x1)"
    "graph_inv (mock_db_state (kv x1)) (store_obj x1)" "next_id (store_obj x1) = 2"
    "nodes_of (mock_db_state (kv x1)) (store_obj x1) = [1 \<mapsto> ''{}'']" "edges_of (mock_db_state (kv x1)) (store_obj x1) = (\<lambda>_. None)"
    using mock.new_node_law[OF v, of 1 "plain_node ''a''"] by (auto simp: k g n e unbound_def)
  obtain x2 where 2: "bound_or_new mock_kvs 1 (plain_node []) x1 = (Some 2, x2)" "mock_valid (kv x2)"
    "graph_inv (mock_db_state (kv x2)) (store_obj x2)" "next_id (store_obj x2) = 3"
    "nodes_of (mock_db_state (kv x2)) (store_obj x2) = [1 \<mapsto> ''{}'', 2 \<mapsto> ''{}'']" "edges_of (mock_db_state (kv x2)) (store_obj x2) = (\<lambda>_. None)"
    using mock.new_node_law[OF 1(2,3), of 1 "plain_node []"] 1(4-6) by (auto simp: n e unbound_def)
  obtain x3 where 3: "create_relationship mock_kvs 1 (plain_rel ''->'') 1 2 x2 = (Done, x3)" "mock_valid (kv x3)"
    "graph_inv (mock_db_state (kv x3)) (store_obj x3)" "next_id (store_obj x3) = 4"
    "nodes_of (mock_db_state (kv x3)) (store_obj x3) = [1 \<mapsto> ''{}'', 2 \<mapsto> ''{}'']" "dom (edges_of (mock_db_state (kv x3)) (store_obj x3)) = {3}"
    using mock.new_relationship_law[OF 2(2,3), of 1 "plain_rel ''->''" 1 2] 2(4-6) by (auto simp: plain_rel_def)
  obtain x4 where 4: "bound_or_new mock_kvs 1 (plain_node []) x3 = (Some 4, x4)"
    "nodes_of (mock_db_state (kv x4)) (store_obj x4) = [1 \<mapsto> ''{}'', 2 \<mapsto> ''{}'', 4 \<mapsto> ''{}'']"
    "edges_of (mock_db_state (kv x4)) (store_obj x4) = edges_of (mock_db_state (kv x3)) (store_obj x3)"
    using mock.new_node_law[OF 3(2,3), of 1 "plain_node []"] 3(4,5) by (auto simp: n e unbound_def)
  have "execute_create mock_kvs 1 [[\<lparr>elem_node = plain_node ''a'', elem_rel = Some (plain_rel ''->'')\<rparr>,
       \<lparr>elem_node = plain_node [], elem_rel = None\<rparr>]] ?x = (Done, x4)"
    using 1(1) 2(1) 3(1) 4(1) by (simp add: execute_create_def)
  then show ?thesis using 4(2,3) 3(6) by auto
qed

text \<open>A relationship that has the variable of the node before it extends the vector that the loop runs over.\<close>

lemma relationship_variable_alias:
  "fst (execute_match mock_kvs 1 [[\<lparr>elem_node = plain_node ''n'', elem_rel = Some ((plain_rel ''->'')\<lparr>rel_variable := ''n''\<rparr>)\<rparr>,
       \<lparr>elem_node = plain_node ''m'', elem_rel = None\<rparr>]]
     ((new_exec (fst edge_store) (snd edge_store))\<lparr>ctx := [''n'' \<mapsto> [5]]\<rparr>)) = Undefined"
proof -
  let ?x = "(new_exec (fst edge_store) (snd edge_store))\<lparr>ctx := [''n'' \<mapsto> [5]]\<rparr>"
  let ?r = "(plain_rel ''->'')\<lparr>rel_variable := ''n''\<rparr>"
  have k: "kv ?x = snd edge_store" "store_obj ?x = fst edge_store" "ctx ?x = [''n'' \<mapsto> [5]]" by (simp_all add: new_exec_def)
  obtain es s1 where o: "get_outgoing_edges mock_kvs 1 (fst edge_store) 5 (snd edge_store) = (Some es, s1)"
    "mock_db_state s1 = mock_db_state (snd edge_store)" "mock_valid s1"
    "set es = {e. to_key 5 @ to_key e \<in> map_keys (mock_db_state (snd edge_store) (out_index_handle (fst edge_store)))}"
    using mock.outgoing_law[OF edge_store_ok(1,2), of 1 5] by auto
  have snd: "index_sound (mock_db_state (snd edge_store) (edges_handle (fst edge_store)))
      (mock_db_state (snd edge_store) (out_index_handle (fst edge_store))) from_id"
    using edge_store_ok(2) by (simp add: graph_inv_def)
  have "\<forall>d. edge_at (mock_db_state (snd edge_store) (edges_handle (fst edge_store))) 1 = Some d \<longrightarrow>
      to_key (from_id d) @ to_key 1 \<in> map_keys (mock_db_state (snd edge_store) (out_index_handle (fst edge_store)))"
    using snd unfolding index_sound_def by blast
  moreover have "edge_at (mock_db_state (snd edge_store) (edges_handle (fst edge_store))) 1 =
      Some \<lparr>from_id = 5, to_id = 6, edge_label = ''R'', edge_properties = []\<rparr>"
    using edge_store_ok(3) unfolding edges_of_def by (rule fun_cong[THEN trans]) simp
  ultimately have "1 \<in> set es" unfolding o(4) by simp
  moreover have "fst (hop_edges mock_kvs 1 ?r ''n'' None es (acc, y)) = Undefined"
    if "1 \<in> set es" "mock_valid (kv y)" "mock_db_state (kv y) = mock_db_state (snd edge_store)" "store_obj y = fst edge_store" for es acc y
    using that
  proof (induction es arbitrary: y acc)
    case (Cons e es)
    have inv: "graph_inv (mock_db_state (kv y)) (store_obj y)" using Cons.prems edge_store_ok(2) by simp
    obtain q s2 where g: "get_edge mock_kvs 1 (store_obj y) e (kv y) = (q, s2)" "mock_db_state s2 = mock_db_state (kv y)" "mock_valid s2"
      "edges_of (mock_db_state (kv y)) (store_obj y) e = (case q of Decoded d \<Rightarrow> Some d | _ \<Rightarrow> None)" "q \<noteq> Out_of_bounds"
      using mock.get_edge_law[OF Cons.prems(2) inv, of 1 e] by auto
    show ?case
    proof (cases q)
      case Rejected
      then have "e \<noteq> 1" using g(4) Cons.prems(3,4) edge_store_ok(3) by auto
      then show ?thesis using Cons.IH[of "y\<lparr>kv := s2\<rparr>" acc] Cons.prems g(1-3) Rejected by simp
    next
      case (Decoded d)
      then show ?thesis using g(1) by (simp add: plain_rel_def)
    qed (use g in simp)
  qed simp
  ultimately have "fst (hop_edges mock_kvs 1 ?r ''n'' None es ([], ?x\<lparr>kv := s1\<rparr>)) = Undefined"
    using o(2,3) k(2) by simp
  then have "fst (hop_source mock_kvs 1 ?r ''n'' None 5 ([], ?x)) = Undefined"
    using o(1) k by (simp add: hop_source_def plain_rel_def)
  then show ?thesis
    using k(3) by (cases "hop_source mock_kvs 1 ?r ''n'' None 5 ([], ?x)")
      (simp add: execute_match_def match_first_def plain_node_def cache_label_def plain_rel_def)
qed

text \<open>An expression that is neither a variable nor a property access leaves an empty item, so the
  result is not a JSON text.\<close>

lemma return_of_literals:
  "result_json (snd (execute_return mock_kvs 1 [\<lparr>item_expr = Literal ''1'' False, item_alias = []\<rparr>,
     \<lparr>item_expr = Literal ''2'' False, item_alias = []\<rparr>] (new_exec opened empty_mock))) = ''[{, }]''"
  by (simp add: execute_return_def return_batch_def row_json_def item_json_def max_rows_def needed_vars_def item_variable_def
      batch_size_def new_exec_def)

end
