(* ===== verification/Clause_Props.thy ===== *)
theory Clause_Props
  imports Exec_Props
begin

text \<open>
  RETURN against a table of cells that knows nothing of batches and caches, UNWIND with CREATE, and
  the fusion of MATCH and WHERE against the two clauses run one after the other.
\<close>

section \<open>The table of RETURN\<close>

text \<open>The cell of an item in a row, read off the graph.\<close>

definition alias_text :: "return_item \<Rightarrow> string" where
  "alias_text it = (if item_alias it \<noteq> [] then item_alias it
     else case item_expr it of Variable v \<Rightarrow> v | Property_access v key \<Rightarrow> v @ ''.'' @ key | _ \<Rightarrow> [])"

definition element_text :: "(u64 \<Rightarrow> string option) \<Rightarrow> (u64 \<Rightarrow> edge_data option) \<Rightarrow> u64 \<Rightarrow> string" where
  "element_text N E i =
     (case N i of
        Some (c # cs) \<Rightarrow> c # cs
      | _ \<Rightarrow> (case E i of Some d \<Rightarrow> edge_json i d | None \<Rightarrow> ''null''))"

definition cell_value :: "(u64 \<Rightarrow> string option) \<Rightarrow> (u64 \<Rightarrow> edge_data option) \<Rightarrow> expression \<Rightarrow> u64 \<Rightarrow> string" where
  "cell_value N E e i =
     (case e of
        Property_access v key \<Rightarrow> property_json (case N i of None \<Rightarrow> [] | Some p \<Rightarrow> p) key
      | _ \<Rightarrow> element_text N E i)"

definition cell ::
  "(u64 \<Rightarrow> string option) \<Rightarrow> (u64 \<Rightarrow> edge_data option) \<Rightarrow> (string \<Rightarrow> u64 list option) \<Rightarrow> nat \<Rightarrow> return_item \<Rightarrow> string" where
  "cell N E c row it = json_quoted (alias_text it) @ '': '' @
     (case c (item_variable it) of
        None \<Rightarrow> ''null''
      | Some ids \<Rightarrow> if row < length ids then cell_value N E (item_expr it) (ids ! row) else ''null'')"

definition row_text ::
  "(u64 \<Rightarrow> string option) \<Rightarrow> (u64 \<Rightarrow> edge_data option) \<Rightarrow> (string \<Rightarrow> u64 list option) \<Rightarrow> return_item list \<Rightarrow> nat \<Rightarrow> string" where
  "row_text N E c items row = ''{'' @ join '', '' (map (cell N E c row) items) @ ''}''"

definition table_text ::
  "(u64 \<Rightarrow> string option) \<Rightarrow> (u64 \<Rightarrow> edge_data option) \<Rightarrow> (string \<Rightarrow> u64 list option) \<Rightarrow> return_item list \<Rightarrow> string" where
  "table_text N E c items = ''['' @ join '', '' (map (row_text N E c items) [0..<max_rows c items]) @ '']''"

text \<open>The rows with the separator in front of every row but the first.\<close>

definition led_row where
  "led_row N E c items row = (if row > 0 then '', '' else []) @ row_text N E c items row"

lemma join_led: "0 < n \<Longrightarrow> concat (map (\<lambda>r. (if r > 0 then sep else []) @ f r) [0..<n]) = join sep (map f [0..<n])"
proof -
  have later: "concat (map (\<lambda>r. (if r > 0 then sep else []) @ f r) [Suc k..<m]) = concat (map (\<lambda>r. sep @ f r) [Suc k..<m])" for k m
    by (rule arg_cong[where f = concat], rule map_cong) auto
  have "join sep (f k # map f rs) = f k @ concat (map (\<lambda>r. sep @ f r) rs)" for k rs
    by (induction rs arbitrary: k) auto
  moreover assume "0 < n"
  ultimately show ?thesis using later[of 0 n] by (simp add: upt_conv_Cons)
qed

lemma batches_cover: "concat (map (\<lambda>b. [b * c..<min (b * c + c) n]) [0..<k]) = [0..<min (k * c) n]"
proof (induction k)
  case (Suc k)
  have "[0..<min (Suc k * c) n] = [0..<min (k * c) n] @ [min (k * c) n..<min (Suc k * c) n]"
    using upt_add_eq_append[of 0 "min (k * c) n" "min (Suc k * c) n - min (k * c) n"] by auto
  moreover have "[min (k * c) n..<min (Suc k * c) n] = [k * c..<min (k * c + c) n]"
    by (cases "k * c \<le> n") (auto simp: add.commute)
  ultimately show ?case using Suc by simp
qed simp

lemma max_rows_pos: "0 < max_rows c items"
proof -
  have "0 < m \<Longrightarrow> 0 < fold (\<lambda>v m. case c v of None \<Rightarrow> m | Some ids \<Rightarrow> max m (length ids)) vs m" for vs m
    by (induction vs arbitrary: m) (auto split: option.split)
  then show ?thesis by (simp add: max_rows_def)
qed

context kvs_basic
begin

lemma load_batch_law:
  assumes "valid s" "graph_inv (content s) so" "tx \<noteq> 0"
  shows "\<exists>cache s'. load_batch K tx so c i j vs s = (cache, s') \<and> content s' = content s \<and> valid s'
    \<and> (\<forall>v\<in>set vs. \<forall>ids. c v = Some ids \<longrightarrow> (\<forall>k\<in>set (take (j - i) (drop i ids)). cache v k = nodes_of (content s) so k))"
  using assms(1,2)
proof (induction vs arbitrary: s)
  case (Cons v vs)
  define ids where "ids = (case c v of None \<Rightarrow> [] | Some ids \<Rightarrow> take (j - i) (drop i ids))"
  obtain r s1 where r: "nodes_batch_loop K tx so ids s = (r, s1)" "content s1 = content s" "valid s1"
    "set r = {(k, p). k \<in> set ids \<and> nodes_of (content s) so k = Some p}"
    using batch_loop_law[OF Cons.prems] by blast
  define entries where "entries = (if ids = [] then ([], s) else (r, s1))"
  have e: "(if ids = [] then ([], s) else let (q, s') = get_nodes_batch K tx so ids s in (case q of None \<Rightarrow> [] | Some l \<Rightarrow> l, s')) = entries"
    using r(1) assms(3) graph_inv_handles(3)[OF Cons.prems(2)] by (simp add: get_nodes_batch_def entries_def)
  have s1: "content (snd entries) = content s" "valid (snd entries)" "\<And>k. k \<in> set ids \<Longrightarrow> map_of (rev (fst entries)) k = nodes_of (content s) so k"
    using r(2,3) Cons.prems(1) map_of_rev_graph[OF r(4)] by (auto simp: entries_def)
  obtain cache s2 where l: "load_batch K tx so c i j vs (snd entries) = (cache, s2)" "content s2 = content s" "valid s2"
    "\<forall>v\<in>set vs. \<forall>ids. c v = Some ids \<longrightarrow> (\<forall>k\<in>set (take (j - i) (drop i ids)). cache v k = nodes_of (content s) so k)"
    using Cons.IH[of "snd entries"] s1(1,2) Cons.prems(2) by auto
  have "load_batch K tx so c i j (v # vs) s = (cache(v := map_of (rev (fst entries))), s2)"
    using l(1) by (simp add: ids_def[symmetric] e case_prod_beta)
  moreover have "\<forall>w\<in>set (v # vs). \<forall>js. c w = Some js \<longrightarrow>
      (\<forall>k\<in>set (take (j - i) (drop i js)). (cache(v := map_of (rev (fst entries)))) w k = nodes_of (content s) so k)"
    using l(4) s1(3) by (auto simp: ids_def)
  ultimately show ?case using l(2,3) by blast
qed simp

lemma item_json_law:
  assumes "valid (kv x)" "graph_inv (content (kv x)) (store_obj x)" "tx \<noteq> 0" "item_variable it \<noteq> []"
    and "\<forall>ids. ctx x (item_variable it) = Some ids \<longrightarrow> row < length ids \<longrightarrow>
          cache (item_variable it) (ids ! row) = nodes_of (content (kv x)) (store_obj x) (ids ! row)"
  shows "\<exists>s'. item_json K tx cache row it x =
      (Done, cell (nodes_of (content (kv x)) (store_obj x)) (edges_of (content (kv x)) (store_obj x)) (ctx x) row it, x\<lparr>kv := s'\<rparr>)
    \<and> content s' = content (kv x) \<and> valid s'"
proof -
  let ?N = "nodes_of (content (kv x)) (store_obj x)" and ?E = "edges_of (content (kv x)) (store_obj x)"
  have same: "x = x\<lparr>kv := kv x\<rparr>" by simp
  show ?thesis
  proof (cases "item_expr it")
    case (Variable v)
    then have v: "item_variable it = v" by (simp add: item_variable_def)
    show ?thesis
    proof (cases "\<exists>ids. ctx x v = Some ids \<and> row < length ids")
      case False
      then have "item_json K tx cache row it x = (Done, cell ?N ?E (ctx x) row it, x\<lparr>kv := kv x\<rparr>)"
        using Variable v by (auto simp: item_json_def cell_def alias_text_def split: option.split)
      then show ?thesis using assms(1) by blast
    next
      case True
      then obtain ids where ids: "ctx x v = Some ids" "row < length ids" by blast
      then have c: "cache v (ids ! row) = ?N (ids ! row)" using assms(5) v by simp
      obtain q s1 where g: "get_edge K tx (store_obj x) (ids ! row) (kv x) = (q, s1)" "content s1 = content (kv x)" "valid s1"
        "?E (ids ! row) = (case q of Decoded d \<Rightarrow> Some d | _ \<Rightarrow> None)" "q \<noteq> Out_of_bounds"
        using get_edge_law[OF assms(1-3)] by blast
      show ?thesis
      proof (cases "\<exists>p ps. ?N (ids ! row) = Some (p # ps)")
        case True
        then have "item_json K tx cache row it x = (Done, cell ?N ?E (ctx x) row it, x\<lparr>kv := kv x\<rparr>)"
          using Variable v ids c by (auto simp: item_json_def cell_def cell_value_def element_text_def alias_text_def Let_def)
        then show ?thesis using assms(1) by blast
      next
        case False
        then have "item_json K tx cache row it x = (Done, cell ?N ?E (ctx x) row it, x\<lparr>kv := s1\<rparr>)"
          using Variable v ids c g
          by (cases q) (auto simp: item_json_def cell_def cell_value_def element_text_def alias_text_def Let_def split: option.split list.split)
        then show ?thesis using g(2,3) by blast
      qed
    qed
  next
    case (Property_access v key)
    then have v: "item_variable it = v" by (simp add: item_variable_def)
    have "item_json K tx cache row it x = (Done, cell ?N ?E (ctx x) row it, x\<lparr>kv := kv x\<rparr>)"
      using Property_access v assms(5) by (auto simp: item_json_def cell_def cell_value_def alias_text_def Let_def split: option.split)
    then show ?thesis using assms(1) by blast
  qed (use assms(4) in \<open>simp_all add: item_variable_def\<close>)
qed

text \<open>From here on the graph is that of the record the clause starts with.\<close>

lemma items_json_law:
  assumes "valid (kv x)" "graph_inv (content (kv x)) (store_obj x)" "tx \<noteq> 0" "\<forall>it\<in>set items. item_variable it \<noteq> []"
    and "\<forall>it\<in>set items. \<forall>ids. ctx x (item_variable it) = Some ids \<longrightarrow> row < length ids \<longrightarrow>
          cache (item_variable it) (ids ! row) = nodes_of (content (kv x)) (store_obj x) (ids ! row)"
  shows "\<exists>s'. items_json K tx cache row items x =
      (Done, map (cell (nodes_of (content (kv x)) (store_obj x)) (edges_of (content (kv x)) (store_obj x)) (ctx x) row) items, x\<lparr>kv := s'\<rparr>)
    \<and> content s' = content (kv x) \<and> valid s'"
  using assms
proof (induction items arbitrary: x)
  case Nil
  have "x = x\<lparr>kv := kv x\<rparr>" by simp
  then show ?case using Nil by (auto intro!: exI[of _ "kv x"])
next
  case (Cons it items)
  obtain s1 where 1: "item_json K tx cache row it x =
      (Done, cell (nodes_of (content (kv x)) (store_obj x)) (edges_of (content (kv x)) (store_obj x)) (ctx x) row it, x\<lparr>kv := s1\<rparr>)"
    "content s1 = content (kv x)" "valid s1"
    using item_json_law[OF Cons.prems(1-3), of it row cache] Cons.prems(4,5) by auto
  obtain s2 where 2: "items_json K tx cache row items (x\<lparr>kv := s1\<rparr>) =
      (Done, map (cell (nodes_of (content (kv x)) (store_obj x)) (edges_of (content (kv x)) (store_obj x)) (ctx x) row) items, x\<lparr>kv := s2\<rparr>)"
    "content s2 = content (kv x)" "valid s2"
    using Cons.IH[of "x\<lparr>kv := s1\<rparr>"] 1(2,3) Cons.prems(2-5) by auto
  show ?case using 1(1) 2 by auto
qed

lemma row_json_law:
  assumes "valid (kv x)" "graph_inv (content (kv x)) (store_obj x)" "tx \<noteq> 0" "\<forall>it\<in>set items. item_variable it \<noteq> []"
    and "\<forall>it\<in>set items. \<forall>ids. ctx x (item_variable it) = Some ids \<longrightarrow> row < length ids \<longrightarrow>
          cache (item_variable it) (ids ! row) = nodes_of (content (kv x)) (store_obj x) (ids ! row)"
  shows "\<exists>s'. row_json K tx cache items row x = (Done, x\<lparr>kv := s', result_json := result_json x @
      led_row (nodes_of (content (kv x)) (store_obj x)) (edges_of (content (kv x)) (store_obj x)) (ctx x) items row\<rparr>)
    \<and> content s' = content (kv x) \<and> valid s'"
  using items_json_law[OF assms] by (auto simp: row_json_def led_row_def row_text_def)

lemma rows_json_law:
  assumes "valid (kv x)" "graph_inv (content (kv x)) (store_obj x)" "tx \<noteq> 0" "\<forall>it\<in>set items. item_variable it \<noteq> []"
    and "\<forall>row\<in>set rows. \<forall>it\<in>set items. \<forall>ids. ctx x (item_variable it) = Some ids \<longrightarrow> row < length ids \<longrightarrow>
          cache (item_variable it) (ids ! row) = nodes_of (content (kv x)) (store_obj x) (ids ! row)"
  shows "\<exists>s'. run_all (row_json K tx cache items) rows x = (Done, x\<lparr>kv := s', result_json := result_json x @
      concat (map (led_row (nodes_of (content (kv x)) (store_obj x)) (edges_of (content (kv x)) (store_obj x)) (ctx x) items) rows)\<rparr>)
    \<and> content s' = content (kv x) \<and> valid s'"
  using assms
proof (induction rows arbitrary: x)
  case Nil
  have "x = x\<lparr>kv := kv x, result_json := result_json x\<rparr>" by simp
  then show ?case using Nil by (auto intro!: exI[of _ "kv x"])
next
  case (Cons row rows)
  let ?led = "led_row (nodes_of (content (kv x)) (store_obj x)) (edges_of (content (kv x)) (store_obj x)) (ctx x) items"
  obtain s1 where 1: "row_json K tx cache items row x = (Done, x\<lparr>kv := s1, result_json := result_json x @ ?led row\<rparr>)"
    "content s1 = content (kv x)" "valid s1"
    using row_json_law[OF Cons.prems(1-4), of row cache] Cons.prems(5) by auto
  let ?x1 = "x\<lparr>kv := s1, result_json := result_json x @ ?led row\<rparr>"
  obtain s2 where "run_all (row_json K tx cache items) rows ?x1 =
      (Done, ?x1\<lparr>kv := s2, result_json := result_json ?x1 @ concat (map ?led rows)\<rparr>)" "content s2 = content (kv x)" "valid s2"
    using Cons.IH[of ?x1] 1(2,3) Cons.prems(2-5) by auto
  then show ?case using 1(1) by auto
qed

lemma return_batch_law:
  assumes "valid (kv x)" "graph_inv (content (kv x)) (store_obj x)" "tx \<noteq> 0" "\<forall>it\<in>set items. item_variable it \<noteq> []"
  shows "\<exists>s'. return_batch K tx items rows start x = (Done, x\<lparr>kv := s', result_json := result_json x @
      concat (map (led_row (nodes_of (content (kv x)) (store_obj x)) (edges_of (content (kv x)) (store_obj x)) (ctx x) items)
        [start..<min (start + batch_size) rows])\<rparr>)
    \<and> content s' = content (kv x) \<and> valid s'"
proof -
  let ?stop = "min (start + batch_size) rows"
  obtain cache s1 where l: "load_batch K tx (store_obj x) (ctx x) start ?stop (needed_vars items) (kv x) = (cache, s1)"
    "content s1 = content (kv x)" "valid s1"
    "\<forall>v\<in>set (needed_vars items). \<forall>ids. ctx x v = Some ids \<longrightarrow>
        (\<forall>k\<in>set (take (?stop - start) (drop start ids)). cache v k = nodes_of (content (kv x)) (store_obj x) k)"
    using load_batch_law[OF assms(1-3)] by blast
  have "cache (item_variable it) (ids ! row) = nodes_of (content (kv x)) (store_obj x) (ids ! row)"
    if "row \<in> set [start..<?stop]" "it \<in> set items" "ctx x (item_variable it) = Some ids" "row < length ids" for row it ids
  proof -
    have "ids ! row = take (?stop - start) (drop start ids) ! (row - start)" using that by auto
    also have "\<dots> \<in> set (take (?stop - start) (drop start ids))" using that by (intro nth_mem) auto
    finally show ?thesis using l(4) that(2,3) assms(4) by (auto simp: needed_vars_def)
  qed
  then have "\<exists>s'. run_all (row_json K tx cache items) [start..<?stop] (x\<lparr>kv := s1\<rparr>) = (Done, (x\<lparr>kv := s1\<rparr>)\<lparr>kv := s', result_json := result_json x @
      concat (map (led_row (nodes_of (content (kv x)) (store_obj x)) (edges_of (content (kv x)) (store_obj x)) (ctx x) items) [start..<?stop])\<rparr>)
    \<and> content s' = content (kv x) \<and> valid s'"
    using rows_json_law[of "x\<lparr>kv := s1\<rparr>" tx items "[start..<?stop]" cache] l(2,3) assms(2-4) by simp
  then show ?thesis using l(1) by (simp add: return_batch_def)
qed

lemma return_batches_law:
  assumes "valid (kv x)" "graph_inv (content (kv x)) (store_obj x)" "tx \<noteq> 0" "\<forall>it\<in>set items. item_variable it \<noteq> []"
  shows "\<exists>s'. run_all (return_batch K tx items rows) starts x = (Done, x\<lparr>kv := s', result_json := result_json x @
      concat (map (led_row (nodes_of (content (kv x)) (store_obj x)) (edges_of (content (kv x)) (store_obj x)) (ctx x) items)
        (concat (map (\<lambda>a. [a..<min (a + batch_size) rows]) starts)))\<rparr>)
    \<and> content s' = content (kv x) \<and> valid s'"
  using assms
proof (induction starts arbitrary: x)
  case Nil
  have "x = x\<lparr>kv := kv x, result_json := result_json x\<rparr>" by simp
  then show ?case using Nil by (auto intro!: exI[of _ "kv x"])
next
  case (Cons a starts)
  let ?led = "led_row (nodes_of (content (kv x)) (store_obj x)) (edges_of (content (kv x)) (store_obj x)) (ctx x) items"
  obtain s1 where 1: "return_batch K tx items rows a x =
      (Done, x\<lparr>kv := s1, result_json := result_json x @ concat (map ?led [a..<min (a + batch_size) rows])\<rparr>)"
    "content s1 = content (kv x)" "valid s1"
    using return_batch_law[OF Cons.prems] by blast
  let ?x1 = "x\<lparr>kv := s1, result_json := result_json x @ concat (map ?led [a..<min (a + batch_size) rows])\<rparr>"
  obtain s2 where "run_all (return_batch K tx items rows) starts ?x1 =
      (Done, ?x1\<lparr>kv := s2, result_json := result_json ?x1 @ concat (map ?led (concat (map (\<lambda>a. [a..<min (a + batch_size) rows]) starts)))\<rparr>)"
    "content s2 = content (kv x)" "valid s2"
    using Cons.IH[of ?x1] 1(2,3) Cons.prems(2-4) by auto
  then show ?case using 1(1) by auto
qed

lemma execute_return_law:
  assumes "valid (kv x)" "graph_inv (content (kv x)) (store_obj x)" "tx \<noteq> 0" "\<forall>it\<in>set items. item_variable it \<noteq> []"
  shows "\<exists>s'. execute_return K tx items x = (Done, x\<lparr>kv := s', result_json :=
      table_text (nodes_of (content (kv x)) (store_obj x)) (edges_of (content (kv x)) (store_obj x)) (ctx x) items\<rparr>)
    \<and> content s' = content (kv x) \<and> valid s'"
proof -
  let ?n = "max_rows (ctx x) items"
  let ?k = "(?n + batch_size - 1) div batch_size"
  let ?led = "led_row (nodes_of (content (kv x)) (store_obj x)) (edges_of (content (kv x)) (store_obj x)) (ctx x) items"
  let ?x = "x\<lparr>result_json := ''[''\<rparr>"
  have k: "?n \<le> ?k * batch_size" using ceiling_slices[of batch_size ?n] by (simp add: batch_size_def mult.commute)
  have cover: "concat (map (\<lambda>a. [a..<min (a + batch_size) ?n]) (map (\<lambda>b. b * batch_size) [0..<?k])) = [0..<?n]"
    using batches_cover[of batch_size ?n ?k] k by (simp add: o_def min_absorb2)
  obtain s' where r: "run_all (return_batch K tx items ?n) (map (\<lambda>b. b * batch_size) [0..<?k]) ?x =
      (Done, ?x\<lparr>kv := s', result_json := result_json ?x @ concat (map ?led [0..<?n])\<rparr>)" "content s' = content (kv x)" "valid s'"
    using return_batches_law[of ?x tx items ?n "map (\<lambda>b. b * batch_size) [0..<?k]"] assms unfolding cover by auto
  have "concat (map ?led [0..<?n]) = join '', '' (map (row_text (nodes_of (content (kv x)) (store_obj x))
      (edges_of (content (kv x)) (store_obj x)) (ctx x) items) [0..<?n])"
    unfolding led_row_def by (rule join_led[OF max_rows_pos])
  then have "execute_return K tx items x = (Done, x\<lparr>kv := s', result_json :=
      table_text (nodes_of (content (kv x)) (store_obj x)) (edges_of (content (kv x)) (store_obj x)) (ctx x) items\<rparr>)"
    using r(1) by (simp add: execute_return_def Let_def table_text_def)
  then show ?thesis using r(2,3) by blast
qed

end

text \<open>C14: RETURN of variables and properties (no literals) writes the table of its cells: one row per id of the
  longest list, each cell the element's text, the value of its property or null, in the order of
  the items and of the bound ids, however many batches the rows are read in; nothing in the store
  changes.\<close>

theorem return_is_table:
  assumes "kvs_basic K content valid" "valid (kv x)" "graph_inv (content (kv x)) (store_obj x)" "tx \<noteq> 0"
    and "\<forall>it\<in>set items. item_variable it \<noteq> []"
  shows "\<exists>s'. execute_return K tx items x = (Done, x\<lparr>kv := s', result_json :=
      table_text (nodes_of (content (kv x)) (store_obj x)) (edges_of (content (kv x)) (store_obj x)) (ctx x) items\<rparr>)
    \<and> content s' = content (kv x)"
  using kvs_basic.execute_return_law[OF assms] by blast

definition name_items :: "return_item list" where
  "name_items = [\<lparr>item_expr = Property_access ''n'' ''name'', item_alias = []\<rparr>, \<lparr>item_expr = Variable ''m'', item_alias = ''other''\<rparr>]"

lemma return_is_table_witness:
  "\<exists>s'. execute_return mock_kvs 1 name_items bound_one = (Done, bound_one\<lparr>kv := s', result_json :=
      ''[{'' @ json_quoted ''n.name'' @ '': '' @ json_quoted ''Bob'' @ '', '' @ json_quoted ''other'' @ '': null}]''\<rparr>)"
proof -
  have g: "get_json_value bob_text ''name'' = ''Bob''" by code_simp
  have b: "bob_text \<noteq> []" by (simp add: bob_text_def)
  have m: "max_rows (ctx bound_one) name_items = 1"
    by (simp add: max_rows_def name_items_def item_variable_def bound_one_ok(3))
  have t: "table_text (nodes_of (mock_db_state (kv bound_one)) (store_obj bound_one)) (edges_of (mock_db_state (kv bound_one)) (store_obj bound_one))
      (ctx bound_one) name_items = ''[{'' @ json_quoted ''n.name'' @ '': '' @ json_quoted ''Bob'' @ '', '' @ json_quoted ''other'' @ '': null}]''"
    unfolding table_text_def m
    by (simp add: row_text_def name_items_def cell_def item_variable_def alias_text_def cell_value_def bound_one_ok(3,5) property_json_def
        g b number_like_def is_digit_def)
  have "\<forall>it\<in>set name_items. item_variable it \<noteq> []" by (simp add: name_items_def item_variable_def)
  from return_is_table[OF mock.kvs_basic_axioms bound_one_ok(1,2) _ this, of 1] show ?thesis unfolding t by auto
qed

section \<open>UNWIND with CREATE\<close>

text \<open>The nodes with the texts added under the ids from \<open>i\<close> on.\<close>

definition nodes_added :: "(u64 \<Rightarrow> string option) \<Rightarrow> u64 \<Rightarrow> string list \<Rightarrow> u64 \<Rightarrow> string option" where
  "nodes_added N i ts j = (if unat (j - i) < length ts then Some (ts ! unat (j - i)) else N j)"

lemma nodes_added_Nil [simp]: "nodes_added N i [] = N"
  by (simp add: nodes_added_def fun_eq_iff)

lemma nodes_added_Cons:
  assumes "length ts < 2 ^ 64 - 1"
  shows "nodes_added (N(i \<mapsto> t)) (i + 1) ts = nodes_added N i (t # ts)"
proof
  fix j
  show "nodes_added (N(i \<mapsto> t)) (i + 1) ts j = nodes_added N i (t # ts) j"
  proof (cases "j = i")
    case True
    have "unat (j - (i + 1)) = 2 ^ 64 - 1" unfolding True by (simp add: unsigned_minus_1_eq_mask mask_eq_exp_minus_1)
    then show ?thesis using True assms by (simp add: nodes_added_def)
  next
    case False
    then have "unat (j - (i + 1)) = unat (j - i) - 1" "0 < unat (j - i)"
      using unat_minus_one[of "j - i"] by (simp_all add: diff_diff_eq unat_gt_0)
    then show ?thesis using False by (auto simp: nodes_added_def nth_Cons')
  qed
qed

context kvs_basic
begin

lemma unwind_create_law:
  assumes "valid (kv x)" "graph_inv (content (kv x)) (store_obj x)" "tx \<noteq> 0"
    and "uint (next_id (store_obj x)) + int (length es) < 2 ^ 64"
    and "unbound x (node_variable n)" "es \<noteq> []"
  shows "\<exists>x'. run_all (unwind_element K ords hw tx a [Create_clause [[\<lparr>elem_node = n, elem_rel = None\<rparr>]]]) es x = (Done, x')
    \<and> valid (kv x') \<and> graph_inv (content (kv x')) (store_obj x') \<and> ctx x' = (\<lambda>_. None)
    \<and> next_id (store_obj x') = next_id (store_obj x) + of_nat (length es)
    \<and> nodes_of (content (kv x')) (store_obj x') = nodes_added (nodes_of (content (kv x)) (store_obj x)) (next_id (store_obj x))
        (map (\<lambda>e. evaluate_properties ((unwind_ctx x)(a \<mapsto> element_binding e)) (node_props n)) es)
    \<and> edges_of (content (kv x')) (store_obj x') = edges_of (content (kv x)) (store_obj x)
    \<and> unwind_ctx x' = (unwind_ctx x)(a \<mapsto> element_binding (last es))"
  using assms
proof (induction es arbitrary: x)
  case (Cons e es)
  let ?i = "next_id (store_obj x)" and ?y = "x\<lparr>unwind_ctx := (unwind_ctx x)(a \<mapsto> element_binding e)\<rparr>"
  have i: "?i + 1 \<noteq> 0" by (rule not_last[of _ "int (length (e # es))"]) (use Cons.prems(4) in auto)
  obtain y where y: "bound_or_new K tx n ?y = (Some ?i, y)" "valid (kv y)" "graph_inv (content (kv y)) (store_obj y)"
    "next_id (store_obj y) = ?i + 1"
    "nodes_of (content (kv y)) (store_obj y) = (nodes_of (content (kv x)) (store_obj x))
       (?i \<mapsto> evaluate_properties ((unwind_ctx x)(a \<mapsto> element_binding e)) (node_props n))"
    "edges_of (content (kv y)) (store_obj y) = edges_of (content (kv x)) (store_obj x)"
    "unwind_ctx y = (unwind_ctx x)(a \<mapsto> element_binding e)"
    using new_node_law[of ?y tx n] Cons.prems(1-3,5) i by (auto simp: unbound_def)
  define el_text where "el_text = (\<lambda>e. evaluate_properties ((unwind_ctx x)(a \<mapsto> element_binding e)) (node_props n))"
  have upd: "(unwind_ctx y)(a \<mapsto> b) = (unwind_ctx x)(a \<mapsto> b)" for b unfolding y(7) by simp
  have nodes: "nodes_of (content (kv y)) (store_obj y) = (nodes_of (content (kv x)) (store_obj x))(?i \<mapsto> el_text e)"
    unfolding el_text_def by (rule y(5))
  let ?z = "y\<lparr>ctx := (\<lambda>_. None), ctx_labels := (\<lambda>_. None)\<rparr>"
  have step: "unwind_element K ords hw tx a [Create_clause [[\<lparr>elem_node = n, elem_rel = None\<rparr>]]] e x = (Done, ?z)"
    using y(1) by (simp add: unwind_element_def execute_create_def)
  show ?case
  proof (cases "es = []")
    case True
    then have "nodes_of (content (kv ?z)) (store_obj ?z) = nodes_added (nodes_of (content (kv x)) (store_obj x)) ?i (map el_text (e # es))"
      using nodes nodes_added_Cons[of "[]" "nodes_of (content (kv x)) (store_obj x)" ?i "el_text e"] by simp
    then show ?thesis
      unfolding el_text_def[symmetric] using step y(2-4,6,7) True by (intro exI[of _ ?z]) simp
  next
    case False
    have proj: "kv ?z = kv y" "store_obj ?z = store_obj y" "unwind_ctx ?z = unwind_ctx y" by simp_all
    have fits: "uint (?i + 1) + int (length es) < 2 ^ 64" using uint_add_small[of ?i 1] Cons.prems(4) by simp
    have free: "unbound ?z (node_variable n)" by (simp add: unbound_def)
    have "length es < 2 ^ 64 - 1" using Cons.prems(4) by simp (use uint_u64_bounds(1)[of ?i] in linarith)
    then have add: "nodes_added ((nodes_of (content (kv x)) (store_obj x))(?i \<mapsto> el_text e)) (?i + 1) (map el_text es) =
        nodes_added (nodes_of (content (kv x)) (store_obj x)) ?i (map el_text (e # es))"
      using nodes_added_Cons[of "map el_text es"] by simp
    obtain x' where x': "run_all (unwind_element K ords hw tx a [Create_clause [[\<lparr>elem_node = n, elem_rel = None\<rparr>]]]) es ?z = (Done, x')"
      "valid (kv x')" "graph_inv (content (kv x')) (store_obj x')" "ctx x' = (\<lambda>_. None)"
      "next_id (store_obj x') = ?i + 1 + of_nat (length es)"
      "nodes_of (content (kv x')) (store_obj x') = nodes_added ((nodes_of (content (kv x)) (store_obj x))(?i \<mapsto> el_text e)) (?i + 1) (map el_text es)"
      "edges_of (content (kv x')) (store_obj x') = edges_of (content (kv x)) (store_obj x)"
      "unwind_ctx x' = (unwind_ctx x)(a \<mapsto> element_binding (last es))"
      using Cons.IH[of ?z, unfolded proj upd nodes y(4,6), folded el_text_def, OF y(2,3) Cons.prems(3) fits free False] by blast
    then show ?thesis
      unfolding el_text_def[symmetric] add using step False by (intro exI[of _ x']) (simp add: add.assoc)
  qed
qed simp

end

text \<open>C15: UNWIND of a list literal that is not empty in front of a CREATE of one node, whose variable is not
  bound, creates, as long as the ids do not run out, exactly one node per
  element, under the consecutive ids that come next, the text of each evaluated with the alias
  bound to its element; the edges and the older nodes stay, and no binding is left behind.\<close>

theorem unwind_creates:
  assumes "kvs_basic K content valid" "valid (kv x)" "graph_inv (content (kv x)) (store_obj x)" "tx \<noteq> 0"
    and "uint (next_id (store_obj x)) + int (length es) < 2 ^ 64" "unbound x (node_variable n)" "es \<noteq> []"
  shows "\<exists>x'. execute_clauses K ords hw tx
      [Unwind_clause (List_literal es) a, Create_clause [[\<lparr>elem_node = n, elem_rel = None\<rparr>]]] x = (Done, x')
    \<and> graph_inv (content (kv x')) (store_obj x') \<and> ctx x' = (\<lambda>_. None) \<and> unwind_ctx x' = (unwind_ctx x)(a := None)
    \<and> next_id (store_obj x') = next_id (store_obj x) + of_nat (length es)
    \<and> nodes_of (content (kv x')) (store_obj x') = nodes_added (nodes_of (content (kv x)) (store_obj x)) (next_id (store_obj x))
        (map (\<lambda>e. evaluate_properties ((unwind_ctx x)(a \<mapsto> element_binding e)) (node_props n)) es)
    \<and> edges_of (content (kv x')) (store_obj x') = edges_of (content (kv x)) (store_obj x)"
proof -
  obtain e es' where es: "es = e # es'" using assms(7) by (cases es) auto
  obtain y where y: "run_all (unwind_element K ords hw tx a [Create_clause [[\<lparr>elem_node = n, elem_rel = None\<rparr>]]]) es x = (Done, y)"
    "graph_inv (content (kv y)) (store_obj y)" "ctx y = (\<lambda>_. None)"
    "next_id (store_obj y) = next_id (store_obj x) + of_nat (length es)"
    "nodes_of (content (kv y)) (store_obj y) = nodes_added (nodes_of (content (kv x)) (store_obj x)) (next_id (store_obj x))
        (map (\<lambda>e. evaluate_properties ((unwind_ctx x)(a \<mapsto> element_binding e)) (node_props n)) es)"
    "edges_of (content (kv y)) (store_obj y) = edges_of (content (kv x)) (store_obj x)"
    "unwind_ctx y = (unwind_ctx x)(a \<mapsto> element_binding (last es))"
    using kvs_basic.unwind_create_law[OF assms] by blast
  have "execute_clauses K ords hw tx [Unwind_clause (List_literal es) a, Create_clause [[\<lparr>elem_node = n, elem_rel = None\<rparr>]]] x
      = (Done, y\<lparr>unwind_ctx := (unwind_ctx y)(a := None)\<rparr>)"
    using y(1) by (simp only: es execute_clauses.simps execute_unwind_def expression.case list.case) simp
  moreover have "(unwind_ctx y)(a := None) = (unwind_ctx x)(a := None)" unfolding y(7) by simp
  ultimately show ?thesis using y(2-6) by (intro exI[of _ "y\<lparr>unwind_ctx := (unwind_ctx y)(a := None)\<rparr>"]) simp
qed

definition two_rows :: "expression list" where
  "two_rows = [Map_literal [(''name'', Literal ''Bob'' True)], Map_literal [(''name'', Literal ''41'' False)]]"

definition row_node :: pattern_node where
  "row_node = \<lparr>node_variable = ''n'', node_label = ''Person'', node_props = [(''name'', Property_access ''row'' ''name'')]\<rparr>"

lemma unwind_creates_witness:
  "\<exists>x'. execute_clauses mock_kvs \<lparr>string_order = id, pending_order = id\<rparr> 8 1 [Unwind_clause (List_literal two_rows) ''row'',
        Create_clause [[\<lparr>elem_node = row_node, elem_rel = None\<rparr>]]] (new_exec opened empty_mock) = (Done, x')
    \<and> nodes_of (mock_db_state (kv x')) (store_obj x') 1 = Some (''{'' @ json_quoted ''name'' @ '': '' @ json_quoted ''Bob'' @ ''}'')
    \<and> nodes_of (mock_db_state (kv x')) (store_obj x') 2 = Some (''{'' @ json_quoted ''name'' @ '': 41}'')"
proof -
  let ?x = "new_exec opened empty_mock"
  have k: "kv ?x = empty_mock" "store_obj ?x = opened" "ctx ?x = (\<lambda>_. None)" "next_id opened = 1"
    by (simp_all add: new_exec_def opened_def new_storage_def)
  have v: "mock_valid (kv ?x)" "graph_inv (mock_db_state (kv ?x)) (store_obj ?x)"
    unfolding k by (rule empty_mock_valid opened_mock)+
  have u: "unbound ?x (node_variable row_node)" "two_rows \<noteq> []" "length two_rows = 2" by (simp_all add: unbound_def k two_rows_def)
  have t: "map (\<lambda>e. evaluate_properties ((unwind_ctx ?x)(''row'' \<mapsto> element_binding e)) (node_props row_node)) two_rows =
      [''{'' @ json_quoted ''name'' @ '': '' @ json_quoted ''Bob'' @ ''}'', ''{'' @ json_quoted ''name'' @ '': 41}'']"
    by (simp add: evaluate_properties_def two_rows_def row_node_def element_binding_def property_text_def map_filter_simps)
  obtain x' where "execute_clauses mock_kvs \<lparr>string_order = id, pending_order = id\<rparr> 8 1 [Unwind_clause (List_literal two_rows) ''row'',
        Create_clause [[\<lparr>elem_node = row_node, elem_rel = None\<rparr>]]] ?x = (Done, x')"
    and "nodes_of (mock_db_state (kv x')) (store_obj x') = nodes_added (nodes_of (mock_db_state (kv ?x)) (store_obj ?x)) 1
      [''{'' @ json_quoted ''name'' @ '': '' @ json_quoted ''Bob'' @ ''}'', ''{'' @ json_quoted ''name'' @ '': 41}'']"
    using unwind_creates[OF mock.kvs_basic_axioms v, of 1 two_rows row_node "\<lparr>string_order = id, pending_order = id\<rparr>" 8 "''row''", unfolded t k] u k by auto
  then show ?thesis by (intro exI[of _ x']) (simp add: nodes_added_def)
qed

text \<open>An empty list binds no element, but the clauses behind it run once, without the alias.\<close>

lemma unwind_empty_list:
  "execute_clauses K ords hw tx (Unwind_clause (List_literal []) a # cs) x = execute_clauses K ords hw tx cs x"
  by (simp add: execute_unwind_def)

text \<open>Each RETURN behind an UNWIND starts the result text anew.\<close>

lemma return_starts_anew: "execute_return K tx items (x\<lparr>result_json := t\<rparr>) = execute_return K tx items (x\<lparr>result_json := t'\<rparr>)"
  by (simp add: execute_return_def)

section \<open>MATCH and WHERE in one step\<close>

context kvs_basic
begin

lemma label_iter_law:
  assumes "valid s" "graph_inv (content s) so" "tx \<noteq> 0" "label \<noteq> []" "label_alone (content s (label_index_handle so)) label"
  shows "\<exists>li s'. find_nodes_by_label_iter K tx so label s = (li, s') \<and> content s' = content s \<and> valid s'
    \<and> set (label_drain li) = {i. labelled (content s) so label i} \<and> sorted_wrt (<) (label_drain li)"
proof -
  obtain it s' where p: "prefix_scan K tx (label_index_handle so) label s = (Ok, it, s')" "content s' = content s" "valid s'"
    using label_scan[OF assms(1,5)] by blast
  obtain ids s'' where "find_nodes_by_label K tx so label s = (Some ids, s'')" "set ids = {i. labelled (content s) so label i}"
    "sorted_wrt (<) ids"
    using find_label_law[OF assms] by blast
  then show ?thesis using label_stream_law[OF assms] p by (simp add: find_nodes_by_label_iter_def)
qed

text \<open>MATCH of a label alone binds the labelled nodes.\<close>

lemma match_label_law:
  assumes "valid (kv x)" "graph_inv (content (kv x)) (store_obj x)" "tx \<noteq> 0" "node_label n \<noteq> []" "node_variable n \<noteq> []" "node_props n = []"
    and "label_alone (content (kv x) (label_index_handle (store_obj x))) (node_label n)"
    and "labelled (content (kv x)) (store_obj x) (node_label n) i"
  shows "\<exists>ids s'. execute_match K tx [[\<lparr>elem_node = n, elem_rel = r\<rparr>]] x = (Done, x\<lparr>kv := s',
      ctx := (ctx x)(node_variable n \<mapsto> ids), ctx_labels := (ctx_labels x)(node_variable n \<mapsto> node_label n)\<rparr>)
    \<and> content s' = content (kv x) \<and> valid s' \<and> set ids = {i. labelled (content (kv x)) (store_obj x) (node_label n) i}
    \<and> sorted_wrt (<) ids"
proof -
  obtain li s' where l: "find_nodes_by_label_iter K tx (store_obj x) (node_label n) (kv x) = (li, s')" "content s' = content (kv x)"
    "valid s'" "set (label_drain li) = {i. labelled (content (kv x)) (store_obj x) (node_label n) i}" "sorted_wrt (<) (label_drain li)"
    using label_iter_law[OF assms(1-4,7)] by blast
  have "label_drain li \<noteq> []" using l(4) assms(8) by auto
  then have "match_first K tx n x = x\<lparr>kv := s', ctx := (ctx x)(node_variable n \<mapsto> label_drain li),
      ctx_labels := (ctx_labels x)(node_variable n \<mapsto> node_label n)\<rparr>"
    using l(1) assms(4-6) by (simp add: match_first_def Let_def)
  then have "execute_match K tx [[\<lparr>elem_node = n, elem_rel = r\<rparr>]] x = (Done, x\<lparr>kv := s', ctx := (ctx x)(node_variable n \<mapsto> label_drain li),
      ctx_labels := (ctx_labels x)(node_variable n \<mapsto> node_label n)\<rparr>)"
    by (simp add: execute_match_def)
  then show ?thesis using l(2-5) by blast
qed

lemma fused_law:
  assumes "valid (kv x)" "graph_inv (content (kv x)) (store_obj x)" "tx \<noteq> 0" "node_label n \<noteq> []" "node_variable n \<noteq> []"
    and "where_variable w = node_variable n" "where_op w = ''=''" "where_property w \<noteq> []" "deref_value w = Some (Literal v b)"
  shows "\<exists>s'. try_indexed_match_where K tx [[\<lparr>elem_node = n, elem_rel = r\<rparr>]] w x = (True, x\<lparr>kv := s',
      ctx := (ctx x)(node_variable n \<mapsto> index_ids (content (kv x) (property_index_handle (store_obj x)))
        (build_prop_index_key (node_label n) (where_property w) v)),
      ctx_labels := (ctx_labels x)(node_variable n \<mapsto> node_label n)\<rparr>) \<and> content s' = content (kv x)"
proof -
  obtain s' where "find_nodes_by_property K tx (store_obj x) (node_label n) (where_property w) v (kv x) =
      (Some (index_ids (content (kv x) (property_index_handle (store_obj x)))
        (build_prop_index_key (node_label n) (where_property w) v)), s')" "content s' = content (kv x)"
    using find_law[OF assms(1,3) graph_inv_handles(8)[OF assms(2)]] by blast
  then show ?thesis using assms(4-9) by (auto simp: try_indexed_match_where_def simp del: deref_value.simps)
qed

end

text \<open>C16: for a labelled, named node without inline properties and an equality with a literal, the fused
  MATCH and WHERE binds the same set of nodes and records the same label as the two clauses one
  after the other, when no other label of the index continues the label, the property index lists
  only nodes of the label for the value, and some node has the label; neither way changes the
  store.  (With inline properties they differ: \<open>fused_ignores_inline\<close>.)\<close>

theorem fused_match_where:
  assumes "kvs_basic K content valid" "valid (kv x)" "graph_inv (content (kv x)) (store_obj x)" "tx \<noteq> 0"
    and "node_label n \<noteq> []" "node_variable n \<noteq> []" "node_props n = []"
    and "where_variable w = node_variable n" "where_op w = ''=''" "where_property w \<noteq> []" "deref_value w = Some (Literal v b)"
    and "label_alone (content (kv x) (label_index_handle (store_obj x))) (node_label n)"
    and "labelled (content (kv x)) (store_obj x) (node_label n) i"
    and "set (index_ids (content (kv x) (property_index_handle (store_obj x))) (build_prop_index_key (node_label n) (where_property w) v))
      \<subseteq> {i. labelled (content (kv x)) (store_obj x) (node_label n) i}"
  shows "\<exists>ids s1 ids' s2. try_indexed_match_where K tx [[\<lparr>elem_node = n, elem_rel = r\<rparr>]] w x =
        (True, x\<lparr>kv := s1, ctx := (ctx x)(node_variable n \<mapsto> ids), ctx_labels := (ctx_labels x)(node_variable n \<mapsto> node_label n)\<rparr>)
    \<and> run_all (execute_clause K ords hw tx) [Match_clause [[\<lparr>elem_node = n, elem_rel = r\<rparr>]], Where_clause w] x =
        (Done, x\<lparr>kv := s2, ctx := (ctx x)(node_variable n \<mapsto> ids'), ctx_labels := (ctx_labels x)(node_variable n \<mapsto> node_label n)\<rparr>)
    \<and> set ids = set ids' \<and> content s1 = content (kv x) \<and> content s2 = content (kv x)"
proof -
  let ?I = "index_ids (content (kv x) (property_index_handle (store_obj x))) (build_prop_index_key (node_label n) (where_property w) v)"
  obtain s1 where 1: "try_indexed_match_where K tx [[\<lparr>elem_node = n, elem_rel = r\<rparr>]] w x =
        (True, x\<lparr>kv := s1, ctx := (ctx x)(node_variable n \<mapsto> ?I), ctx_labels := (ctx_labels x)(node_variable n \<mapsto> node_label n)\<rparr>)"
    "content s1 = content (kv x)"
    using kvs_basic.fused_law[OF assms(1-6,8-11)] by blast
  obtain ids s2 where 2: "execute_match K tx [[\<lparr>elem_node = n, elem_rel = r\<rparr>]] x = (Done, x\<lparr>kv := s2,
      ctx := (ctx x)(node_variable n \<mapsto> ids), ctx_labels := (ctx_labels x)(node_variable n \<mapsto> node_label n)\<rparr>)"
    "content s2 = content (kv x)" "valid s2" "set ids = {i. labelled (content (kv x)) (store_obj x) (node_label n) i}"
    using kvs_basic.match_label_law[OF assms(1-7,12,13)] by blast
  have c: "fst (compare_literal w) = v" using assms(11) by (simp add: compare_literal_def del: deref_value.simps)
  obtain s3 where 3: "find_nodes_by_property K tx (store_obj x) (node_label n) (where_property w) v s2 = (Some ?I, s3)"
    "content s3 = content (kv x)"
    using kvs_basic.find_law[OF assms(1) 2(3) assms(4) graph_inv_handles(8)[OF assms(3)]] unfolding 2(2) by blast
  have "set (set_intersection (sort ids) (sort ?I)) = set ?I"
    using set_intersection_sorted[of "sort ids" "sort ?I"] 2(4) assms(14) by auto
  moreover have "run_all (execute_clause K ords hw tx) [Match_clause [[\<lparr>elem_node = n, elem_rel = r\<rparr>]], Where_clause w] x =
      (Done, x\<lparr>kv := s3, ctx := (ctx x)(node_variable n \<mapsto> set_intersection (sort ids) (sort ?I)),
        ctx_labels := (ctx_labels x)(node_variable n \<mapsto> node_label n)\<rparr>)"
    using 2(1) 3(1) c assms(5,6,8-10) by (simp add: execute_where_def where_index_def case_prod_beta)
  ultimately show ?thesis using 1 3(2) by blast
qed

text \<open>The node of \<open>one_node\<close> with its label.\<close>

definition one_person :: mock_state where
  "one_person = one_node\<lparr>mock_db_state := (mock_db_state one_node)(storage_name_label_index := [(''Person'' @ to_key 1, [])])\<rparr>"

definition person_n :: pattern_node where
  "person_n = \<lparr>node_variable = ''n'', node_label = ''Person'', node_props = []\<rparr>"

abbreviation people :: "mock_state exec" where
  "people \<equiv> new_exec (opened\<lparr>next_id := 2\<rparr>) one_person"

lemma people_ok:
  "mock_valid (kv people)" "graph_inv (mock_db_state (kv people)) (store_obj people)"
  "label_alone (mock_db_state (kv people) (label_index_handle (store_obj people))) ''Person''"
  "labelled (mock_db_state (kv people)) (store_obj people) ''Person'' i \<longleftrightarrow> i = 1"
  "index_ids (mock_db_state (kv people) (property_index_handle (store_obj people))) (build_prop_index_key ''Person'' ''name'' ''Bob'') = [1]"
proof -
  have k: "kv people = one_person" "store_obj people = opened\<lparr>next_id := 2\<rparr>" by (simp_all add: new_exec_def)
  have u: "unpack_ids (to_key 1) = [1]" using unpack_to_key[of 1 "[]"] by simp
  show "mock_valid (kv people)" unfolding k by (simp add: mock_valid_def one_person_def one_node_def sorted_map_def)
  show "graph_inv (mock_db_state (kv people)) (store_obj people)" unfolding k
    by (auto simp: graph_inv_def all_handles_def opened_def storage_names ids_below_def index_sound_def labels_sound_def
        in_bounds_def map_keys_def edge_at_def one_person_def one_node_def intro: exI[of _ 1])
  show "label_alone (mock_db_state (kv people) (label_index_handle (store_obj people))) ''Person''" unfolding k
    by (simp add: label_alone_def map_keys_def one_person_def opened_def)
  show "labelled (mock_db_state (kv people)) (store_obj people) ''Person'' i \<longleftrightarrow> i = 1" unfolding k
    by (simp add: labelled_def map_keys_def one_person_def opened_def)
  show "index_ids (mock_db_state (kv people) (property_index_handle (store_obj people))) (build_prop_index_key ''Person'' ''name'' ''Bob'') = [1]"
    unfolding k by (simp add: index_ids_def one_person_def one_node_def opened_def storage_names u)
qed

lemma fused_match_where_witness:
  "\<exists>ids s1. try_indexed_match_where mock_kvs 1 [[\<lparr>elem_node = person_n, elem_rel = None\<rparr>]] where_bob people =
        (True, people\<lparr>kv := s1, ctx := [''n'' \<mapsto> ids], ctx_labels := [''n'' \<mapsto> ''Person'']\<rparr>)
    \<and> (\<exists>ids' s2. run_all (execute_clause mock_kvs \<lparr>string_order = id, pending_order = id\<rparr> 8 1) [Match_clause [[\<lparr>elem_node = person_n, elem_rel = None\<rparr>]], Where_clause where_bob] people =
        (Done, people\<lparr>kv := s2, ctx := [''n'' \<mapsto> ids'], ctx_labels := [''n'' \<mapsto> ''Person'']\<rparr>) \<and> set ids = set ids')"
proof -
  have n: "node_label person_n = ''Person''" "node_variable person_n = ''n''" "node_props person_n = []" by (simp_all add: person_n_def)
  have d: "deref_value where_bob = Some (Literal ''Bob'' True)" by (simp add: where_bob_def)
  have c: "ctx people = Map.empty" "ctx_labels people = Map.empty" by (simp_all add: new_exec_def)
  show ?thesis
    using fused_match_where[OF mock.kvs_basic_axioms people_ok(1,2), of 1 person_n where_bob "''Bob''" True 1 None "\<lparr>string_order = id, pending_order = id\<rparr>" 8,
        unfolded n where_bob_fields c] people_ok(3-5) d by auto
qed

text \<open>The lookup of the fused step does not look at the inline properties of the pattern: a node that
  MATCH alone does not find is bound.\<close>

lemma fused_ignores_inline:
  "\<exists>s'. try_indexed_match_where mock_kvs 1 [[\<lparr>elem_node = person_n\<lparr>node_props := [(''name'', Literal ''Amy'' True)]\<rparr>, elem_rel = None\<rparr>]]
      where_bob people = (True, people\<lparr>kv := s', ctx := [''n'' \<mapsto> [1]], ctx_labels := [''n'' \<mapsto> ''Person'']\<rparr>)"
  "nodes_of (mock_db_state (kv people)) (store_obj people) 1 = Some bob_text"
  "\<not> inline_match [(''name'', Literal ''Amy'' True)] bob_text"
proof -
  let ?n = "person_n\<lparr>node_props := [(''name'', Literal ''Amy'' True)]\<rparr>"
  have n: "node_label ?n = ''Person''" "node_variable ?n = ''n''" by (simp_all add: person_n_def)
  have d: "deref_value where_bob = Some (Literal ''Bob'' True)" by (simp add: where_bob_def)
  have c: "ctx people = Map.empty" "ctx_labels people = Map.empty" by (simp_all add: new_exec_def)
  show "\<exists>s'. try_indexed_match_where mock_kvs 1 [[\<lparr>elem_node = ?n, elem_rel = None\<rparr>]] where_bob people =
      (True, people\<lparr>kv := s', ctx := [''n'' \<mapsto> [1]], ctx_labels := [''n'' \<mapsto> ''Person'']\<rparr>)"
    using mock.fused_law[OF people_ok(1,2), of 1 ?n where_bob "''Bob''" True None, unfolded n where_bob_fields c people_ok(5)] d by auto
  show "nodes_of (mock_db_state (kv people)) (store_obj people) 1 = Some bob_text"
    by (simp add: nodes_of_def new_exec_def one_person_def one_node_def opened_def storage_names)
  have "get_json_value bob_text ''name'' = ''Bob''" by code_simp
  then show "\<not> inline_match [(''name'', Literal ''Amy'' True)] bob_text" by (simp add: inline_match_def)
qed

end
