(* ===== verification/Id_Threads.thy ===== *)
theory Id_Threads
  imports Storage_Props
begin

text \<open>
  \<open>storage::allocate_id\<close> as the memory accesses it consists of.  The members it reads and writes
  are plain \<open>uint64_t\<close>, no lock is held, and the requests of several threads share the one
  storage object of the resource.  A call is a program counter with the values it has read;
  a step lets one of several calls make its next access.  Accesses are taken to be atomic and
  in program order, the arguments of \<open>sequence_put\<close> from left to right (C++ leaves their order
  open); a data race in C++ does not even promise that much.
\<close>

section \<open>One call\<close>

datatype alloc_pc =
    Entered
  | Increment u64 \<comment> \<open>\<open>next_id_\<close> has been read\<close>
  | Test_batch u64
  | Read_version u64
  | Write_version u64 u64
  | Load_id u64 \<comment> \<open>the arguments of \<open>sequence_put\<close>, read one after the other\<close>
  | Load_version u64 nat
  | Load_next u64 nat u64
  | Put_sequence u64 nat u64 u64
  | Refill u64
  | Read_remaining u64
  | Write_remaining u64 u64
  | Returned u64

fun alloc_access :: "'s kvs \<Rightarrow> tx_handle \<Rightarrow> alloc_pc \<times> storage \<times> 's \<Rightarrow> alloc_pc \<times> storage \<times> 's" where
  "alloc_access K tx (Entered, so, s) = (Increment (next_id so), so, s)"
| "alloc_access K tx (Increment i, so, s) = (Test_batch i, so\<lparr>next_id := i + 1\<rparr>, s)"
| "alloc_access K tx (Test_batch i, so, s) =
     (if sequence_batch_remaining so = 0 then Read_version i else Read_remaining i, so, s)"
| "alloc_access K tx (Read_version i, so, s) = (Write_version i (sequence_version so), so, s)"
| "alloc_access K tx (Write_version i v, so, s) = (Load_id i, so\<lparr>sequence_version := v + 1\<rparr>, s)"
| "alloc_access K tx (Load_id i, so, s) = (Load_version i (sequence_id so), so, s)"
| "alloc_access K tx (Load_version i d, so, s) = (Load_next i d (sequence_version so), so, s)"
| "alloc_access K tx (Load_next i d v, so, s) = (Put_sequence i d v (next_id so), so, s)"
| "alloc_access K tx (Put_sequence i d v n, so, s) =
     (Refill i, so, snd (sequence_put K tx d v (sint (n + sequence_batch_size - 2)) s))"
| "alloc_access K tx (Refill i, so, s) = (Returned i, so\<lparr>sequence_batch_remaining := sequence_batch_size - 1\<rparr>, s)"
| "alloc_access K tx (Read_remaining i, so, s) = (Write_remaining i (sequence_batch_remaining so), so, s)"
| "alloc_access K tx (Write_remaining i r, so, s) = (Returned i, so\<lparr>sequence_batch_remaining := r - 1\<rparr>, s)"
| "alloc_access K tx (Returned i, so, s) = (Returned i, so, s)"

fun returned :: "alloc_pc \<Rightarrow> bool" where
  "returned (Returned i) = True"
| "returned _ = False"

text \<open>The id of a call that has counted \<open>next_id_\<close> up.\<close>

fun taken_id :: "alloc_pc \<Rightarrow> u64 option" where
  "taken_id Entered = None"
| "taken_id (Increment i) = None"
| "taken_id (Test_batch i) = Some i"
| "taken_id (Read_version i) = Some i"
| "taken_id (Write_version i v) = Some i"
| "taken_id (Load_id i) = Some i"
| "taken_id (Load_version i d) = Some i"
| "taken_id (Load_next i d v) = Some i"
| "taken_id (Put_sequence i d v n) = Some i"
| "taken_id (Refill i) = Some i"
| "taken_id (Read_remaining i) = Some i"
| "taken_id (Write_remaining i r) = Some i"
| "taken_id (Returned i) = Some i"

text \<open>The two translations of \<open>allocate_id\<close> agree: the accesses of a call that runs alone, at most
  ten, are the operation of the theory \<open>Storage\<close>.\<close>

lemma call_alone_is_allocate_id:
  "(alloc_access K tx ^^ 10) (Entered, so, s) = (let (i, so', s') = allocate_id K tx so s in (Returned i, so', s'))"
  by (simp add: allocate_id_def eval_nat_numeral Let_def case_prod_beta)

section \<open>Several calls\<close>

record 's alloc_calls =
  calls :: "alloc_pc list"
  shared_object :: storage
  shared_store :: 's

definition advance :: "'s kvs \<Rightarrow> (nat \<Rightarrow> tx_handle) \<Rightarrow> nat \<Rightarrow> 's alloc_calls \<Rightarrow> 's alloc_calls" where
  "advance K txs t y =
     (let (p, so, s) = alloc_access K (txs t) (calls y ! t, shared_object y, shared_store y)
      in y\<lparr>calls := (calls y)[t := p], shared_object := so, shared_store := s\<rparr>)"

inductive alloc_step :: "'s kvs \<Rightarrow> (nat \<Rightarrow> tx_handle) \<Rightarrow> 's alloc_calls \<Rightarrow> 's alloc_calls \<Rightarrow> bool" for K txs where
  access: "t < length (calls y) \<Longrightarrow> \<not> returned (calls y ! t) \<Longrightarrow> alloc_step K txs y (advance K txs t y)"

text \<open>A step as a lock around \<open>allocate_id\<close> would admit it: every other call has not begun or is over.\<close>

definition others_quiet :: "nat \<Rightarrow> 's alloc_calls \<Rightarrow> bool" where
  "others_quiet t y \<longleftrightarrow> (\<forall>u < length (calls y). u \<noteq> t \<longrightarrow> calls y ! u = Entered \<or> returned (calls y ! u))"

inductive locked_step :: "'s kvs \<Rightarrow> (nat \<Rightarrow> tx_handle) \<Rightarrow> 's alloc_calls \<Rightarrow> 's alloc_calls \<Rightarrow> bool" for K txs where
  locked: "t < length (calls y) \<Longrightarrow> \<not> returned (calls y ! t) \<Longrightarrow> others_quiet t y \<Longrightarrow> locked_step K txs y (advance K txs t y)"

inductive_cases alloc_stepE: "alloc_step K txs y z"
inductive_cases locked_stepE: "locked_step K txs y z"

definition begun :: "nat \<Rightarrow> storage \<Rightarrow> 's \<Rightarrow> 's alloc_calls" where
  "begun n so s = \<lparr>calls = replicate n Entered, shared_object = so, shared_store = s\<rparr>"

lemma locked_is_step: "locked_step K txs y z \<Longrightarrow> alloc_step K txs y z"
  by (erule locked_stepE) (auto intro: alloc_step.access)

lemma advance_parts:
  "\<exists>p so s. alloc_access K (txs t) (calls y ! t, shared_object y, shared_store y) = (p, so, s)
    \<and> advance K txs t y = y\<lparr>calls := (calls y)[t := p], shared_object := so, shared_store := s\<rparr>"
  by (cases "alloc_access K (txs t) (calls y ! t, shared_object y, shared_store y)") (simp add: advance_def)

lemma advance_length [simp]: "length (calls (advance K txs t y)) = length (calls y)"
  using advance_parts[of K txs t y] by auto

lemma advances_length [simp]: "length (calls ((advance K txs t ^^ m) y)) = length (calls y)"
  by (induction m) simp_all

lemma step_length: "(alloc_step K txs)\<^sup>*\<^sup>* y z \<Longrightarrow> length (calls z) = length (calls y)"
  by (induction rule: rtranclp_induct) (auto elim: alloc_stepE)

text \<open>A call that makes accesses one after the other.\<close>

lemma advance_returned: "t < length (calls y) \<Longrightarrow> returned (calls y ! t) \<Longrightarrow> advance K txs t y = y"
  by (cases "calls y ! t") (simp_all add: advance_def list_update_same_conv)

lemma alone_steps: "t < length (calls y) \<Longrightarrow> (alloc_step K txs)\<^sup>*\<^sup>* y ((advance K txs t ^^ m) y)"
proof (induction m)
  case (Suc m)
  let ?z = "(advance K txs t ^^ m) y"
  have l: "t < length (calls ?z)" using step_length[OF Suc.IH[OF Suc.prems]] Suc.prems by simp
  show ?case
  proof (cases "returned (calls ?z ! t)")
    case True
    then show ?thesis using Suc advance_returned[OF l True] by simp
  next
    case False
    then show ?thesis using Suc alloc_step.access[OF l False] by (auto intro: rtranclp.rtrancl_into_rtrancl)
  qed
qed simp

lemma advance_quiet [simp]: "others_quiet t (advance K txs t y) = others_quiet t y"
  using advance_parts[of K txs t y] by (auto simp: others_quiet_def)

lemma locked_alone:
  assumes "t < length (calls y)" "others_quiet t y"
  shows "(locked_step K txs)\<^sup>*\<^sup>* y ((advance K txs t ^^ m) y)"
proof -
  have "(locked_step K txs)\<^sup>*\<^sup>* y ((advance K txs t ^^ m) y) \<and> t < length (calls ((advance K txs t ^^ m) y))
      \<and> others_quiet t ((advance K txs t ^^ m) y)"
  proof (induction m)
    case (Suc m)
    let ?z = "(advance K txs t ^^ m) y"
    show ?case
    proof (cases "returned (calls ?z ! t)")
      case True
      then show ?thesis using Suc advance_returned[of t ?z] by simp
    next
      case False
      then show ?thesis using Suc locked_step.locked[of t ?z] by (auto intro: rtranclp.rtrancl_into_rtrancl)
    qed
  qed (use assms in simp)
  then show ?thesis ..
qed

section \<open>Calls under a lock\<close>

text \<open>The calls that have their id, and what holds of the ids from \<open>n\<close> on.\<close>

definition holders :: "'s alloc_calls \<Rightarrow> nat set" where
  "holders y = {t. t < length (calls y) \<and> taken_id (calls y ! t) \<noteq> None}"

definition taken_ok :: "nat \<Rightarrow> u64 \<Rightarrow> 's alloc_calls \<Rightarrow> bool" where
  "taken_ok k n y \<longleftrightarrow> length (calls y) = k \<and> unat (next_id (shared_object y)) = unat n + card (holders y)
     \<and> (\<forall>t i. t < k \<longrightarrow> taken_id (calls y ! t) = Some i \<longrightarrow> unat n \<le> unat i \<and> unat i < unat (next_id (shared_object y)))
     \<and> (\<forall>t u i. t < k \<longrightarrow> u < k \<longrightarrow> taken_id (calls y ! t) = Some i \<longrightarrow> taken_id (calls y ! u) = Some i \<longrightarrow> t = u)"

text \<open>A call that is about to count up has read the present value, and no other call is under way.\<close>

definition counting_alone :: "nat \<Rightarrow> 's alloc_calls \<Rightarrow> bool" where
  "counting_alone k y \<longleftrightarrow> (\<forall>t i. t < k \<longrightarrow> calls y ! t = Increment i \<longrightarrow> i = next_id (shared_object y)
     \<and> (\<forall>u<k. u \<noteq> t \<longrightarrow> calls y ! u = Entered \<or> returned (calls y ! u)))"

lemma card_holders:
  assumes "t < length (calls y)" "taken_id (calls y ! t) = None"
  shows "card (holders y) < length (calls y)"
proof -
  have "holders y \<subseteq> {..<length (calls y)} - {t}" using assms by (auto simp: holders_def)
  then have "card (holders y) \<le> card ({..<length (calls y)} - {t})" by (intro card_mono) simp_all
  then show ?thesis using assms(1) by simp
qed

lemma taken_same:
  assumes "taken_ok k n y" "length (calls z) = k" "next_id (shared_object z) = next_id (shared_object y)"
    and "\<And>v. v < k \<Longrightarrow> taken_id (calls z ! v) = taken_id (calls y ! v)"
  shows "taken_ok k n z"
proof -
  have "holders z = holders y" using assms by (auto simp: holders_def taken_ok_def)
  then show ?thesis using assms unfolding taken_ok_def by auto
qed

lemma taken_new:
  assumes y: "taken_ok k n y" and t: "t < k" "taken_id (calls y ! t) = None"
    and z: "calls z = (calls y)[t := p]" "taken_id p = Some (next_id (shared_object y))"
      "next_id (shared_object z) = next_id (shared_object y) + 1"
    and room: "unat n + k < 2 ^ 64"
  shows "taken_ok k n z"
proof -
  have inv: "length (calls y) = k" "unat (next_id (shared_object y)) = unat n + card (holders y)"
    "\<And>t i. t < k \<Longrightarrow> taken_id (calls y ! t) = Some i \<Longrightarrow> unat n \<le> unat i \<and> unat i < unat (next_id (shared_object y))"
    "\<And>t u i. t < k \<Longrightarrow> u < k \<Longrightarrow> taken_id (calls y ! t) = Some i \<Longrightarrow> taken_id (calls y ! u) = Some i \<Longrightarrow> t = u"
    using y unfolding taken_ok_def by blast+
  have "card (holders y) < k" using card_holders[of t y] t inv(1) by simp
  then have u: "unat (next_id (shared_object z)) = unat (next_id (shared_object y)) + 1"
    using inv(2) room unfolding z(3) by (simp add: unat_word_ariths(1))
  have "holders z = insert t (holders y)" "t \<notin> holders y" "finite (holders y)"
    using z t inv(1) by (auto simp: holders_def nth_list_update split: if_splits)
  then have h: "card (holders z) = card (holders y) + 1" by simp
  have old: "i \<noteq> next_id (shared_object y)" if "v < k" "taken_id (calls y ! v) = Some i" for v i using inv(3)[OF that] by auto
  have range: "unat n \<le> unat i \<and> unat i < unat (next_id (shared_object z))" if "v < k" "taken_id (calls z ! v) = Some i" for v i
    using that inv(1,2) inv(3)[of v i] z u by (cases "v = t") auto
  have "v = w" if "v < k" "w < k" "taken_id (calls z ! v) = Some i" "taken_id (calls z ! w) = Some i" for v w i
    using that inv(1) inv(4)[of v w i] old z by (cases "v = t"; cases "w = t") auto
  then show ?thesis unfolding taken_ok_def using range z(1) inv(1,2) u h by simp
qed

lemma locked_keeps:
  assumes "taken_ok k n y" "counting_alone k y" "locked_step K txs y z" "unat n + k < 2 ^ 64"
  shows "taken_ok k n z \<and> counting_alone k z"
  using assms(3)
proof (cases rule: locked_step.cases)
  case (locked t)
  let ?p = "calls y ! t" and ?so = "shared_object y"
  have len: "length (calls y) = k" using assms(1) by (simp add: taken_ok_def)
  obtain p so s where a: "alloc_access K (txs t) (?p, ?so, shared_store y) = (p, so, s)"
    "z = y\<lparr>calls := (calls y)[t := p], shared_object := so, shared_store := s\<rparr>"
    using advance_parts[of K txs t y] locked(1) by blast
  have t: "t < k" using locked(2) len by simp
  have alone: "calls y ! u = Entered \<or> returned (calls y ! u)" if "u < k" "u \<noteq> t" for u
    using locked(4) len that unfolding others_quiet_def by blast
  have "counting_alone k z" unfolding counting_alone_def
  proof (intro allI impI)
    fix u i assume u: "u < k" "calls z ! u = Increment i"
    have "u = t" using u alone[of u] a(2) len by (cases "u = t") auto
    moreover have "p = Increment i \<Longrightarrow> i = next_id so" using locked(3) a(1) by (cases ?p) (auto split: if_splits)
    ultimately show "i = next_id (shared_object z) \<and> (\<forall>v<k. v \<noteq> u \<longrightarrow> calls z ! v = Entered \<or> returned (calls z ! v))"
      using u alone a(2) len by auto
  qed
  moreover have "taken_ok k n z"
  proof (cases "\<exists>i. ?p = Increment i")
    case True
    then obtain i where i: "?p = Increment i" by blast
    then have "i = next_id ?so" using assms(2) t by (simp add: counting_alone_def)
    then show ?thesis using taken_new[OF assms(1) t, of z p] a i assms(4) by auto
  next
    case False
    then have "taken_id p = taken_id ?p" "next_id so = next_id ?so" using locked(3) a(1) by (cases ?p; auto split: if_splits)+
    moreover have "taken_id ((calls y)[t := p] ! v) = (if v = t then taken_id p else taken_id (calls y ! v))" if "v < k" for v
      using that len by simp
    ultimately show ?thesis using a(2) len by (intro taken_same[OF assms(1)]) auto
  qed
  ultimately show ?thesis by blast
qed

lemma begun_ok: "taken_ok k (next_id so) (begun k so s)" "counting_alone k (begun k so s)"
  by (simp_all add: taken_ok_def counting_alone_def begun_def holders_def cong: conj_cong)

lemma locked_runs_keep:
  assumes "(locked_step K txs)\<^sup>*\<^sup>* (begun k so s) y" "unat (next_id so) + k < 2 ^ 64"
  shows "taken_ok k (next_id so) y"
proof -
  have "taken_ok k (next_id so) y \<and> counting_alone k y"
    using assms(1)
  proof (induction rule: rtranclp_induct)
    case (step y z)
    then show ?case using locked_keeps[of k "next_id so" y K txs z] assms(2) by simp
  qed (simp add: begun_ok)
  then show ?thesis ..
qed

section \<open>Properties\<close>

text \<open>C28: calls that a lock keeps from overlapping return each id once, and together the next ids without
  a gap, in whatever order the threads get the lock.\<close>

theorem locked_ids_distinct:
  assumes "(locked_step K txs)\<^sup>*\<^sup>* (begun k so s) y" "unat (next_id so) + k < 2 ^ 64" "calls y = map Returned ids"
  shows "distinct ids \<and> unat ` set ids = {unat (next_id so)..<unat (next_id so) + k}
    \<and> unat (next_id (shared_object y)) = unat (next_id so) + k"
proof -
  have inv: "length ids = k" "unat (next_id (shared_object y)) = unat (next_id so) + card (holders y)"
    "\<And>t. t < k \<Longrightarrow> unat (next_id so) \<le> unat (ids ! t) \<and> unat (ids ! t) < unat (next_id (shared_object y))"
    "\<And>t u. t < k \<Longrightarrow> u < k \<Longrightarrow> ids ! t = ids ! u \<Longrightarrow> t = u"
    using locked_runs_keep[OF assms(1,2)] unfolding taken_ok_def assms(3) by auto
  have "holders y = {..<k}" using inv(1) by (auto simp: holders_def assms(3))
  then have n: "unat (next_id (shared_object y)) = unat (next_id so) + k" using inv(2) by simp
  have d: "distinct ids" using inv(1,4) by (auto simp: distinct_conv_nth)
  have "unat ` set ids \<subseteq> {unat (next_id so)..<unat (next_id so) + k}"
    using inv(1,3) n by (fastforce simp: in_set_conv_nth)
  moreover have "inj_on unat (set ids)" by (rule inj_onI) (simp add: word_unat_eq_iff)
  then have "card (unat ` set ids) = k" using d inv(1) by (simp add: card_image distinct_card)
  ultimately have "unat ` set ids = {unat (next_id so)..<unat (next_id so) + k}"
    by (intro card_subset_eq) simp_all
  then show ?thesis using d n by blast
qed

text \<open>Two calls on a new store, the second thread first.\<close>

lemma two_locked_calls:
  "\<exists>y. (locked_step mock_kvs (\<lambda>_. 1))\<^sup>*\<^sup>* (begun 2 opened empty_mock) y \<and> calls y = map Returned [2, 1]"
proof -
  let ?A = "advance mock_kvs (\<lambda>_. 1)"
  define y where "y = (?A 1 ^^ 10) (begun 2 opened empty_mock)"
  have c: "calls y = [Entered, Returned 1]"
    by (simp add: y_def eval_nat_numeral begun_def advance_def opened_def new_storage_def case_prod_beta)
  have d: "calls ((?A 0 ^^ 10) y) = map Returned [2, 1]"
    by (simp add: y_def eval_nat_numeral begun_def advance_def opened_def new_storage_def case_prod_beta sequence_batch_size_def)
  have 1: "(locked_step mock_kvs (\<lambda>_. 1))\<^sup>*\<^sup>* (begun 2 opened empty_mock) y"
    unfolding y_def by (rule locked_alone) (simp_all add: begun_def others_quiet_def)
  have 2: "(locked_step mock_kvs (\<lambda>_. 1))\<^sup>*\<^sup>* y ((?A 0 ^^ 10) y)"
    by (rule locked_alone) (simp_all add: c others_quiet_def less_Suc_eq)
  show ?thesis using d rtranclp_trans[of "locked_step mock_kvs (\<lambda>_. 1)", OF 1 2] by blast
qed

lemma locked_ids_distinct_witness:
  "\<exists>y. (locked_step mock_kvs (\<lambda>_. 1))\<^sup>*\<^sup>* (begun 2 opened empty_mock) y \<and> calls y = map Returned [2, 1]
    \<and> unat (next_id (shared_object y)) = 3"
proof -
  obtain y where y: "(locked_step mock_kvs (\<lambda>_. 1))\<^sup>*\<^sup>* (begun 2 opened empty_mock) y" "calls y = map Returned [2, 1]"
    using two_locked_calls by blast
  have "next_id opened = 1" by (simp add: opened_def new_storage_def)
  then show ?thesis using locked_ids_distinct[OF y(1) _ y(2)] y by auto
qed

text \<open>C29: nothing keeps the calls of two threads apart: both can read \<open>next_id_\<close> before either writes it, and
  then both return the same id, whatever the store and its state.\<close>

theorem unlocked_ids_collide:
  "\<exists>y. (alloc_step K txs)\<^sup>*\<^sup>* (begun 2 so s) y \<and> calls y = [Returned (next_id so), Returned (next_id so)]"
proof -
  let ?A = "advance K txs"
  let ?y = "(?A 1 ^^ 1) ((?A 0 ^^ 1) (begun 2 so s))"
  have "(alloc_step K txs)\<^sup>*\<^sup>* (begun 2 so s) ((?A 0 ^^ 1) (begun 2 so s))" by (rule alone_steps) (simp add: begun_def)
  moreover have "(alloc_step K txs)\<^sup>*\<^sup>* ((?A 0 ^^ 1) (begun 2 so s)) ?y"
    by (rule alone_steps) (simp add: begun_def)
  moreover have "(alloc_step K txs)\<^sup>*\<^sup>* ?y ((?A 0 ^^ 9) ?y)" by (rule alone_steps) (simp add: begun_def)
  moreover have "(alloc_step K txs)\<^sup>*\<^sup>* ((?A 0 ^^ 9) ?y) ((?A 1 ^^ 9) ((?A 0 ^^ 9) ?y))"
    by (rule alone_steps) (simp add: begun_def)
  ultimately have "(alloc_step K txs)\<^sup>*\<^sup>* (begun 2 so s) ((?A 1 ^^ 9) ((?A 0 ^^ 9) ?y))" by (meson rtranclp_trans)
  moreover have "calls ((?A 1 ^^ 9) ((?A 0 ^^ 9) ?y)) = [Returned (next_id so), Returned (next_id so)]"
    by (simp add: eval_nat_numeral begun_def advance_def case_prod_beta)
  ultimately show ?thesis by blast
qed

end
