(* ===== verification/Iter_Life.thy ===== *)
theory Iter_Life
  imports Storage_Props
begin

text \<open>
  The life of \<open>label_iterator\<close> objects: the constructors, the move operations and the destructor of
  \<open>storage.cpp\<close>, and the handles of the store that they open, use and dispose of.  An object
  stands at an address; its members are the record of the streaming scan, with the number of
  its handle beside them.  The calls on handles are logged, the newest first.
\<close>

section \<open>Objects\<close>

record iter_object =
  it_members :: label_iterator
  it_handle :: "nat option" \<comment> \<open>\<open>None\<close> is the null pointer\<close>

datatype handle_call = Opened nat | Used nat | Disposed nat

record 's iter_heap =
  iter_objects :: "nat \<Rightarrow> iter_object option"
  handle_log :: "handle_call list"
  handles_opened :: nat
  heap_store :: 's

text \<open>The object a move leaves behind; what the move makes of its label is never read again.\<close>

definition moved_from :: "iter_object \<Rightarrow> iter_object" where
  "moved_from x = x\<lparr>it_handle := None, it_members := (it_members x)\<lparr>iter_it := None, iter_valid := False\<rparr>\<rparr>"

text \<open>\<open>if (it_) iterator_dispose(it_)\<close>, in the destructor and in the move assignment.\<close>

definition dispose_handle :: "iter_object \<Rightarrow> handle_call list \<Rightarrow> handle_call list" where
  "dispose_handle x l = (case it_handle x of None \<Rightarrow> l | Some n \<Rightarrow> Disposed n # l)"

definition construct_iter :: "'s kvs \<Rightarrow> tx_handle \<Rightarrow> storage \<Rightarrow> nat \<Rightarrow> string \<Rightarrow> 's iter_heap \<Rightarrow> 's iter_heap" where
  "construct_iter K tx so a label h =
     (let (li, s1) = find_nodes_by_label_iter K tx so label (heap_store h); n = handles_opened h in
      if iter_it li = None
      then h\<lparr>iter_objects := (iter_objects h)(a \<mapsto> \<lparr>it_members = li, it_handle = None\<rparr>), heap_store := s1\<rparr>
      else h\<lparr>iter_objects := (iter_objects h)(a \<mapsto> \<lparr>it_members = li, it_handle = Some n\<rparr>),
             handle_log := Opened n # handle_log h, handles_opened := n + 1, heap_store := s1\<rparr>)"

definition move_construct_iter :: "nat \<Rightarrow> nat \<Rightarrow> iter_object \<Rightarrow> 's iter_heap \<Rightarrow> 's iter_heap" where
  "move_construct_iter a b x h = h\<lparr>iter_objects := (iter_objects h)(a \<mapsto> x, b \<mapsto> moved_from x)\<rparr>"

definition move_assign_iter :: "nat \<Rightarrow> nat \<Rightarrow> iter_object \<Rightarrow> iter_object \<Rightarrow> 's iter_heap \<Rightarrow> 's iter_heap" where
  "move_assign_iter a b this x h =
     (if a = b then h
      else h\<lparr>iter_objects := (iter_objects h)(a \<mapsto> x, b \<mapsto> moved_from x), handle_log := dispose_handle this (handle_log h)\<rparr>)"

definition next_iter :: "nat \<Rightarrow> iter_object \<Rightarrow> 's iter_heap \<Rightarrow> 's iter_heap" where
  "next_iter a x h =
     (case it_handle x of
        None \<Rightarrow> h
      | Some n \<Rightarrow> h\<lparr>iter_objects := (iter_objects h)(a \<mapsto> x\<lparr>it_members := snd (label_next (it_members x))\<rparr>),
                    handle_log := Used n # handle_log h\<rparr>)"

definition destroy_iter :: "nat \<Rightarrow> iter_object \<Rightarrow> 's iter_heap \<Rightarrow> 's iter_heap" where
  "destroy_iter a x h = h\<lparr>iter_objects := (iter_objects h)(a := None), handle_log := dispose_handle x (handle_log h)\<rparr>"

section \<open>Programs over objects\<close>

text \<open>\<open>None\<close>: the event breaks the lifetime rules of C++ (an object that is not there, an address in use).\<close>

datatype iter_event =
    Construct nat string
  | Move_construct nat nat
  | Move_assign nat nat
  | Advance nat
  | Destroy nat

fun iter_step :: "'s kvs \<Rightarrow> tx_handle \<Rightarrow> storage \<Rightarrow> iter_event \<Rightarrow> 's iter_heap \<Rightarrow> 's iter_heap option" where
  "iter_step K tx so (Construct a label) h =
     (if iter_objects h a = None then Some (construct_iter K tx so a label h) else None)"
| "iter_step K tx so (Move_construct a b) h =
     (case iter_objects h b of
        None \<Rightarrow> None
      | Some x \<Rightarrow> if iter_objects h a = None then Some (move_construct_iter a b x h) else None)"
| "iter_step K tx so (Move_assign a b) h =
     (case (iter_objects h a, iter_objects h b) of
        (Some this, Some x) \<Rightarrow> Some (move_assign_iter a b this x h)
      | _ \<Rightarrow> None)"
| "iter_step K tx so (Advance a) h = map_option (\<lambda>x. next_iter a x h) (iter_objects h a)"
| "iter_step K tx so (Destroy a) h = map_option (\<lambda>x. destroy_iter a x h) (iter_objects h a)"

fun iter_run :: "'s kvs \<Rightarrow> tx_handle \<Rightarrow> storage \<Rightarrow> iter_event list \<Rightarrow> 's iter_heap \<Rightarrow> 's iter_heap option" where
  "iter_run K tx so [] h = Some h"
| "iter_run K tx so (e # es) h = (case iter_step K tx so e h of None \<Rightarrow> None | Some h1 \<Rightarrow> iter_run K tx so es h1)"

definition no_iters :: "'s \<Rightarrow> 's iter_heap" where
  "no_iters s = \<lparr>iter_objects = (\<lambda>_. None), handle_log = [], handles_opened = 0, heap_store = s\<rparr>"

section \<open>Ownership\<close>

text \<open>Every handle is opened once, used only while open, and disposed of at most once.\<close>

fun log_ok :: "handle_call list \<Rightarrow> bool" where
  "log_ok [] = True"
| "log_ok (Opened n # l) \<longleftrightarrow> Opened n \<notin> set l \<and> Used n \<notin> set l \<and> Disposed n \<notin> set l \<and> log_ok l"
| "log_ok (Used n # l) \<longleftrightarrow> Opened n \<in> set l \<and> Disposed n \<notin> set l \<and> log_ok l"
| "log_ok (Disposed n # l) \<longleftrightarrow> Opened n \<in> set l \<and> Disposed n \<notin> set l \<and> log_ok l"

definition is_open :: "nat \<Rightarrow> handle_call list \<Rightarrow> bool" where
  "is_open n l \<longleftrightarrow> Opened n \<in> set l \<and> Disposed n \<notin> set l"

definition owner :: "'s iter_heap \<Rightarrow> nat \<Rightarrow> nat \<Rightarrow> bool" where
  "owner h n a \<longleftrightarrow> (\<exists>x. iter_objects h a = Some x \<and> it_handle x = Some n)"

text \<open>The open handles are those of the objects, each of one.\<close>

definition owned :: "'s iter_heap \<Rightarrow> bool" where
  "owned h \<longleftrightarrow> log_ok (handle_log h)
     \<and> (\<forall>n. is_open n (handle_log h) \<longleftrightarrow> (\<exists>a. owner h n a))
     \<and> (\<forall>n a b. owner h n a \<longrightarrow> owner h n b \<longrightarrow> a = b)
     \<and> (\<forall>n c. c \<in> set (handle_log h) \<longrightarrow> c \<in> {Opened n, Used n, Disposed n} \<longrightarrow> n < handles_opened h)
     \<and> (\<forall>a x. iter_objects h a = Some x \<longrightarrow> (it_handle x = None) = (iter_it (it_members x) = None))"

lemma label_next_handle: "iter_it (snd (label_next li)) = None \<longleftrightarrow> iter_it li = None"
  by (auto simp: label_next_def iter_stop_def split: option.splits list.splits)

lemma is_open_simps [simp]:
  "is_open n (Opened m # l) \<longleftrightarrow> n = m \<and> Disposed n \<notin> set l \<or> is_open n l"
  "is_open n (Used m # l) \<longleftrightarrow> is_open n l"
  "is_open n (Disposed m # l) \<longleftrightarrow> n \<noteq> m \<and> is_open n l"
  by (auto simp: is_open_def)

lemma moved_from_simps [simp]: "it_handle (moved_from x) = None" "iter_it (it_members (moved_from x)) = None"
  by (simp_all add: moved_from_def)

lemma ownedD:
  assumes "owned h"
  shows "log_ok (handle_log h)" "is_open n (handle_log h) \<longleftrightarrow> (\<exists>a. owner h n a)" "owner h n a \<Longrightarrow> owner h n b \<Longrightarrow> a = b"
    "c \<in> set (handle_log h) \<Longrightarrow> c \<in> {Opened n, Used n, Disposed n} \<Longrightarrow> n < handles_opened h"
    "iter_objects h a = Some x \<Longrightarrow> (it_handle x = None) = (iter_it (it_members x) = None)"
  using assms unfolding owned_def by blast+

lemma owner_below: "owned h \<Longrightarrow> owner h n a \<Longrightarrow> n < handles_opened h"
  using ownedD(2)[of h n] ownedD(4)[of h "Opened n" n] by (auto simp: is_open_def)

lemma owner_fun: "owner h n a \<Longrightarrow> owner h m a \<Longrightarrow> n = m"
  by (auto simp: owner_def)

lemma construct_owned:
  assumes h: "owned h" and free: "iter_objects h a = None"
  shows "owned (construct_iter K tx so a label h)"
proof -
  obtain li s1 where f: "find_nodes_by_label_iter K tx so label (heap_store h) = (li, s1)" by fastforce
  let ?n = "handles_opened h" and ?h = "construct_iter K tx so a label h"
  have new: "Opened ?n \<notin> set (handle_log h)" "Used ?n \<notin> set (handle_log h)" "Disposed ?n \<notin> set (handle_log h)"
    using ownedD(4)[OF h, of _ ?n] by blast+
  have none: "\<not> owner h n a" for n using free by (simp add: owner_def)
  show ?thesis
  proof (cases "iter_it li = None")
    case True
    have "owner ?h n b \<longleftrightarrow> owner h n b" for n b using True f free by (auto simp: construct_iter_def owner_def)
    then show ?thesis using ownedD[OF h] True f unfolding owned_def by (auto simp: construct_iter_def)
  next
    case False
    have o: "owner ?h n b \<longleftrightarrow> n = ?n \<and> b = a \<or> owner h n b" for n b
      using False f none[of n] by (auto simp: construct_iter_def owner_def Let_def split: if_splits)
    have "\<not> owner h ?n b" for b using new(1) ownedD(2)[OF h, of ?n] by (auto simp: is_open_def)
    moreover have "handle_log ?h = Opened ?n # handle_log h" "handles_opened ?h = ?n + 1"
    using False f by (simp_all add: construct_iter_def Let_def)
    moreover have "(it_handle x = None) = (iter_it (it_members x) = None)" if "iter_objects ?h b = Some x" for b x
      using that ownedD(5)[OF h, of b x] False f by (auto simp: construct_iter_def Let_def split: if_splits)
    ultimately show ?thesis unfolding owned_def o
      using ownedD(1,2)[OF h] ownedD(3)[OF h] ownedD(4)[OF h] new by (auto simp: less_Suc_eq)
  qed
qed

text \<open>The object at \<open>b\<close> gives its handle to \<open>a\<close>, which has none or disposes of its own.\<close>

lemma move_owned:
  assumes h: "owned h" and b: "iter_objects h b = Some x" and ab: "a \<noteq> b"
    and l: "l = (case iter_objects h a of None \<Rightarrow> handle_log h | Some this \<Rightarrow> dispose_handle this (handle_log h))"
  shows "owned (h\<lparr>iter_objects := (iter_objects h)(a \<mapsto> x, b \<mapsto> moved_from x), handle_log := l\<rparr>)" (is "owned ?h")
proof -
  have o: "owner ?h n c \<longleftrightarrow> (if c = a then owner h n b else c \<noteq> b \<and> owner h n c)" for n c
    using b ab by (auto simp: owner_def)
  consider (quiet) "l = handle_log h" "\<And>n. \<not> owner h n a" | (dispose) m where "owner h m a" "l = Disposed m # handle_log h"
    using l by (cases "iter_objects h a") (auto simp: owner_def dispose_handle_def split: option.splits)
  then have "log_ok l \<and> (\<forall>n. is_open n l \<longleftrightarrow> (\<exists>c. owner ?h n c))
    \<and> (\<forall>n c. c \<in> set l \<longrightarrow> c \<in> {Opened n, Used n, Disposed n} \<longrightarrow> n < handles_opened h)"
  proof cases
    case quiet
    then have "(\<exists>c. owner ?h n c) \<longleftrightarrow> (\<exists>c. owner h n c)" for n unfolding o by metis
    then show ?thesis using quiet(1) ownedD(1,2)[OF h] ownedD(4)[OF h] by blast
  next
    case dispose
    have m: "is_open m (handle_log h)" using ownedD(2)[OF h] dispose(1) by blast
    have "(\<exists>c. owner ?h n c) \<longleftrightarrow> n \<noteq> m \<and> (\<exists>c. owner h n c)" for n
      unfolding o using dispose(1) ownedD(3)[OF h] ab by (metis owner_fun)
    then have "is_open n l \<longleftrightarrow> (\<exists>c. owner ?h n c)" for n using ownedD(2)[OF h, of n] dispose(2) by simp
    moreover have "log_ok l" using dispose(2) m ownedD(1)[OF h] by (simp add: is_open_def)
    moreover have "n < handles_opened h" if "c \<in> set l" "c \<in> {Opened n, Used n, Disposed n}" for n c
      using that dispose owner_below[OF h] ownedD(4)[OF h] by auto
    ultimately show ?thesis by blast
  qed
  moreover have "\<forall>n c d. owner ?h n c \<longrightarrow> owner ?h n d \<longrightarrow> c = d" unfolding o using ownedD(3)[OF h] by metis
  moreover have "(it_handle y = None) = (iter_it (it_members y) = None)" if "iter_objects ?h c = Some y" for c y
    using that ownedD(5)[OF h] b by (auto split: if_splits)
  ultimately show ?thesis unfolding owned_def by simp
qed

lemma next_owned:
  assumes h: "owned h" and a: "iter_objects h a = Some x"
  shows "owned (next_iter a x h)"
proof (cases "it_handle x")
  case None
  then show ?thesis using h by (simp add: next_iter_def)
next
  case (Some n)
  have o: "owner (next_iter a x h) m b \<longleftrightarrow> owner h m b" for m b using a Some by (auto simp: next_iter_def owner_def)
  have "is_open n (handle_log h)" using ownedD(2)[OF h] a Some by (auto simp: owner_def)
  moreover have "(it_handle y = None) = (iter_it (it_members y) = None)" if "iter_objects (next_iter a x h) b = Some y" for b y
    using that ownedD(5)[OF h] ownedD(5)[OF h a] Some label_next_handle by (auto simp: next_iter_def split: if_splits)
  ultimately show ?thesis unfolding owned_def o
    using ownedD(1,2)[OF h] ownedD(3)[OF h] ownedD(4)[OF h] owner_below[OF h] Some by (auto simp: next_iter_def is_open_def)
qed

lemma destroy_owned:
  assumes h: "owned h" and a: "iter_objects h a = Some x"
  shows "owned (destroy_iter a x h)"
proof -
  have o: "owner (destroy_iter a x h) n b \<longleftrightarrow> b \<noteq> a \<and> owner h n b" for n b by (auto simp: destroy_iter_def owner_def)
  have e: "(it_handle y = None) = (iter_it (it_members y) = None)" if "iter_objects (destroy_iter a x h) b = Some y" for b y
    using that ownedD(5)[OF h] by (auto simp: destroy_iter_def split: if_splits)
  show ?thesis
  proof (cases "it_handle x")
    case None
    then have "\<not> owner h n a" for n using a by (simp add: owner_def)
    then have "(\<exists>b. b \<noteq> a \<and> owner h n b) \<longleftrightarrow> (\<exists>b. owner h n b)" for n by metis
    then show ?thesis unfolding owned_def o using None e ownedD(1,2)[OF h] ownedD(3)[OF h] ownedD(4)[OF h]
      by (auto simp: destroy_iter_def dispose_handle_def)
  next
    case (Some m)
    then have m: "owner h m a" using a by (simp add: owner_def)
    have l: "handle_log (destroy_iter a x h) = Disposed m # handle_log h" "handles_opened (destroy_iter a x h) = handles_opened h"
      using Some by (simp_all add: destroy_iter_def dispose_handle_def)
    have "is_open m (handle_log h)" using ownedD(2)[OF h] m by blast
    moreover have "is_open n (Disposed m # handle_log h) \<longleftrightarrow> (\<exists>b. b \<noteq> a \<and> owner h n b)" for n
      unfolding is_open_simps ownedD(2)[OF h] using ownedD(3)[OF h] m by (metis owner_fun)
    ultimately show ?thesis unfolding owned_def o l
      using e ownedD(1)[OF h] ownedD(3)[OF h] ownedD(4)[OF h] owner_below[OF h m] by (auto simp: is_open_def)
  qed
qed

lemma step_owned:
  assumes "owned h" "iter_step K tx so e h = Some h'"
  shows "owned h'"
proof (cases e)
  case (Move_construct a b)
  then obtain x where x: "iter_objects h b = Some x" "iter_objects h a = None" "h' = move_construct_iter a b x h"
    using assms(2) by (auto split: option.splits if_splits)
  moreover have "a \<noteq> b" using x by auto
  ultimately show ?thesis using move_owned[OF assms(1), of b x a "handle_log h"] by (simp add: move_construct_iter_def)
next
  case (Move_assign a b)
  then obtain this x where "iter_objects h a = Some this" "iter_objects h b = Some x" "h' = move_assign_iter a b this x h"
    using assms(2) by (auto split: option.splits)
  then show ?thesis
    using assms(1) move_owned[OF assms(1), of b x a "dispose_handle this (handle_log h)"] by (simp add: move_assign_iter_def)
qed (use assms in \<open>auto intro: construct_owned next_owned destroy_owned split: if_splits\<close>)

lemma run_owned: "owned h \<Longrightarrow> iter_run K tx so es h = Some h' \<Longrightarrow> owned h'"
  by (induction es arbitrary: h) (auto split: option.splits intro: step_owned)

lemma no_iters_owned: "owned (no_iters s)"
  by (simp add: owned_def no_iters_def is_open_def owner_def)

section \<open>Properties\<close>

text \<open>C26: whatever a program does with label iterators, however they are moved, every handle is used only
  between its opening and its disposal and is disposed of at most once, the open handles are
  those that exactly one object holds, and when the objects are gone every handle opened has
  been disposed of.\<close>

theorem iterator_handles_disposed_once:
  assumes "iter_run K tx so es (no_iters s) = Some h"
  shows "log_ok (handle_log h) \<and> (\<forall>n. is_open n (handle_log h) \<longleftrightarrow> (\<exists>a. owner h n a))
    \<and> (\<forall>n a b. owner h n a \<longrightarrow> owner h n b \<longrightarrow> a = b)
    \<and> (iter_objects h = Map.empty \<longrightarrow> (\<forall>n. Opened n \<in> set (handle_log h) \<longrightarrow> Disposed n \<in> set (handle_log h)))"
proof -
  have o: "owned h" using run_owned[OF no_iters_owned assms] .
  have "\<not> is_open n (handle_log h)" if "iter_objects h = Map.empty" for n
    using ownedD(2)[OF o, of n] that by (simp add: owner_def)
  then show ?thesis using o unfolding owned_def is_open_def by blast
qed

text \<open>Two iterators; the first is moved over the second, used, moved out and destroyed.\<close>

definition moving_program :: "iter_event list" where
  "moving_program = [Construct 1 ''A'', Construct 2 ''B'', Move_assign 2 1, Advance 2, Advance 1, Move_construct 3 2,
     Destroy 1, Destroy 2, Destroy 3]"

lemma iterator_handles_disposed_once_witness:
  "\<exists>h. iter_run mock_kvs 1 opened moving_program (no_iters empty_mock) = Some h
    \<and> handle_log h = [Disposed 0, Used 0, Disposed 1, Opened 1, Opened 0] \<and> iter_objects h = Map.empty \<and> log_ok (handle_log h)"
proof -
  have f: "find_nodes_by_label_iter mock_kvs 1 opened label empty_mock =
      (\<lparr>iter_tx = 1, iter_nodes = nodes_handle opened, iter_it = Some [], iter_label = label, current_id = 0, iter_valid = False\<rparr>, empty_mock)" for label
    by (simp add: find_nodes_by_label_iter_def prefix_scan_def mock_kvs_def mock_content_scan_def empty_mock_def readable_def)
  obtain h where h: "iter_run mock_kvs 1 opened moving_program (no_iters empty_mock) = Some h"
    and l: "handle_log h = [Disposed 0, Used 0, Disposed 1, Opened 1, Opened 0]" "iter_objects h = Map.empty"
    by (simp add: moving_program_def construct_iter_def f[unfolded One_nat_def] no_iters_def move_assign_iter_def moved_from_def
        dispose_handle_def next_iter_def move_construct_iter_def destroy_iter_def fun_upd_twist)
  then show ?thesis using iterator_handles_disposed_once[OF h] by blast
qed

end
