(* ===== verification/Service.thy ===== *)
theory Service
  imports Query_Run Query_Cache Parser
begin

text \<open>
  The resource and the service: \<open>resource.cpp\<close> opens the storages in a transaction of its own,
  \<open>service.cpp\<close> runs every request in a transaction that a guard object ends, and repeats a
  query whose transaction could not begin or whose commit may be retried.  The framework, the
  protobuf encoding of requests and replies and the text of the exceptions of the standard
  library are parameters.  Log output is left out; the time slept is recorded.
\<close>

section \<open>The framework\<close>

datatype boot_mode = Maintenance_standalone | Maintenance_server | Quiescent_server | Other_mode nat

text \<open>What \<open>find\<close> of the resource repository returns: whether there is the graph resource, and
  the database handle of the key-value store's resource.\<close>

record environment =
  env_mode :: boot_mode
  env_graph_resource :: bool
  env_kvs_resource :: "db_handle option"

text \<open>The platform: iteration orders of hash maps, hardware threads, texts of library exceptions.\<close>

record platform =
  orders :: hash_orders
  hardware_threads :: nat
  what_text :: "string \<Rightarrow> string"

section \<open>The resource\<close>

record resource =
  graph_storage :: "storage option"
  resource_db :: db_handle
  initialized :: bool

definition new_resource :: resource where
  "new_resource = \<lparr>graph_storage = None, resource_db = 0, initialized = False\<rparr>"

definition resource_setup :: "environment \<Rightarrow> resource \<Rightarrow> bool \<times> resource" where
  "resource_setup env r = (True, r\<lparr>graph_storage := Some new_storage\<rparr>)"

text \<open>Without \<open>setup\<close> the pointer to the storage object is null.\<close>

definition resource_start :: "'s kvs \<Rightarrow> environment \<Rightarrow> resource \<Rightarrow> 's \<Rightarrow> status \<times> resource \<times> 's" where
  "resource_start K env r s =
     (case env_kvs_resource env of
        None \<Rightarrow> (Failed, r, s)
      | Some db \<Rightarrow>
          let r1 = r\<lparr>resource_db := db\<rparr> in
          if db = 0 then (Failed, r1, s)
          else
            let (rc, c, s1) = transaction_begin K db \<lparr>write_preserves = []\<rparr> s in
            if rc \<noteq> Ok then (Failed, r1, s1)
            else
              let (rb, tx, s2) = transaction_borrow_handle K c s1;
                  give_up = (\<lambda>t. snd (transaction_dispose K c (snd (transaction_abort K c t))))
              in if rb \<noteq> Ok then (Failed, r1, give_up s2)
                 else case graph_storage r1 of
                     None \<Rightarrow> (Undefined, r1, s2)
                   | Some so \<Rightarrow>
                       let (ok, so1, s3) = init K db so s2; r2 = r1\<lparr>graph_storage := Some so1\<rparr> in
                       if \<not> ok then (Failed, r2, give_up s3)
                       else
                         let (rcc, s4) = transaction_commit K c s3;
                             (rd, s5) = transaction_dispose K c s4
                         in if rcc \<noteq> Ok then (Failed, r2, s5) else (Done, r2\<lparr>initialized := True\<rparr>, s5))"

definition resource_shutdown :: "environment \<Rightarrow> resource \<Rightarrow> bool \<times> resource" where
  "resource_shutdown env r = (True, r\<lparr>initialized := False\<rparr>)"

section \<open>The transaction guard\<close>

record tx_guard =
  guard_ctl :: nat
  guard_tx :: tx_handle
  guard_active :: bool

definition new_guard :: tx_guard where
  "new_guard = \<lparr>guard_ctl = 0, guard_tx = 0, guard_active = False\<rparr>"

definition guard_begin :: "'s kvs \<Rightarrow> db_handle \<Rightarrow> tx_options \<Rightarrow> tx_guard \<Rightarrow> 's \<Rightarrow> bool \<times> tx_guard \<times> 's" where
  "guard_begin K db opt g s =
     (let (rc, c, s1) = transaction_begin K db opt s; g1 = g\<lparr>guard_ctl := c\<rparr> in
      if rc \<noteq> Ok then (False, g1, s1)
      else
        let (rb, tx, s2) = transaction_borrow_handle K c s1; g2 = g1\<lparr>guard_tx := tx\<rparr> in
        if rb \<noteq> Ok then (False, g2\<lparr>guard_ctl := 0\<rparr>, snd (transaction_dispose K c s2))
        else (True, g2\<lparr>guard_active := True\<rparr>, s2))"

definition guard_commit :: "'s kvs \<Rightarrow> tx_guard \<Rightarrow> 's \<Rightarrow> status_code \<times> tx_guard \<times> 's" where
  "guard_commit K g s =
     (if \<not> guard_active g then (Err_unknown, g, s)
      else let (rc, s1) = transaction_commit K (guard_ctl g) s in (rc, g\<lparr>guard_active := False\<rparr>, s1))"

definition guard_abort :: "'s kvs \<Rightarrow> tx_guard \<Rightarrow> 's \<Rightarrow> tx_guard \<times> 's" where
  "guard_abort K g s =
     (if guard_active g then (g\<lparr>guard_active := False\<rparr>, snd (transaction_abort K (guard_ctl g) s)) else (g, s))"

definition guard_destroy :: "'s kvs \<Rightarrow> tx_guard \<Rightarrow> 's \<Rightarrow> 's" where
  "guard_destroy K g s =
     (if guard_ctl g = 0 then s
      else
        let s1 = (if guard_active g then snd (transaction_abort K (guard_ctl g) s) else s)
        in snd (transaction_dispose K (guard_ctl g) s1))"

definition is_retryable :: "status_code \<Rightarrow> bool" where
  "is_retryable rc \<longleftrightarrow> rc = Err_aborted_retryable \<or> rc = Err_conflict_on_write_preserve
     \<or> rc = Waiting_for_other_transaction"

section \<open>Messages\<close>

datatype tx_type = OCC | LTX | READ_ONLY | Unknown_type int

record transaction_options =
  option_type :: tx_type
  option_write_preserves :: "string list"

record cypher_request =
  cypher_query :: string
  cypher_parameters :: "(string \<times> string) list"
  cypher_transaction_options :: "transaction_options option"

datatype proto_request = Cypher cypher_request | Node_get u64 | Edge_get u64 | No_command

datatype success = Cypher_success string | Node_success u64 string | Edge_success u64 u64 u64 string string

datatype proto_response = Not_set | Success success | Error int string

section \<open>The service\<close>

record service =
  graph_resource :: bool \<comment> \<open>the pointer to the resource is set\<close>
  service_db :: db_handle
  statements :: "statement query_cache"

definition default_cache_size :: nat where
  "default_cache_size = 1024"

definition new_service :: service where
  "new_service = \<lparr>graph_resource = False, service_db = 0, statements = new_cache default_cache_size\<rparr>"

text \<open>The service, the resource it points to, the state of the store and the time slept so far.\<close>

record 's world =
  the_service :: service
  the_resource :: resource
  store_state :: 's
  slept :: "nat list"

definition service_setup :: "environment \<Rightarrow> service \<Rightarrow> bool \<times> service" where
  "service_setup env sv = (True, sv)"

definition service_start :: "environment \<Rightarrow> service \<Rightarrow> bool \<times> service" where
  "service_start env sv =
     (if env_mode env \<in> {Maintenance_standalone, Maintenance_server, Quiescent_server} then (True, sv)
      else
        let sv1 = sv\<lparr>graph_resource := env_graph_resource env\<rparr> in
        case env_kvs_resource env of
          None \<Rightarrow> (False, sv1)
        | Some db \<Rightarrow> if \<not> graph_resource sv1 then (False, sv1) else (True, sv1\<lparr>service_db := db\<rparr>))"

definition service_shutdown :: "environment \<Rightarrow> service \<Rightarrow> bool \<times> service" where
  "service_shutdown env sv = (True, sv\<lparr>graph_resource := False, service_db := 0\<rparr>)"

definition make_ltx_options :: "storage \<Rightarrow> tx_options" where
  "make_ltx_options so =
     \<lparr>write_preserves = [nodes_handle so, edges_handle so, out_index_handle so, in_index_handle so,
        label_index_handle so, property_index_handle so]\<rparr>"

text \<open>The storage object behind the two pointers; \<open>None\<close> when one of them is null.\<close>

definition storage_of :: "'s world \<Rightarrow> storage option" where
  "storage_of w = (if graph_resource (the_service w) then graph_storage (the_resource w) else None)"

section \<open>Queries\<close>

datatype fetched = Fetched statement | Raised string | Broken

definition fetch_statement :: "(string \<Rightarrow> string) \<Rightarrow> string \<Rightarrow> statement query_cache \<Rightarrow> fetched \<times> statement query_cache" where
  "fetch_statement txt raw_query q =
     (let fault = (\<lambda>e. case e of Out_of_range \<Rightarrow> Raised (txt raw_query) | Undefined_behaviour \<Rightarrow> Broken) in
      case cache_get raw_query q of
        Inl e \<Rightarrow> (fault e, q)
      | Inr (Some st, q1) \<Rightarrow> (Fetched st, q1)
      | Inr (None, q1) \<Rightarrow>
          (case parse_query raw_query of
             Inl msg \<Rightarrow> (Raised msg, q1)
           | Inr st \<Rightarrow>
               (case cache_put raw_query st q1 of
                  Inl e \<Rightarrow> (fault e, q1)
                | Inr q2 \<Rightarrow> (Fetched st, q2))))"

definition max_retries :: nat where
  "max_retries = 5"

definition initial_backoff_ms :: nat where
  "initial_backoff_ms = 10"

datatype verdict = Retry | Answer proto_response | Crash

text \<open>One pass of the loop, from the guard's construction to its destruction.\<close>

definition query_error :: "'s kvs \<Rightarrow> tx_guard \<Rightarrow> int \<Rightarrow> string \<Rightarrow> 's world \<Rightarrow> verdict \<times> 's world" where
  "query_error K g num msg w =
     (let (g1, s1) = guard_abort K g (store_state w)
      in (Answer (Error num msg), w\<lparr>store_state := guard_destroy K g1 s1\<rparr>))"

text \<open>
  The wait before a repetition comes before the guard's destruction in the code; the waits are
  recorded in a field of their own, so the order of the two updates makes no difference.
\<close>

definition query_commit :: "'s kvs \<Rightarrow> tx_guard \<Rightarrow> nat \<Rightarrow> string \<Rightarrow> 's world \<Rightarrow> verdict \<times> 's world" where
  "query_commit K g backoff json w =
     (let (rc, g1, s1) = guard_commit K g (store_state w);
          w1 = w\<lparr>store_state := guard_destroy K g1 s1\<rparr>
      in if rc = Ok then (Answer (Success (Cypher_success json)), w1)
         else if is_retryable rc then (Retry, w1\<lparr>slept := slept w @ [backoff]\<rparr>)
         else (Answer (Error 2 ''Fatal commit error''), w1))"

definition execute_query ::
  "'s kvs \<Rightarrow> platform \<Rightarrow> cypher_request \<Rightarrow> tx_guard \<Rightarrow> nat \<Rightarrow> statement \<Rightarrow> 's world \<Rightarrow> verdict \<times> 's world" where
  "execute_query K pf cy g backoff st w =
     (case storage_of w of
        None \<Rightarrow> (Crash, w)
      | Some so \<Rightarrow>
          let (r, json, so1, s1) = execute K (orders pf) (hardware_threads pf) (guard_tx g) so st (store_state w);
              w1 = w\<lparr>store_state := s1, the_resource := (the_resource w)\<lparr>graph_storage := Some so1\<rparr>\<rparr>
          in case r of
               Undefined \<Rightarrow> (Crash, w1)
             | Thrown \<Rightarrow> query_error K g 3 (''Query error: '' @ what_text pf (cypher_query cy)) w1
             | Failed \<Rightarrow> query_error K g 1 ''Query execution failed'' w1
             | Done \<Rightarrow> query_commit K g backoff json w1)"

text \<open>The \<open>try\<close> block with its handler.\<close>

definition try_query ::
  "'s kvs \<Rightarrow> platform \<Rightarrow> cypher_request \<Rightarrow> tx_guard \<Rightarrow> nat \<Rightarrow> 's world \<Rightarrow> verdict \<times> 's world" where
  "try_query K pf cy g backoff w =
     (let (f, q) = fetch_statement (what_text pf) (cypher_query cy) (statements (the_service w));
          w1 = w\<lparr>the_service := (the_service w)\<lparr>statements := q\<rparr>\<rparr>
      in case f of
           Broken \<Rightarrow> (Crash, w1)
         | Raised msg \<Rightarrow> query_error K g 3 (''Query error: '' @ msg) w1
         | Fetched st \<Rightarrow> execute_query K pf cy g backoff st w1)"

definition cypher_attempt ::
  "'s kvs \<Rightarrow> platform \<Rightarrow> cypher_request \<Rightarrow> tx_options \<Rightarrow> nat \<Rightarrow> 's world \<Rightarrow> verdict \<times> 's world" where
  "cypher_attempt K pf cy opt backoff w =
     (let (begun, g, s1) = guard_begin K (service_db (the_service w)) opt new_guard (store_state w) in
      if \<not> begun then (Retry, w\<lparr>store_state := guard_destroy K g s1, slept := slept w @ [backoff]\<rparr>)
      else try_query K pf cy g backoff (w\<lparr>store_state := s1\<rparr>))"

function cypher_loop ::
  "'s kvs \<Rightarrow> platform \<Rightarrow> cypher_request \<Rightarrow> tx_options \<Rightarrow> nat \<Rightarrow> nat \<Rightarrow> 's world \<Rightarrow> verdict \<times> 's world" where
  "cypher_loop K pf cy opt attempt backoff w =
     (if attempt < max_retries then
        let (v, w1) = cypher_attempt K pf cy opt backoff w
        in if v = Retry then cypher_loop K pf cy opt (attempt + 1) (backoff * 2) w1 else (v, w1)
      else (Retry, w))"
  by pat_completeness auto
termination cypher_loop
  by (relation "measure (\<lambda>(K, pf, cy, opt, attempt, backoff, w). max_retries - attempt)") auto

declare cypher_loop.simps [simp del]

definition wants_ltx :: "cypher_request \<Rightarrow> bool" where
  "wants_ltx cy \<longleftrightarrow> (case cypher_transaction_options cy of None \<Rightarrow> False | Some o' \<Rightarrow> option_type o' = LTX)"

definition handle_cypher :: "'s kvs \<Rightarrow> platform \<Rightarrow> cypher_request \<Rightarrow> 's world \<Rightarrow> verdict \<times> 's world" where
  "handle_cypher K pf cy w =
     (if wants_ltx cy \<and> storage_of w = None then (Crash, w)
      else
        let opt = (if wants_ltx cy then make_ltx_options (the (storage_of w)) else \<lparr>write_preserves = []\<rparr>);
            (v, w1) = cypher_loop K pf cy opt 0 initial_backoff_ms w
        in (if v = Retry then Answer (Error 101 ''Transaction failed after max retries'') else v, w1))"

section \<open>Single elements\<close>

text \<open>The reply is decided before the commit, whose result only goes to the log.  \<open>None\<close> is
  undefined behaviour.\<close>

definition read_element ::
  "'s kvs \<Rightarrow> string \<Rightarrow> (storage \<Rightarrow> tx_handle \<Rightarrow> 's \<Rightarrow> proto_response option \<times> 's) \<Rightarrow> 's world \<Rightarrow> verdict \<times> 's world" where
  "read_element K begin_error look w =
     (let (begun, g, s1) = guard_begin K (service_db (the_service w)) \<lparr>write_preserves = []\<rparr> new_guard (store_state w) in
      if \<not> begun then (Answer (Error 4 begin_error), w\<lparr>store_state := guard_destroy K g s1\<rparr>)
      else case storage_of w of
          None \<Rightarrow> (Crash, w\<lparr>store_state := s1\<rparr>)
        | Some so \<Rightarrow>
            let (r, s2) = look so (guard_tx g) s1 in
            case r of
              None \<Rightarrow> (Crash, w\<lparr>store_state := s2\<rparr>)
            | Some reply \<Rightarrow>
                let (rc, g1, s3) = guard_commit K g s2
                in (Answer reply, w\<lparr>store_state := guard_destroy K g1 s3\<rparr>))"

definition look_node :: "'s kvs \<Rightarrow> u64 \<Rightarrow> storage \<Rightarrow> tx_handle \<Rightarrow> 's \<Rightarrow> proto_response option \<times> 's" where
  "look_node K i so tx s =
     (let (r, s1) = get_node K tx so i s
      in (Some (case r of
            Some props \<Rightarrow> Success (Node_success i props)
          | None \<Rightarrow> Error 5 (''Node not found: '' @ to_decimal (unat i))), s1))"

definition look_edge :: "'s kvs \<Rightarrow> u64 \<Rightarrow> storage \<Rightarrow> tx_handle \<Rightarrow> 's \<Rightarrow> proto_response option \<times> 's" where
  "look_edge K i so tx s =
     (let (r, s1) = get_edge K tx so i s
      in (case r of
            Out_of_bounds \<Rightarrow> None
          | Decoded d \<Rightarrow> Some (Success (Edge_success i (from_id d) (to_id d) (edge_label d) (edge_properties d)))
          | Rejected \<Rightarrow> Some (Error 6 (''Edge not found: '' @ to_decimal (unat i))), s1))"

definition handle_node_get :: "'s kvs \<Rightarrow> u64 \<Rightarrow> 's world \<Rightarrow> verdict \<times> 's world" where
  "handle_node_get K i w = read_element K ''Failed to begin transaction for node get'' (look_node K i) w"

definition handle_edge_get :: "'s kvs \<Rightarrow> u64 \<Rightarrow> 's world \<Rightarrow> verdict \<times> 's world" where
  "handle_edge_get K i w = read_element K ''Failed to begin transaction for edge get'' (look_edge K i) w"

section \<open>Requests\<close>

definition handle_request :: "'s kvs \<Rightarrow> platform \<Rightarrow> proto_request \<Rightarrow> 's world \<Rightarrow> verdict \<times> 's world" where
  "handle_request K pf req w =
     (case req of
        Cypher cy \<Rightarrow> handle_cypher K pf cy w
      | Node_get i \<Rightarrow> handle_node_get K i w
      | Edge_get i \<Rightarrow> handle_edge_get K i w
      | No_command \<Rightarrow> (Answer Not_set, w))"

datatype reply = No_reply | Reply nat bytes | Broken_reply

text \<open>The call operator: \<open>decode\<close> and \<open>encode\<close> are the generated protobuf code.\<close>

definition service_call ::
  "'s kvs \<Rightarrow> platform \<Rightarrow> (bytes \<Rightarrow> proto_request option) \<Rightarrow> (proto_response \<Rightarrow> bytes) \<Rightarrow> nat \<Rightarrow> bytes
     \<Rightarrow> 's world \<Rightarrow> reply \<times> 's world" where
  "service_call K pf decode encode session payload w =
     (case decode payload of
        None \<Rightarrow> (No_reply, w)
      | Some req \<Rightarrow>
          let (v, w1) = handle_request K pf req w
          in (case v of Answer res \<Rightarrow> Reply session (encode res) | _ \<Rightarrow> Broken_reply, w1))"

end
