(* ===== verification/Store_Frame.thy ===== *)
theory Store_Frame
  imports Query_Run
begin

text \<open>
  What the operations of the storage and the clauses of the executor do not do.  A clause touches
  the store only through the calls of the interface, so whatever every read of the interface
  keeps is kept by MATCH, WHERE and RETURN, and whatever every call keeps is kept by a whole
  statement.  The two locales say that once for any predicate of the store's state; the laws of
  the store (nothing but writes changes the contents) and the log of the transaction calls are
  the instances.
\<close>

named_theorems keeps

text \<open>A loop of the executor keeps what its steps keep.\<close>

lemma run_all_keeps:
  assumes "run_all f xs a = (st, a')" "Q a" and step: "\<forall>z b st' b'. Q b \<longrightarrow> f z b = (st', b') \<longrightarrow> Q b'"
  shows "Q a'"
  using assms(1,2)
proof (induction xs arbitrary: a)
  case (Cons z xs)
  obtain st1 a1 where z: "f z a = (st1, a1)" by (cases "f z a")
  then have "Q a1" using step Cons.prems(2) by blast
  then show ?case using Cons z by (auto split: if_splits)
qed simp

lemma fold_keeps: "Q s \<Longrightarrow> (\<forall>z t. Q t \<longrightarrow> Q (f z t)) \<Longrightarrow> Q (fold f xs s)"
  by (induction xs arbitrary: s) auto

text \<open>So does the loop over the clauses, UNWIND included, if every clause of the statement does.\<close>

locale clause_frame =
  fixes K :: "'s kvs" and ords :: hash_orders and hw :: nat and tx :: tx_handle
    and cs :: statement and Q :: "'s exec \<Rightarrow> bool"
  assumes clause_keeps: "c \<in> set cs \<Longrightarrow> execute_clause K ords hw tx c x = (st, x') \<Longrightarrow> Q x \<Longrightarrow> Q x'"
    and fused_keeps: "try_indexed_match_where K tx ps w x = (ok, x') \<Longrightarrow> Q x \<Longrightarrow> Q x'"
    and tables_free: "Q x \<Longrightarrow> Q (x\<lparr>ctx := c', ctx_labels := l', unwind_ctx := u'\<rparr>)"
begin

lemma unwind_free: "Q x \<Longrightarrow> Q (x\<lparr>unwind_ctx := u\<rparr>)" and ctx_free: "Q x \<Longrightarrow> Q (x\<lparr>ctx := c, ctx_labels := l\<rparr>)"
  using tables_free[where x = x and c' = "ctx x" and l' = "ctx_labels x" and u' = u]
    tables_free[where x = x and c' = c and l' = l and u' = "unwind_ctx x"] by simp_all

lemma unwind_keeps:
  assumes "execute_unwind K ords hw tx l a ds x = (b, st, x')" "Q x" "set ds \<subseteq> set cs"
  shows "Q x'"
proof (cases "\<exists>e es. l = List_literal (e # es)")
  case True
  then obtain e es where l: "l = List_literal (e # es)" by blast
  have clauses: "Q y'" if "run_all (execute_clause K ords hw tx) fs y = (st', y')" "Q y" "set fs \<subseteq> set cs" for fs y st' y'
    using that
  proof (induction fs arbitrary: y)
    case (Cons f fs)
    then show ?case using clause_keeps[of f y] by (auto split: prod.splits if_splits)
  qed simp
  have element: "Q y'" if "unwind_element K ords hw tx a ds e y = (st', y')" "Q y" for e y st' y'
    using that clauses[of ds] assms(3)
    by (auto simp: unwind_element_def split: prod.splits if_splits intro!: ctx_free unwind_free)
  obtain st1 x1 where r: "run_all (unwind_element K ords hw tx a ds) (e # es) x = (st1, x1)"
    by (cases "run_all (unwind_element K ords hw tx a ds) (e # es) x")
  have "Q x1" by (rule run_all_keeps[where Q = Q, OF r assms(2)]) (use element in blast)
  then show ?thesis using assms(1) r
    by (auto simp: execute_unwind_def l simp del: run_all.simps split: if_splits intro: unwind_free)
qed (use assms in \<open>auto simp: execute_unwind_def split: expression.splits list.splits\<close>)

lemma clauses_keep: "execute_clauses K ords hw tx ds x = (st, x') \<Longrightarrow> set ds \<subseteq> set cs \<Longrightarrow> Q x \<Longrightarrow> Q x'"
proof (induction "length ds" arbitrary: ds x rule: less_induct)
  case less
  have IH: "execute_clauses K ords hw tx es y = (st, x') \<Longrightarrow> set es \<subseteq> set cs \<Longrightarrow> Q y \<Longrightarrow> Q x'" if "length es < length ds" for es y
    using less.hyps[OF that] .
  show ?case
  proof (cases ds)
    case (Cons c es)
    have less': "length es < length ds" and sub: "set es \<subseteq> set cs" "c \<in> set cs" using Cons less.prems(2) by auto
    consider (unwind) e a where "c = Unwind_clause e a"
      | (fused) ps w fs where "c = Match_clause ps" "es = Where_clause w # fs"
      | (plain) "execute_clauses K ords hw tx (c # es) x =
          (let (st, x1) = execute_clause K ords hw tx c x in if st \<noteq> Done then (st, x1) else execute_clauses K ords hw tx es x1)"
      by (cases c; cases es; cases "hd es") auto
    then show ?thesis
    proof cases
      case unwind
      obtain b st1 x1 where u: "execute_unwind K ords hw tx e a es x = (b, st1, x1)" by (cases "execute_unwind K ords hw tx e a es x") auto
      have "Q x1" by (rule unwind_keeps[OF u less.prems(3) sub(1)])
      then show ?thesis using less.prems(1) u IH[OF less'] sub by (auto simp: Cons unwind split: if_splits)
    next
      case fused
      obtain b x1 where t: "try_indexed_match_where K tx ps w x = (b, x1)" by (cases "try_indexed_match_where K tx ps w x")
      obtain st2 x2 where m: "execute_match K tx ps x1 = (st2, x2)" by (cases "execute_match K tx ps x1")
      have q: "Q x1" using t less.prems(3) by (rule fused_keeps)
      then have "Q x2" using clause_keeps[OF sub(2), of x1 st2 x2] m fused by simp
      then show ?thesis using less.prems(1) t m q IH[of fs x1] IH[of es x2] sub by (auto simp: Cons fused split: if_splits)
    next
      case plain
      then show ?thesis using less.prems IH[OF less'] clause_keeps[OF sub(2)] sub by (auto simp: Cons split: prod.splits if_splits)
    qed
  qed (use less.prems in simp)
qed

end

section \<open>Reads\<close>

locale store_reads =
  fixes K :: "'s kvs" and P :: "'s \<Rightarrow> bool"
  assumes get_keeps [keeps]: "content_get K tx h k s = (st, v, s') \<Longrightarrow> P s \<Longrightarrow> P s'"
    and scan_keeps [keeps]: "content_scan K tx h b kb e ke s = (st, it, s') \<Longrightarrow> P s \<Longrightarrow> P s'"
begin

lemma prefix_scan_keeps [keeps]: "prefix_scan K tx h p s = (st, it, s') \<Longrightarrow> P s \<Longrightarrow> P s'"
  unfolding prefix_scan_def by (erule scan_keeps)

lemma get_node_keeps [keeps]: "get_node K tx so i s = (r, s') \<Longrightarrow> P s \<Longrightarrow> P s'"
  by (auto simp: get_node_def split: prod.splits if_splits dest: keeps)

lemma nodes_batch_loop_keeps [keeps]: "nodes_batch_loop K tx so is s = (r, s') \<Longrightarrow> P s \<Longrightarrow> P s'"
  by (induction "is" arbitrary: s r) (auto split: prod.splits dest: keeps)

lemma get_nodes_batch_keeps [keeps]: "get_nodes_batch K tx so is s = (r, s') \<Longrightarrow> P s \<Longrightarrow> P s'"
  by (auto simp: get_nodes_batch_def split: prod.splits if_splits dest: keeps)

lemma get_edge_keeps [keeps]: "get_edge K tx so e s = (r, s') \<Longrightarrow> P s \<Longrightarrow> P s'"
  by (auto simp: get_edge_def split: prod.splits if_splits dest: keeps)

lemma get_outgoing_keeps [keeps]: "get_outgoing_edges K tx so i s = (r, s') \<Longrightarrow> P s \<Longrightarrow> P s'"
  by (auto simp: get_outgoing_edges_def split: prod.splits if_splits dest: keeps)

lemma get_incoming_keeps [keeps]: "get_incoming_edges K tx so i s = (r, s') \<Longrightarrow> P s \<Longrightarrow> P s'"
  by (auto simp: get_incoming_edges_def split: prod.splits if_splits dest: keeps)

lemma find_label_keeps [keeps]: "find_nodes_by_label K tx so l s = (r, s') \<Longrightarrow> P s \<Longrightarrow> P s'"
  by (auto simp: find_nodes_by_label_def split: prod.splits if_splits dest: keeps)

lemma find_iter_keeps [keeps]: "find_nodes_by_label_iter K tx so l s = (li, s') \<Longrightarrow> P s \<Longrightarrow> P s'"
  by (auto simp: find_nodes_by_label_iter_def split: prod.splits dest: keeps)

lemma iter_properties_keeps [keeps]: "iter_get_properties K li s = (r, s') \<Longrightarrow> P s \<Longrightarrow> P s'"
  by (auto simp: iter_get_properties_def split: prod.splits if_splits dest: keeps)

lemma find_property_keeps [keeps]: "find_nodes_by_property K tx so l k v s = (r, s') \<Longrightarrow> P s \<Longrightarrow> P s'"
  by (auto simp: find_nodes_by_property_def split: prod.splits if_splits dest: keeps)

lemma find_range_keeps [keeps]: "find_nodes_by_property_range K tx so l k op v s = (r, s') \<Longrightarrow> P s \<Longrightarrow> P s'"
  by (auto simp: find_nodes_by_property_range_def Let_def split: prod.splits if_splits stod_result.splits dest: keeps)

text \<open>MATCH\<close>

lemma index_loop_keeps [keeps]: "index_loop K tx so l ps acc s = (ok, r, s') \<Longrightarrow> P s \<Longrightarrow> P s'"
proof (induction ps arbitrary: acc s)
  case (Cons p ps)
  obtain key e where "p = (key, e)" by (cases p)
  then show ?case using Cons
    by (auto split: expression.splits prod.splits option.splits dest: keeps)
qed simp

lemma filter_stream_keeps [keeps]: "filter_stream K ps li s = (r, s') \<Longrightarrow> P s \<Longrightarrow> P s'"
proof (induction "length (the (iter_it li))" arbitrary: li s r s' rule: less_induct)
  case less
  obtain ok li1 where n: "label_next li = (ok, li1)" by (cases "label_next li")
  show ?case
  proof (cases ok)
    case True
    obtain p s1 where p: "iter_get_properties K li1 s = (p, s1)" by (cases "iter_get_properties K li1 s")
    obtain ids s2 where f: "filter_stream K ps li1 s1 = (ids, s2)" by (cases "filter_stream K ps li1 s1")
    have "P s1" using p less.prems(2) by (rule keeps)
    with less.hyps[OF _ f] n True have "P s2" by (simp add: label_next_shorter)
    moreover have "s' = s2" using less.prems(1) n p f True by (subst (asm) filter_stream.simps) (auto split: option.splits)
    ultimately show ?thesis by simp
  qed (use less.prems n in \<open>subst (asm) filter_stream.simps, auto\<close>)
qed

lemma match_first_keeps: "P (kv x) \<Longrightarrow> P (kv (match_first K tx n x)) \<and> store_obj (match_first K tx n x) = store_obj x"
  by (auto simp: match_first_def Let_def split: prod.splits option.splits bool.splits dest: keeps)

lemma hop_edges_keeps [keeps]:
  "hop_edges K tx r v ls es a = (st, a') \<Longrightarrow> P (kv (snd a)) \<Longrightarrow> P (kv (snd a')) \<and> store_obj (snd a') = store_obj (snd a)"
proof (induction es arbitrary: a)
  case Nil
  then show ?case by (cases a) auto
next
  case (Cons e es)
  obtain ids x where a: "a = (ids, x)" by (cases a)
  obtain ed s1 where g: "get_edge K tx (store_obj x) e (kv x) = (ed, s1)" by (cases "get_edge K tx (store_obj x) e (kv x)")
  have s1: "P s1" using g Cons.prems(2) a by (auto dest: keeps)
  show ?case
  proof (cases ed)
    case (Decoded d)
    then show ?thesis using Cons.prems(1) s1 Cons.IH unfolding a hop_edges.simps g by (auto simp: Let_def split: if_splits option.splits)
  next
    case Rejected
    then show ?thesis using Cons.prems(1) s1 Cons.IH[of "(ids, x\<lparr>kv := s1\<rparr>)"] unfolding a hop_edges.simps g by auto
  next
    case Out_of_bounds
    then show ?thesis using Cons.prems(1) s1 unfolding a hop_edges.simps g by auto
  qed
qed

lemma hop_source_keeps [keeps]:
  "hop_source K tx r v ls i a = (st, a') \<Longrightarrow> P (kv (snd a)) \<Longrightarrow> P (kv (snd a')) \<and> store_obj (snd a') = store_obj (snd a)"
  by (auto simp: hop_source_def Let_def split: prod.splits if_splits dest!: hop_edges_keeps dest: keeps)

lemma cache_label_keeps [keeps]:
  "cache_label K tx l c x = (c', x') \<Longrightarrow> P (kv x) \<Longrightarrow> P (kv x') \<and> store_obj x' = store_obj x"
  by (auto simp: cache_label_def split: prod.splits if_splits dest: keeps)

lemma hop_sources_keep:
  assumes "run_all (hop_source K tx r v ls) is a = (st, a')" "P (kv (snd a))"
  shows "P (kv (snd a')) \<and> store_obj (snd a') = store_obj (snd a)"
  using run_all_keeps[where Q = "\<lambda>b. P (kv (snd b)) \<and> store_obj (snd b) = store_obj (snd a)", OF assms(1)] assms(2)
    hop_source_keeps by (metis (no_types, lifting))

lemma run_all_store_keeps:
  assumes "run_all f xs x = (st, x')" "P (kv x)"
    and "\<forall>z y st' y'. f z y = (st', y') \<longrightarrow> P (kv y) \<longrightarrow> P (kv y') \<and> store_obj y' = store_obj y"
  shows "P (kv x') \<and> store_obj x' = store_obj x"
  by (rule run_all_keeps[where Q = "\<lambda>y. P (kv y) \<and> store_obj y = store_obj x", OF assms(1)]) (use assms(2,3) in auto)

lemma match_hops_keeps [keeps]:
  "match_hops K tx p c x = (st, x') \<Longrightarrow> P (kv x) \<Longrightarrow> P (kv x') \<and> store_obj x' = store_obj x"
proof (induction p arbitrary: c x)
  case (Cons el p)
  show ?case
  proof (cases p)
    case Nil
    then show ?thesis using Cons.prems by simp
  next
    case (Cons nx rest)
    have IH: "match_hops K tx p c y = (st, x') \<Longrightarrow> P (kv y) \<Longrightarrow> P (kv x') \<and> store_obj x' = store_obj y" for c y
      by (rule Cons.IH)
    let ?v = "node_variable (elem_node el)"
    show ?thesis
    proof (cases "\<exists>r sources. elem_rel el = Some r \<and> ?v \<noteq> [] \<and> ctx x ?v = Some sources")
      case False
      then have "match_hops K tx p c x = (st, x')"
        using Cons.prems(1) Cons by (cases "elem_rel el"; cases "?v = []"; cases "ctx x ?v") (auto simp: Let_def)
      then show ?thesis using IH Cons.prems(2) by blast
    next
      case True
      then obtain r sources where r: "elem_rel el = Some r" "?v \<noteq> []" "ctx x ?v = Some sources" by blast
      let ?l = "node_label (elem_node nx)"
      obtain c1 x1 where 1: "cache_label K tx ?l c x = (c1, x1)" by (cases "cache_label K tx ?l c x")
      let ?ls = "if ?l = [] then None else c1 ?l"
      obtain st2 next_ids x2 where 2: "run_all (hop_source K tx r ?v ?ls) sources ([], x1) = (st2, next_ids, x2)"
        by (cases "run_all (hop_source K tx r ?v ?ls) sources ([], x1)") auto
      have k: "P (kv x2)" "store_obj x2 = store_obj x"
        using hop_sources_keep[OF 2] cache_label_keeps[OF 1 Cons.prems(2)] by auto
      show ?thesis
      proof (cases "st2 = Done")
        case False
        then show ?thesis using Cons.prems(1) Cons r 1 2 k by (auto simp: Let_def)
      next
        case True
        then obtain y where "match_hops K tx p c1 y = (st, x')" "kv y = kv x2" "store_obj y = store_obj x2"
          using Cons.prems(1) Cons r 1 2 by (auto simp: Let_def)
        then show ?thesis using IH k by metis
      qed
    qed
  qed
qed simp

lemma match_path_keeps [keeps]:
  "match_path K tx p x = (st, x') \<Longrightarrow> P (kv x) \<Longrightarrow> P (kv x') \<and> store_obj x' = store_obj x"
  using match_first_keeps[of x] by (cases p) (auto dest!: match_hops_keeps)

lemma execute_match_keeps [keeps]:
  "execute_match K tx ps x = (st, x') \<Longrightarrow> P (kv x) \<Longrightarrow> P (kv x') \<and> store_obj x' = store_obj x"
  unfolding execute_match_def by (erule run_all_store_keeps) (auto dest: match_path_keeps)

lemma try_indexed_keeps [keeps]:
  "try_indexed_match_where K tx ps w x = (ok, x') \<Longrightarrow> P (kv x) \<Longrightarrow> P (kv x') \<and> store_obj x' = store_obj x"
  unfolding try_indexed_match_where_def Let_def
  by (auto split: list.splits if_splits option.splits expression.splits prod.splits dest: keeps)

text \<open>WHERE\<close>

lemma scan_batches_keeps [keeps]: "scan_batches K hw tx so ok is s = (r, s') \<Longrightarrow> P s \<Longrightarrow> P s'"
proof (induction "length is" arbitrary: "is" s r s' rule: less_induct)
  case less
  show ?case
  proof (cases "is = []")
    case False
    obtain q s1 where g: "get_nodes_batch K tx so (take batch_size is) s = (q, s1)" by (cases "get_nodes_batch K tx so (take batch_size is) s")
    obtain rest s2 where f: "scan_batches K hw tx so ok (drop batch_size is) s1 = (rest, s2)"
      by (cases "scan_batches K hw tx so ok (drop batch_size is) s1")
    have "P s1" using g less.prems(2) by (rule keeps)
    with less.hyps[OF _ f] False have "P s2" by (simp add: batch_size_def)
    then show ?thesis using less.prems(1) False g f by (subst (asm) scan_batches.simps) (simp add: Let_def)
  qed (use less.prems in \<open>simp add: scan_batches.simps\<close>)
qed

lemma where_index_keeps [keeps]: "where_index K tx so w v l s = (r, s') \<Longrightarrow> P s \<Longrightarrow> P s'"
  by (auto simp: where_index_def split: option.splits if_splits dest: keeps)

lemma execute_where_keeps [keeps]:
  "execute_where K hw tx w x = (st, x') \<Longrightarrow> P (kv x) \<Longrightarrow> P (kv x') \<and> store_obj x' = store_obj x"
  by (auto simp: execute_where_def split: option.splits if_splits prod.splits dest: keeps)

text \<open>RETURN\<close>

lemma load_batch_keeps [keeps]: "load_batch K tx so c i j vs s = (r, s') \<Longrightarrow> P s \<Longrightarrow> P s'"
  by (induction vs arbitrary: s r) (auto simp: Let_def split: prod.splits if_splits dest: keeps)

lemma item_json_keeps [keeps]:
  "item_json K tx c row it x = (st, t, x') \<Longrightarrow> P (kv x) \<Longrightarrow> P (kv x') \<and> store_obj x' = store_obj x"
  unfolding item_json_def Let_def
  by (auto split: expression.splits option.splits if_splits list.splits prod.splits decoded.splits dest: keeps)

lemma items_json_keeps [keeps]:
  "items_json K tx c row its x = (st, t, x') \<Longrightarrow> P (kv x) \<Longrightarrow> P (kv x') \<and> store_obj x' = store_obj x"
proof (induction its arbitrary: x t)
  case (Cons it its)
  obtain st1 t1 x1 where 1: "item_json K tx c row it x = (st1, t1, x1)" by (cases "item_json K tx c row it x") auto
  with Cons show ?case using item_json_keeps[OF 1] by (auto split: if_splits prod.splits)
qed simp

lemma row_json_keeps [keeps]:
  "row_json K tx c its row x = (st, x') \<Longrightarrow> P (kv x) \<Longrightarrow> P (kv x') \<and> store_obj x' = store_obj x"
  by (auto simp: row_json_def Let_def split: prod.splits dest!: items_json_keeps)

lemma return_batch_keeps [keeps]:
  assumes "return_batch K tx its rows start x = (st, x')" "P (kv x)"
  shows "P (kv x') \<and> store_obj x' = store_obj x"
proof -
  obtain c s1 where 1: "load_batch K tx (store_obj x) (ctx x) start (min (start + batch_size) rows) (needed_vars its) (kv x) = (c, s1)"
    by (cases "load_batch K tx (store_obj x) (ctx x) start (min (start + batch_size) rows) (needed_vars its) (kv x)")
  then have r: "run_all (row_json K tx c its) [start..<min (start + batch_size) rows] (x\<lparr>kv := s1\<rparr>) = (st, x')"
    using assms(1) by (simp add: return_batch_def)
  have "P s1" using 1 assms(2) by (rule keeps)
  then have "P (kv (x\<lparr>kv := s1\<rparr>))" by simp
  from run_all_store_keeps[OF r this] row_json_keeps show ?thesis by simp
qed

lemma execute_return_keeps [keeps]:
  assumes "execute_return K tx its x = (st, x')" "P (kv x)"
  shows "P (kv x') \<and> store_obj x' = store_obj x"
proof -
  obtain y where "run_all (return_batch K tx its (max_rows (ctx x) its))
      (map (\<lambda>b. b * batch_size) [0..<(max_rows (ctx x) its + batch_size - 1) div batch_size]) (x\<lparr>result_json := ''[''\<rparr>) = (st, y)"
    and x': "x' = y\<lparr>result_json := result_json y @ '']''\<rparr>"
    using assms(1) by (auto simp: execute_return_def Let_def split: prod.splits)
  from run_all_store_keeps[OF this(1)] assms(2) return_batch_keeps
  have "P (kv y) \<and> store_obj y = store_obj x" by simp
  then show ?thesis using x' by simp
qed

end

section \<open>Writes\<close>

locale store_writes = store_reads +
  assumes put_keeps [keeps]: "content_put K tx h k v op s = (st, s') \<Longrightarrow> P s \<Longrightarrow> P s'"
    and sequence_put_keeps [keeps]: "sequence_put K tx i ver val s = (st, s') \<Longrightarrow> P s \<Longrightarrow> P s'"
begin

lemma fold_store_keeps: "P s \<Longrightarrow> (\<And>z t. P t \<Longrightarrow> P (f z t)) \<Longrightarrow> P (fold f xs s)"
  by (rule fold_keeps) auto

lemma put_snd: "P s \<Longrightarrow> P (snd (content_put K tx h k v op s))"
  by (cases "content_put K tx h k v op s") (auto dest: keeps)

lemma add_entry_keeps: "P s \<Longrightarrow> P (add_index_entry K tx h k i s)"
  by (auto simp: add_index_entry_def Let_def split: prod.splits intro!: put_snd dest: keeps)

lemma remove_entry_keeps: "P s \<Longrightarrow> P (remove_index_entry K tx h k i s)"
  by (auto simp: remove_index_entry_def Let_def split: prod.splits intro!: put_snd dest: keeps)

lemma index_node_keeps: "P s \<Longrightarrow> P (snd (index_node_properties K tx so i l p s))"
  by (auto simp: index_node_properties_def intro!: fold_store_keeps add_entry_keeps)

lemma update_index_keeps: "P s \<Longrightarrow> P (update_node_index K ord tx so i l p q s)"
  unfolding update_node_index_def Let_def
  by (intro fold_store_keeps) (auto intro!: add_entry_keeps remove_entry_keeps)

lemma allocate_id_keeps [keeps]: "allocate_id K tx so s = (i, so', s') \<Longrightarrow> P s \<Longrightarrow> P s'"
  by (auto simp: allocate_id_def Let_def split: prod.splits if_splits dest: keeps)

lemma create_node_keeps [keeps]: "create_node K tx so l p s = (r, so', s') \<Longrightarrow> P s \<Longrightarrow> P s'"
  by (auto simp: create_node_def Let_def split: prod.splits if_splits intro!: index_node_keeps dest: keeps)

lemma update_node_keeps: "P s \<Longrightarrow> P (snd (update_node K tx so i p s))"
  by (auto simp: update_node_def split: prod.splits dest: keeps)

lemma update_labelled_keeps:
  assumes "P s"
  shows "P (snd (update_node_with_label K ord tx so i l p s))"
proof (cases "tx = 0 \<or> nodes_handle so = []")
  case False
  obtain old sg where g: "get_node K tx so i s = (old, sg)" by (cases "get_node K tx so i s")
  then have "P sg" using assms by (rule keeps)
  define s1 where "s1 = (if l = [] then s else case old of
      Some old_props \<Rightarrow> if old_props \<noteq> [] \<and> old_props \<noteq> ''{}'' then update_node_index K ord tx so i l old_props p sg
        else if p \<noteq> [] \<and> p \<noteq> ''{}'' then snd (index_node_properties K tx so i l p sg) else sg
    | None \<Rightarrow> if p \<noteq> [] \<and> p \<noteq> ''{}'' then snd (index_node_properties K tx so i l p sg) else sg)"
  have "P s1"
    using assms \<open>P sg\<close> by (auto simp: s1_def intro: update_index_keeps index_node_keeps split: option.split)
  moreover have "snd (update_node_with_label K ord tx so i l p s) =
      snd (content_put K tx (nodes_handle so) (write_key i) p Create_or_update s1)"
    using False by (simp add: update_node_with_label_def g s1_def Let_def case_prod_beta)
  ultimately show ?thesis by (simp add: put_snd)
qed (use assms in \<open>auto simp: update_node_with_label_def\<close>)

lemma delete_node_keeps: "P s \<Longrightarrow> P (snd (delete_node K tx so i l s))"
  by (auto simp: delete_node_def Let_def split: prod.splits if_splits intro!: put_snd dest: keeps)

lemma create_edge_keeps [keeps]: "create_edge K tx so f t l p s = (r, so', s') \<Longrightarrow> P s \<Longrightarrow> P s'"
  by (auto simp: create_edge_def Let_def split: prod.splits if_splits dest: keeps)

lemma delete_edge_keeps [keeps]: "delete_edge K tx so e s = (r, s') \<Longrightarrow> P s \<Longrightarrow> P s'"
  by (auto simp: delete_edge_def Let_def split: prod.splits if_splits decoded.splits dest: keeps)

text \<open>CREATE\<close>

lemma bound_or_new_keeps [keeps]: "bound_or_new K tx n x = (r, x') \<Longrightarrow> P (kv x) \<Longrightarrow> P (kv x')"
  by (auto simp: bound_or_new_def Let_def split: prod.splits if_splits option.splits list.splits dest: keeps)

lemma create_relationship_keeps [keeps]: "create_relationship K tx r i j x = (st, x') \<Longrightarrow> P (kv x) \<Longrightarrow> P (kv x')"
  by (auto simp: create_relationship_def Let_def split: prod.splits if_splits option.splits dest: keeps)

lemma create_elements_keeps [keeps]: "create_elements K tx p x = (st, x') \<Longrightarrow> P (kv x) \<Longrightarrow> P (kv x')"
proof (induction p arbitrary: x)
  case (Cons el p)
  obtain r1 x1 where 1: "bound_or_new K tx (elem_node el) x = (r1, x1)" by (cases "bound_or_new K tx (elem_node el) x")
  have p1: "P (kv x1)" using 1 Cons.prems(2) by (rule keeps)
  show ?case
  proof (cases "\<exists>i r nx rest. r1 = Some i \<and> elem_rel el = Some r \<and> p = nx # rest")
    case False
    then show ?thesis using Cons 1 p1 by (cases r1; cases "elem_rel el"; cases p) auto
  next
    case True
    then obtain i r nx rest where e: "r1 = Some i" "elem_rel el = Some r" "p = nx # rest" by blast
    obtain r2 x2 where 2: "bound_or_new K tx (elem_node nx) x1 = (r2, x2)" by (cases "bound_or_new K tx (elem_node nx) x1")
    have p2: "P (kv x2)" using 2 p1 by (rule keeps)
    show ?thesis
    proof (cases r2)
      case (Some j)
      obtain st3 x3 where 3: "create_relationship K tx r i j x2 = (st3, x3)" by (cases "create_relationship K tx r i j x2")
      have "P (kv x3)" using 3 p2 by (rule keeps)
      then show ?thesis using Cons.IH[of x3] Cons.prems(1) 1 2 3 e Some by (auto split: if_splits)
    qed (use Cons.prems(1) 1 2 e p2 in simp)
  qed
qed simp

lemma run_all_writes_keep:
  assumes "run_all f xs x = (st, x')" "P (kv x)" "\<forall>z y st' y'. f z y = (st', y') \<longrightarrow> P (kv y) \<longrightarrow> P (kv y')"
  shows "P (kv x')"
  by (rule run_all_keeps[where Q = "\<lambda>y. P (kv y)", OF assms(1)]) (use assms(2,3) in auto)

lemma execute_create_keeps [keeps]: "execute_create K tx ps x = (st, x') \<Longrightarrow> P (kv x) \<Longrightarrow> P (kv x')"
  unfolding execute_create_def by (erule run_all_writes_keep) (auto dest: keeps)

text \<open>DELETE\<close>

lemma delete_edge_step_keeps [keeps]: "delete_edge_step K tx e x = (st, x') \<Longrightarrow> P (kv x) \<Longrightarrow> P (kv x')"
  by (auto simp: delete_edge_step_def split: prod.splits dest: keeps)

lemma delete_edges_keep [keeps]: "run_all (delete_edge_step K tx) es x = (st, x') \<Longrightarrow> P (kv x) \<Longrightarrow> P (kv x')"
  by (erule run_all_writes_keep) (auto dest: keeps)

lemma delete_one_keeps [keeps]:
  assumes "delete_one K tx d i x = (st, x')" "P (kv x)"
  shows "P (kv x')"
proof -
  obtain r s1 where g: "get_node K tx (store_obj x) i (kv x) = (r, s1)" by (cases "get_node K tx (store_obj x) i (kv x)")
  obtain outs s2 where o: "get_outgoing_edges K tx (store_obj x) i s1 = (outs, s2)" by (cases "get_outgoing_edges K tx (store_obj x) i s1")
  obtain ins s3 where n: "get_incoming_edges K tx (store_obj x) i s2 = (ins, s3)" by (cases "get_incoming_edges K tx (store_obj x) i s2")
  have "P s1" "P s3" using assms(2) g o n by (auto dest: keeps)
  then show ?thesis using assms(1) g o n
    by (auto simp: delete_one_def Let_def split: if_splits prod.splits intro!: delete_node_keeps dest: delete_edge_step_keeps delete_edges_keep)
qed

lemma delete_variable_keeps [keeps]: "delete_variable K tx d v x = (st, x') \<Longrightarrow> P (kv x) \<Longrightarrow> P (kv x')"
  by (auto simp: delete_variable_def split: option.splits prod.splits dest!: run_all_writes_keep dest: delete_one_keeps)

lemma execute_delete_keeps [keeps]: "execute_delete K tx vs d x = (st, x') \<Longrightarrow> P (kv x) \<Longrightarrow> P (kv x')"
  unfolding execute_delete_def by (erule run_all_writes_keep) (auto dest: keeps)

text \<open>SET\<close>

lemma set_node_step_keeps [keeps]: "set_node_step K tx l k v b i a = (st, a') \<Longrightarrow> P (kv (snd a)) \<Longrightarrow> P (kv (snd a'))"
  by (auto simp: set_node_step_def Let_def split: prod.splits if_splits option.splits dest: keeps)

lemma set_assignment_keeps [keeps]:
  assumes "set_assignment K tx g a = (st, a')" "P (kv (snd a))"
  shows "P (kv (snd a'))"
proof (cases "ctx (snd a) (asgn_variable g)")
  case None
  then show ?thesis using assms by (auto simp: set_assignment_def case_prod_beta)
next
  case (Some ids)
  then obtain l v b where "run_all (set_node_step K tx l (asgn_property g) v b) ids a = (st, a')"
    using assms(1) by (auto simp: set_assignment_def Let_def split: prod.splits)
  then show ?thesis
    by (rule run_all_keeps[where Q = "\<lambda>y. P (kv (snd y))"]) (use assms(2) set_node_step_keeps in auto)
qed

lemma apply_pending_keeps: "P s \<Longrightarrow> P (apply_pending K ords tx so e s)"
  by (auto simp: apply_pending_def case_prod_beta intro!: update_node_keeps update_labelled_keeps)

lemma execute_set_keeps [keeps]:
  assumes "execute_set K ords tx as x = (st, x')" "P (kv x)"
  shows "P (kv x')"
proof -
  obtain st1 p x1 where r: "run_all (set_assignment K tx) as ([], x) = (st1, p, x1)"
    by (cases "run_all (set_assignment K tx) as ([], x)") auto
  have "P (kv (snd (p, x1)))"
    by (rule run_all_keeps[where Q = "\<lambda>y. P (kv (snd y))", OF r]) (use assms(2) set_assignment_keeps in auto)
  then show ?thesis using assms(1) r by (auto simp: execute_set_def split: if_splits intro!: fold_store_keeps apply_pending_keeps)
qed

text \<open>The statement\<close>

lemma execute_clause_keeps: "execute_clause K ords hw tx c x = (st, x') \<Longrightarrow> P (kv x) \<Longrightarrow> P (kv x')"
  by (cases c) (auto dest: keeps)

end

sublocale store_writes \<subseteq> statement: clause_frame K ords hw tx cs "\<lambda>x. P (kv x)" for ords hw tx cs
  by unfold_locales (auto dest: execute_clause_keeps keeps)

context store_writes
begin

lemma execute_keeps [keeps]: "execute K ords hw tx so st s = (r, t, so', s') \<Longrightarrow> P s \<Longrightarrow> P s'"
  using statement.clauses_keep[of ords hw tx st "new_exec so s" r _ st]
  by (auto simp: execute_def new_exec_def split: prod.splits)

end

section \<open>Opening\<close>

locale store_calls = store_writes +
  assumes storage_create_keeps [keeps]: "storage_create K db n s = (st, h, s') \<Longrightarrow> P s \<Longrightarrow> P s'"
    and storage_get_keeps [keeps]: "storage_get K db n s = (st, h, s') \<Longrightarrow> P s \<Longrightarrow> P s'"
    and sequence_create_keeps [keeps]: "sequence_create K db s = (st, i, s') \<Longrightarrow> P s \<Longrightarrow> P s'"
    and sequence_get_keeps [keeps]: "sequence_get K db i s = (st, ver, val, s') \<Longrightarrow> P s \<Longrightarrow> P s'"
begin

lemma init_storage_keeps [keeps]: "init_storage K db n s = (ok, h, s') \<Longrightarrow> P s \<Longrightarrow> P s'"
  by (auto simp: init_storage_def split: prod.splits if_splits dest: keeps)

lemma init_storages_keeps [keeps]: "init_storages K db ns so s = (ok, so', s') \<Longrightarrow> P s \<Longrightarrow> P s'"
proof (induction ns arbitrary: so s)
  case (Cons n ns)
  then show ?case by (cases n) (auto simp: Let_def split: prod.splits if_splits dest: keeps)
qed simp

lemma init_keeps [keeps]: "init K db so s = (ok, so', s') \<Longrightarrow> P s \<Longrightarrow> P s'"
  unfolding init_def init_sequence_def Let_def
  by (auto split: prod.splits if_splits dest: keeps simp del: init_storages.simps)

end

section \<open>A store with the documented laws\<close>

text \<open>Reads keep the contents, every call keeps the store's own invariant.\<close>

sublocale kvs_basic \<subseteq> reading: store_reads K "\<lambda>s. valid s \<and> content s = c" for c
proof
  fix tx h k s st v s'
  assume "content_get K tx h k s = (st, v, s')" "valid s \<and> content s = c"
  then show "valid s' \<and> content s' = c" using get_law[of s tx h k] by auto
next
  fix tx h b kb e ke s st it s'
  assume "content_scan K tx h b kb e ke s = (st, it, s')" "valid s \<and> content s = c"
  then show "valid s' \<and> content s' = c" using scan_frame[of s tx h b kb e ke] by auto
qed

sublocale kvs_basic \<subseteq> running: store_writes K valid
proof
  fix tx h k s st v s'
  assume "content_get K tx h k s = (st, v, s')" "valid s"
  then show "valid s'" using get_law[of s tx h k] by auto
next
  fix tx h b kb e ke s st it s'
  assume "content_scan K tx h b kb e ke s = (st, it, s')" "valid s"
  then show "valid s'" using scan_frame[of s tx h b kb e ke] by auto
next
  fix tx h k v op s st s'
  assume "content_put K tx h k v op s = (st, s')" "valid s"
  then show "valid s'" using put_frame[of s tx h k v op] by auto
next
  fix tx i ver val s st s'
  assume "sequence_put K tx i ver val s = (st, s')" "valid s"
  then show "valid s'" using sequence_law[of s tx i ver val] by auto
qed

text \<open>The clauses that only read.\<close>

definition reads_only :: "statement \<Rightarrow> bool" where
  "reads_only = list_all (\<lambda>c. case c of Match_clause _ \<Rightarrow> True | Where_clause _ \<Rightarrow> True
     | Return_clause _ \<Rightarrow> True | Unwind_clause _ _ \<Rightarrow> True | _ \<Rightarrow> False)"

context store_reads
begin

lemma reads_frame:
  assumes "reads_only cs"
  shows "clause_frame K ords hw tx cs (\<lambda>x. P (kv x) \<and> store_obj x = so)"
proof
  fix c x st x'
  assume c: "c \<in> set cs" and e: "execute_clause K ords hw tx c x = (st, x')" and q: "P (kv x) \<and> store_obj x = so"
  from c assms have "case c of Match_clause _ \<Rightarrow> True | Where_clause _ \<Rightarrow> True
     | Return_clause _ \<Rightarrow> True | Unwind_clause _ _ \<Rightarrow> True | _ \<Rightarrow> False" by (auto simp: reads_only_def list_all_iff)
  then show "P (kv x') \<and> store_obj x' = so" using e q by (cases c) (auto dest: keeps)
qed (auto dest: keeps)

lemma execute_reads:
  assumes "reads_only st" "execute K ords hw tx so st s = (r, t, so', s')" "P s"
  shows "P s' \<and> so' = so"
  using clause_frame.clauses_keep[OF reads_frame[OF assms(1)], where ords = ords and hw = hw and tx = tx and ds = st and x = "new_exec so s"] assms(2,3)
  by (auto simp: execute_def new_exec_def split: prod.splits)

end

context kvs_basic
begin

lemma reads_change_nothing:
  "reads_only st \<Longrightarrow> execute K ords hw tx so st s = (r, t, so', s') \<Longrightarrow> valid s \<Longrightarrow> valid s' \<and> content s' = content s \<and> so' = so"
  using reading.execute_reads[of st ords hw tx so s r t so' s' "content s"] by simp

end

end
