(* ===== verification/Service_Props.thy ===== *)
theory Service_Props
  imports Service Store_Frame Exec_Props
begin

text \<open>
  What the service promises about transactions, retries, the query cache and error replies.  The
  transaction calls of any store are made visible by a wrapper that logs them; the executor does
  not add to the log, so the log of a request is the history of its guards.
\<close>

section \<open>A store that logs its transaction calls\<close>

datatype tx_event = Begun nat | Committed nat status_code | Aborted nat | Disposed nat

type_synonym 's logged = "'s \<times> tx_event list"

text \<open>Calls with a transaction result and with a single status, with what they log.\<close>

definition logging :: "('s \<Rightarrow> status_code \<times> 'r \<times> 's) \<Rightarrow> (status_code \<Rightarrow> 'r \<Rightarrow> tx_event list) \<Rightarrow> 's logged \<Rightarrow> status_code \<times> 'r \<times> 's logged" where
  "logging f ev t = (let (st, r, s') = f (fst t) in (st, r, (s', snd t @ ev st r)))"

definition logging_status :: "('s \<Rightarrow> status_code \<times> 's) \<Rightarrow> (status_code \<Rightarrow> tx_event list) \<Rightarrow> 's logged \<Rightarrow> status_code \<times> 's logged" where
  "logging_status f ev t = (let (st, s') = f (fst t) in (st, (s', snd t @ ev st)))"

definition silent :: "('s \<Rightarrow> status_code \<times> 'a \<times> 'b \<times> 's) \<Rightarrow> 's logged \<Rightarrow> status_code \<times> 'a \<times> 'b \<times> 's logged" where
  "silent f t = (let (st, a, b, s') = f (fst t) in (st, a, b, (s', snd t)))"

definition traced :: "'s kvs \<Rightarrow> 's logged kvs" where
  "traced K = \<lparr>storage_create = (\<lambda>db n. logging (storage_create K db n) (\<lambda>_ _. [])),
     storage_get = (\<lambda>db n. logging (storage_get K db n) (\<lambda>_ _. [])),
     content_get = (\<lambda>tx h k. logging (content_get K tx h k) (\<lambda>_ _. [])),
     content_put = (\<lambda>tx h k v op. logging_status (content_put K tx h k v op) (\<lambda>_. [])),
     content_scan = (\<lambda>tx h b kb e ke. logging (content_scan K tx h b kb e ke) (\<lambda>_ _. [])),
     sequence_create = (\<lambda>db. logging (sequence_create K db) (\<lambda>_ _. [])),
     sequence_put = (\<lambda>tx i ver val. logging_status (sequence_put K tx i ver val) (\<lambda>_. [])),
     sequence_get = (\<lambda>db i. silent (sequence_get K db i)),
     transaction_begin = (\<lambda>db opt. logging (transaction_begin K db opt) (\<lambda>st c. if st = Ok then [Begun c] else [])),
     transaction_borrow_handle = (\<lambda>c. logging (transaction_borrow_handle K c) (\<lambda>_ _. [])),
     transaction_commit = (\<lambda>c. logging_status (transaction_commit K c) (\<lambda>st. [Committed c st])),
     transaction_abort = (\<lambda>c. logging_status (transaction_abort K c) (\<lambda>_. [Aborted c])),
     transaction_dispose = (\<lambda>c. logging_status (transaction_dispose K c) (\<lambda>_. [Disposed c]))\<rparr>"

lemmas logging_defs = logging_def logging_status_def silent_def

text \<open>The documented contract of \<open>transaction_begin\<close>: a handle exactly when it succeeds.\<close>

locale kvs_transactions =
  fixes K :: "'s kvs"
  assumes begin_law: "transaction_begin K db opt s = (st, c, s') \<Longrightarrow> st = Ok \<longleftrightarrow> c \<noteq> 0"

interpretation mock_tx: kvs_transactions mock_kvs
  by unfold_locales (auto simp: mock_kvs_def)

text \<open>No call on contents, storages or sequences is logged.\<close>

interpretation traced: store_calls "traced K" "\<lambda>t. snd t = log" for K :: "'s kvs" and log
  by unfold_locales (auto simp: traced_def logging_defs split: prod.splits)

section \<open>The guard\<close>

text \<open>What a guard's life looks like in the log.\<close>

definition begin_failed :: "tx_event list \<Rightarrow> bool" where
  "begin_failed ep \<longleftrightarrow> ep = [] \<or> (\<exists>c. ep = [Begun c, Disposed c])"

definition ended_by_commit :: "status_code \<Rightarrow> tx_event list \<Rightarrow> bool" where
  "ended_by_commit rc ep \<longleftrightarrow> (\<exists>c. ep = [Begun c, Committed c rc, Disposed c])"

definition ended_by_abort :: "tx_event list \<Rightarrow> bool" where
  "ended_by_abort ep \<longleftrightarrow> (\<exists>c. ep = [Begun c, Aborted c, Disposed c])"

lemmas episode_defs = begin_failed_def ended_by_commit_def ended_by_abort_def

context kvs_transactions
begin

lemma begin_fails:
  assumes "guard_begin (traced K) db opt new_guard t = (False, g, t1)"
  shows "\<exists>ep. snd (guard_destroy (traced K) g t1) = snd t @ ep \<and> begin_failed ep"
proof -
  obtain rc c s1 where b: "transaction_begin K db opt (fst t) = (rc, c, s1)" by (cases "transaction_begin K db opt (fst t)")
  show ?thesis
  proof (cases "rc = Ok")
    case False
    then have "c = 0" using begin_law[OF b] by simp
    then show ?thesis using assms b False
      by (auto simp: guard_begin_def guard_destroy_def traced_def logging_defs new_guard_def begin_failed_def)
  next
    case True
    then show ?thesis using assms b
      by (auto simp: guard_begin_def guard_destroy_def traced_def logging_defs new_guard_def begin_failed_def Let_def
          split: prod.splits if_splits)
  qed
qed

lemma begins:
  assumes "guard_begin (traced K) db opt new_guard t = (True, g, t1)"
  shows "\<exists>c. c \<noteq> 0 \<and> guard_ctl g = c \<and> guard_active g \<and> snd t1 = snd t @ [Begun c]"
  using assms begin_law
  by (auto simp: guard_begin_def traced_def logging_defs new_guard_def Let_def split: prod.splits if_splits)

end

text \<open>An active guard that commits or aborts and is destroyed.\<close>

lemma guard_commit_log:
  assumes "guard_commit (traced K) g t = (rc, g1, t1)" "guard_active g" "guard_ctl g = c" "c \<noteq> 0"
  shows "snd (guard_destroy (traced K) g1 t1) = snd t @ [Committed c rc, Disposed c]"
  using assms by (auto simp: guard_commit_def guard_destroy_def traced_def logging_defs Let_def split: prod.splits)

lemma guard_abort_log:
  assumes "guard_abort (traced K) g t = (g1, t1)" "guard_active g" "guard_ctl g = c" "c \<noteq> 0"
  shows "snd (guard_destroy (traced K) g1 t1) = snd t @ [Aborted c, Disposed c]"
  using assms by (auto simp: guard_abort_def guard_destroy_def traced_def logging_defs Let_def split: prod.splits)

section \<open>The transactions of a request\<close>

text \<open>A pass that is repeated, and the pass that decides the reply.\<close>

definition repeated_pass :: "tx_event list \<Rightarrow> bool" where
  "repeated_pass ep \<longleftrightarrow> begin_failed ep \<or> (\<exists>rc. is_retryable rc \<and> ended_by_commit rc ep)"

definition deciding_pass :: "proto_response \<Rightarrow> tx_event list \<Rightarrow> bool" where
  "deciding_pass r ep =
     (case r of
        Success (Cypher_success json) \<Rightarrow> ended_by_commit Ok ep
      | Success _ \<Rightarrow> \<exists>rc. ended_by_commit rc ep
      | Not_set \<Rightarrow> ep = []
      | Error n msg \<Rightarrow>
          if n = 2 then \<exists>rc. rc \<noteq> Ok \<and> \<not> is_retryable rc \<and> ended_by_commit rc ep
          else if n = 4 then begin_failed ep
          else if n = 5 \<or> n = 6 then \<exists>rc. ended_by_commit rc ep
          else if n = 101 then ep = []
          else (n = 1 \<or> n = 3) \<and> ended_by_abort ep)"

text \<open>The pass that led to a verdict.\<close>

definition decided :: "verdict \<Rightarrow> tx_event list \<Rightarrow> bool" where
  "decided v ep \<longleftrightarrow> (case v of
     Crash \<Rightarrow> True
   | Retry \<Rightarrow> repeated_pass ep
   | Answer r \<Rightarrow> deciding_pass r ep \<and> (\<forall>msg. r \<noteq> Error 101 msg))"

context kvs_transactions
begin

lemma query_error_pass:
  assumes "query_error (traced K) g n msg w = (v, w')" "guard_active g" "guard_ctl g = c" "c \<noteq> 0"
  shows "v = Answer (Error n msg) \<and> snd (store_state w') = snd (store_state w) @ [Aborted c, Disposed c]"
  using assms guard_abort_log[of K g "store_state w"]
  by (cases "guard_abort (traced K) g (store_state w)") (auto simp: query_error_def)

lemma query_commit_pass:
  assumes "query_commit (traced K) g b json w = (v, w')" "guard_active g" "guard_ctl g = c" "c \<noteq> 0"
  shows "\<exists>rc. snd (store_state w') = snd (store_state w) @ [Committed c rc, Disposed c]
    \<and> v = (if rc = Ok then Answer (Success (Cypher_success json)) else if is_retryable rc then Retry
           else Answer (Error 2 ''Fatal commit error''))"
proof -
  obtain rc g1 t1 where t: "guard_commit (traced K) g (store_state w) = (rc, g1, t1)"
    by (cases "guard_commit (traced K) g (store_state w)") auto
  then show ?thesis using assms(1) guard_commit_log[OF t assms(2-4)]
    by (intro exI[of _ rc]) (auto simp: query_commit_def Let_def split: if_splits)
qed

lemma execute_query_pass:
  assumes "execute_query (traced K) pf cy g b st w = (v, w')" "guard_active g" "guard_ctl g = c" "c \<noteq> 0"
  shows "\<exists>ep. snd (store_state w') = snd (store_state w) @ ep \<and> decided v (Begun c # ep)"
proof (cases "storage_of w")
  case None
  then show ?thesis using assms(1) by (auto simp: execute_query_def decided_def)
next
  case (Some so)
  obtain r json so1 s1 where x: "execute (traced K) (orders pf) (hardware_threads pf) (guard_tx g) so st (store_state w) = (r, json, so1, s1)"
    by (cases "execute (traced K) (orders pf) (hardware_threads pf) (guard_tx g) so st (store_state w)") auto
  define w1 where "w1 = w\<lparr>store_state := s1, the_resource := (the_resource w)\<lparr>graph_storage := Some so1\<rparr>\<rparr>"
  have w1: "snd (store_state w1) = snd (store_state w)"
    using traced.execute_keeps[OF x, of "snd (store_state w)"] by (simp add: w1_def)
  have err: ?thesis if "query_error (traced K) g n msg w1 = (v, w')" "n = 1 \<or> n = 3" for n msg
    using query_error_pass[OF that(1) assms(2-4)] that(2) w1 by (auto simp: decided_def deciding_pass_def episode_defs)
  have run: "execute_query (traced K) pf cy g b st w = (case r of
       Undefined \<Rightarrow> (Crash, w1)
     | Thrown \<Rightarrow> query_error (traced K) g 3 (''Query error: '' @ what_text pf (cypher_query cy)) w1
     | Failed \<Rightarrow> query_error (traced K) g 1 ''Query execution failed'' w1
     | Done \<Rightarrow> query_commit (traced K) g b json w1)"
    by (cases r) (simp_all add: execute_query_def Some x w1_def)
  show ?thesis
  proof (cases r)
    case Done
    then have "query_commit (traced K) g b json w1 = (v, w')" using run assms(1) by simp
    from query_commit_pass[OF this assms(2-4)] w1 show ?thesis
      by (auto simp: decided_def deciding_pass_def repeated_pass_def episode_defs split: if_splits)
  next
    case Undefined
    then show ?thesis using run assms(1) w1 by (auto simp: decided_def)
  qed (use run assms(1) err in auto)
qed

lemma try_query_pass:
  assumes "try_query (traced K) pf cy g b w = (v, w')" "guard_active g" "guard_ctl g = c" "c \<noteq> 0"
  shows "\<exists>ep. snd (store_state w') = snd (store_state w) @ ep \<and> decided v (Begun c # ep)"
proof -
  obtain f q where f: "fetch_statement (what_text pf) (cypher_query cy) (statements (the_service w)) = (f, q)"
    by (cases "fetch_statement (what_text pf) (cypher_query cy) (statements (the_service w))")
  define w1 where "w1 = w\<lparr>the_service := (the_service w)\<lparr>statements := q\<rparr>\<rparr>"
  have w1: "store_state w1 = store_state w" by (simp add: w1_def)
  have run: "try_query (traced K) pf cy g b w = (case f of
       Broken \<Rightarrow> (Crash, w1)
     | Raised msg \<Rightarrow> query_error (traced K) g 3 (''Query error: '' @ msg) w1
     | Fetched st \<Rightarrow> execute_query (traced K) pf cy g b st w1)"
    by (cases f) (simp_all add: try_query_def f w1_def)
  show ?thesis
  proof (cases f)
    case (Raised msg)
    then have "query_error (traced K) g 3 (''Query error: '' @ msg) w1 = (v, w')" using run assms(1) by simp
    from query_error_pass[OF this assms(2-4)] w1 show ?thesis by (auto simp: decided_def deciding_pass_def episode_defs)
  next
    case (Fetched st)
    then show ?thesis using run assms(1) execute_query_pass[of pf cy g b st w1, OF _ assms(2-4)] w1 by simp
  next
    case Broken
    then show ?thesis using run assms(1) w1 by (auto simp: decided_def)
  qed
qed

lemma cypher_pass:
  assumes "cypher_attempt (traced K) pf cy opt b w = (v, w')"
  shows "\<exists>ep. snd (store_state w') = snd (store_state w) @ ep \<and> decided v ep"
proof -
  obtain begun g t1 where b: "guard_begin (traced K) (service_db (the_service w)) opt new_guard (store_state w) = (begun, g, t1)"
    by (cases "guard_begin (traced K) (service_db (the_service w)) opt new_guard (store_state w)")
  show ?thesis
  proof (cases begun)
    case False
    then have "guard_begin (traced K) (service_db (the_service w)) opt new_guard (store_state w) = (False, g, t1)" using b by simp
    from begin_fails[OF this] obtain ep where
      "snd (guard_destroy (traced K) g t1) = snd (store_state w) @ ep" "begin_failed ep" by blast
    then show ?thesis using assms b False by (auto simp: cypher_attempt_def decided_def repeated_pass_def)
  next
    case True
    then have "guard_begin (traced K) (service_db (the_service w)) opt new_guard (store_state w) = (True, g, t1)" using b by simp
    from begins[OF this] obtain c where
      c: "c \<noteq> 0" "guard_ctl g = c" "guard_active g" "snd t1 = snd (store_state w) @ [Begun c]" by blast
    have "try_query (traced K) pf cy g b (w\<lparr>store_state := t1\<rparr>) = (v, w')"
      using assms b True by (simp add: cypher_attempt_def)
    from try_query_pass[OF this c(3,2,1)] c(4) show ?thesis by auto
  qed
qed

lemma cypher_loop_passes:
  assumes "cypher_loop (traced K) pf cy opt a b w = (v, w')" "a \<le> max_retries"
  shows "\<exists>retries ep. snd (store_state w') = snd (store_state w) @ concat retries @ ep
    \<and> list_all repeated_pass retries \<and> a + length retries \<le> max_retries
    \<and> (v = Retry \<longrightarrow> ep = [] \<and> a + length retries = max_retries)
    \<and> (v \<noteq> Retry \<longrightarrow> a + length retries < max_retries \<and> decided v ep)"
  using assms
proof (induction "max_retries - a" arbitrary: a b w)
  case 0
  then have "v = Retry" "w' = w" "a = max_retries" by (simp_all add: cypher_loop.simps)
  then show ?case by (intro exI[of _ "[]"]) simp
next
  case (Suc d)
  then have a: "a < max_retries" by simp
  obtain v1 w1 where p: "cypher_attempt (traced K) pf cy opt b w = (v1, w1)" by (cases "cypher_attempt (traced K) pf cy opt b w")
  from cypher_pass[OF p] obtain ep where ep: "snd (store_state w1) = snd (store_state w) @ ep" "decided v1 ep" by blast
  show ?case
  proof (cases "v1 = Retry")
    case False
    then have "v = v1" "w' = w1" using Suc.prems(1) p a by (simp_all add: cypher_loop.simps[of _ _ _ _ a])
    then show ?thesis using ep a False by (intro exI[of _ "[]"] exI[of _ ep]) simp
  next
    case True
    then have "cypher_loop (traced K) pf cy opt (a + 1) (b * 2) w1 = (v, w')"
      using Suc.prems(1) p a by (simp add: cypher_loop.simps[of _ _ _ _ a])
    moreover have "d = max_retries - (a + 1)" "a + 1 \<le> max_retries" using Suc.hyps(2) a by simp_all
    ultimately obtain retries last where
      "snd (store_state w') = snd (store_state w1) @ concat retries @ last" "list_all repeated_pass retries"
      "a + 1 + length retries \<le> max_retries"
      "v = Retry \<longrightarrow> last = [] \<and> a + 1 + length retries = max_retries"
      "v \<noteq> Retry \<longrightarrow> a + 1 + length retries < max_retries \<and> decided v last"
      using Suc.hyps(1)[of "a + 1" "b * 2" w1] by blast
    then show ?thesis using ep True by (intro exI[of _ "ep # retries"] exI[of _ last]) (auto simp: decided_def split: if_splits)
  qed
qed

text \<open>Reading one element.\<close>

lemma read_element_pass:
  assumes "read_element (traced K) msg look w = (v, w')"
    and "\<forall>so tx t r t'. look so tx t = (r, t') \<longrightarrow> snd t' = snd t
      \<and> (\<forall>reply. r = Some reply \<longrightarrow> (\<forall>rc ep. ended_by_commit rc ep \<longrightarrow> deciding_pass reply ep))"
  shows "\<exists>ep. snd (store_state w') = snd (store_state w) @ ep \<and> (\<forall>r. v = Answer r \<longrightarrow> deciding_pass r ep) \<and> v \<noteq> Retry"
proof -
  let ?opening = "guard_begin (traced K) (service_db (the_service w)) \<lparr>write_preserves = []\<rparr> new_guard (store_state w)"
  obtain begun g t1 where b: "?opening = (begun, g, t1)" by (cases ?opening)
  show ?thesis
  proof (cases begun)
    case False
    then have "?opening = (False, g, t1)" using b by simp
    from begin_fails[OF this] obtain ep where
      "snd (guard_destroy (traced K) g t1) = snd (store_state w) @ ep" "begin_failed ep" by blast
    then show ?thesis using assms(1) b False by (auto simp: read_element_def deciding_pass_def)
  next
    case True
    then have "?opening = (True, g, t1)" using b by simp
    from begins[OF this] obtain c where
      c: "c \<noteq> 0" "guard_ctl g = c" "guard_active g" "snd t1 = snd (store_state w) @ [Begun c]" by blast
    show ?thesis
    proof (cases "storage_of w")
      case None
      then show ?thesis using assms(1) b True c by (auto simp: read_element_def)
    next
      case (Some so)
      obtain r t2 where l: "look so (guard_tx g) t1 = (r, t2)" by (cases "look so (guard_tx g) t1")
      with assms(2) have t2: "snd t2 = snd t1" by blast
      show ?thesis
      proof (cases r)
        case None
        then show ?thesis using assms(1) b True Some l t2 c by (auto simp: read_element_def)
      next
        case (Some reply)
        obtain rc g1 t3 where m: "guard_commit (traced K) g t2 = (rc, g1, t3)" by (cases "guard_commit (traced K) g t2")
        have "v = Answer reply" "store_state w' = guard_destroy (traced K) g1 t3"
          using assms(1) b True \<open>storage_of w = Some so\<close> l Some m by (auto simp: read_element_def)
        moreover have "deciding_pass reply [Begun c, Committed c rc, Disposed c]"
          using assms(2)[rule_format, OF l, THEN conjunct2, rule_format, OF Some] by (auto simp: ended_by_commit_def)
        ultimately show ?thesis using guard_commit_log[OF m c(3,2,1)] t2 c(4) by auto
      qed
    qed
  qed
qed

lemma node_get_pass:
  "handle_node_get (traced K) i w = (v, w') \<Longrightarrow>
    \<exists>ep. snd (store_state w') = snd (store_state w) @ ep \<and> (\<forall>r. v = Answer r \<longrightarrow> deciding_pass r ep) \<and> v \<noteq> Retry"
  unfolding handle_node_get_def
  by (erule read_element_pass)
    (auto simp: look_node_def deciding_pass_def split: prod.splits option.splits dest!: traced.get_node_keeps)

lemma edge_get_pass:
  "handle_edge_get (traced K) i w = (v, w') \<Longrightarrow>
    \<exists>ep. snd (store_state w') = snd (store_state w) @ ep \<and> (\<forall>r. v = Answer r \<longrightarrow> deciding_pass r ep) \<and> v \<noteq> Retry"
  unfolding handle_edge_get_def
  by (erule read_element_pass)
    (auto simp: look_edge_def deciding_pass_def split: prod.splits decoded.splits dest!: traced.get_edge_keeps)

lemma cypher_passes:
  assumes "handle_cypher (traced K) pf cy w = (v, w')"
  shows "\<exists>retries ep. snd (store_state w') = snd (store_state w) @ concat retries @ ep
    \<and> list_all repeated_pass retries \<and> length retries \<le> max_retries \<and> v \<noteq> Retry
    \<and> (\<forall>r. v = Answer r \<longrightarrow> deciding_pass r ep \<and> (length retries = max_retries \<longleftrightarrow> (\<exists>msg. r = Error 101 msg)))"
proof (cases "wants_ltx cy \<and> storage_of w = None")
  case True
  then show ?thesis using assms by (intro exI[of _ "[]"]) (auto simp: handle_cypher_def)
next
  case False
  define opt where "opt = (if wants_ltx cy then make_ltx_options (the (storage_of w)) else \<lparr>write_preserves = []\<rparr>)"
  obtain v1 w1 where l: "cypher_loop (traced K) pf cy opt 0 initial_backoff_ms w = (v1, w1)"
    by (cases "cypher_loop (traced K) pf cy opt 0 initial_backoff_ms w")
  have v: "w' = w1" "v = (if v1 = Retry then Answer (Error 101 ''Transaction failed after max retries'') else v1)"
    using assms False l by (auto simp: handle_cypher_def opt_def)
  from cypher_loop_passes[OF l] obtain retries ep where r:
    "snd (store_state w1) = snd (store_state w) @ concat retries @ ep" "list_all repeated_pass retries"
    "length retries \<le> max_retries"
    "v1 = Retry \<longrightarrow> ep = [] \<and> length retries = max_retries"
    "v1 \<noteq> Retry \<longrightarrow> length retries < max_retries \<and> decided v1 ep" by auto
  then have "v \<noteq> Retry \<and> (\<forall>r. v = Answer r \<longrightarrow> deciding_pass r ep \<and> (length retries = max_retries \<longleftrightarrow> (\<exists>msg. r = Error 101 msg)))"
    unfolding v by (auto simp: decided_def deciding_pass_def split: if_splits)
  then show ?thesis using r(1-3) v(1) by blast
qed

end

text \<open>Waiting times, for any store: ten milliseconds, doubled after every failed pass.\<close>

definition waits :: "nat \<Rightarrow> 's world \<Rightarrow> verdict \<Rightarrow> 's world \<Rightarrow> bool" where
  "waits b w v w' \<longleftrightarrow> slept w' = slept w @ (if v = Retry then [b] else []) \<and> (\<forall>m. v \<noteq> Answer (Error 101 m))"

lemma cypher_attempt_waits:
  assumes "cypher_attempt K pf cy opt b w = (v, w')"
  shows "waits b w v w'"
proof -
  have e: "query_error K g n msg u = (v', u') \<Longrightarrow> n \<noteq> 101 \<Longrightarrow> waits b u v' u'" for g n msg u v' u'
    by (auto simp: query_error_def waits_def split: prod.splits)
  have c: "query_commit K g b json u = (v', u') \<Longrightarrow> waits b u v' u'" for g json u v' u'
    by (auto simp: query_commit_def Let_def waits_def split: prod.splits if_splits)
  have x: "execute_query K pf cy g b st u = (v', u') \<Longrightarrow> waits b u v' u'" for g st u v' u'
    by (auto simp: execute_query_def Let_def waits_def split: option.splits prod.splits status.splits dest!: e[unfolded waits_def] c[unfolded waits_def])
  have t: "try_query K pf cy g b u = (v', u') \<Longrightarrow> waits b u v' u'" for g u v' u'
    by (auto simp: try_query_def Let_def waits_def split: prod.splits fetched.splits dest!: e[unfolded waits_def] x[unfolded waits_def])
  show ?thesis
    using assms by (auto simp: cypher_attempt_def waits_def split: prod.splits if_splits dest!: t[unfolded waits_def])
qed

lemma cypher_loop_waits:
  assumes "cypher_loop K pf cy opt a b w = (v, w')" "a \<le> max_retries"
  shows "\<exists>n. slept w' = slept w @ map (\<lambda>i. b * 2 ^ i) [0..<n] \<and> a + n \<le> max_retries
    \<and> (v = Retry \<longleftrightarrow> a + n = max_retries) \<and> (\<forall>m. v \<noteq> Answer (Error 101 m))"
  using assms
proof (induction "max_retries - a" arbitrary: a b w)
  case 0
  then show ?case by (intro exI[of _ 0]) (simp add: cypher_loop.simps)
next
  case (Suc d)
  then have a: "a < max_retries" by simp
  obtain v1 w1 where p: "cypher_attempt K pf cy opt b w = (v1, w1)" by (cases "cypher_attempt K pf cy opt b w")
  note sl = cypher_attempt_waits[OF p, unfolded waits_def]
  show ?case
  proof (cases "v1 = Retry")
    case False
    then have "v = v1" "w' = w1" using Suc.prems(1) p a by (simp_all add: cypher_loop.simps[of _ _ _ _ a])
    then show ?thesis using sl a False by (intro exI[of _ 0]) simp
  next
    case True
    then have "cypher_loop K pf cy opt (a + 1) (b * 2) w1 = (v, w')"
      using Suc.prems(1) p a by (simp add: cypher_loop.simps[of _ _ _ _ a])
    moreover have "d = max_retries - (a + 1)" "a + 1 \<le> max_retries" using Suc.hyps(2) a by simp_all
    ultimately obtain n where n: "slept w' = slept w1 @ map (\<lambda>i. b * 2 * 2 ^ i) [0..<n]" "a + 1 + n \<le> max_retries"
      "v = Retry \<longleftrightarrow> a + 1 + n = max_retries" "\<forall>m. v \<noteq> Answer (Error 101 m)" using Suc.hyps(1)[of "a + 1" "b * 2" w1] by blast
    have "map (\<lambda>i. b * 2 ^ i) [0..<Suc n] = b * 2 ^ 0 # map (\<lambda>i. b * 2 ^ Suc i) [0..<n]"
      by (simp only: upt_conv_Cons[of 0 "Suc n"] zero_less_Suc list.map map_Suc_upt[symmetric] map_map o_def)
    then show ?thesis using n sl True by (intro exI[of _ "Suc n"]) (simp add: mult.assoc)
  qed
qed

lemma waiting_times:
  assumes "n \<le> max_retries"
  shows "map (\<lambda>i. initial_backoff_ms * 2 ^ i) [0..<n] = take n [10, 20, 40, 80, 160]"
    "sum_list (take n [10, 20, 40, 80, 160 :: nat]) \<le> 310"
proof -
  have "n \<in> {0, 1, 2, 3, 4, 5}" using assms by (auto simp: max_retries_def)
  then show "map (\<lambda>i. initial_backoff_ms * 2 ^ i) [0..<n] = take n [10, 20, 40, 80, 160]"
    "sum_list (take n [10, 20, 40, 80, 160 :: nat]) \<le> 310"
    by (auto simp: initial_backoff_ms_def upt_conv_Cons)
qed

section \<open>A world to try it in\<close>

definition plain_platform :: platform where
  "plain_platform = \<lparr>orders = \<lparr>string_order = id, pending_order = id\<rparr>, hardware_threads = 8, what_text = (\<lambda>_. ''map::at'')\<rparr>"

definition mock_world :: "nat \<Rightarrow> mock_state logged world" where
  "mock_world failures = \<lparr>the_service = \<lparr>graph_resource = True, service_db = 1, statements = new_cache default_cache_size\<rparr>,
     the_resource = \<lparr>graph_storage = Some new_storage, resource_db = 1, initialized = True\<rparr>,
     store_state = (empty_mock\<lparr>mock_commit_failure_count := failures\<rparr>, []), slept = []\<rparr>"

definition plain_query :: "string \<Rightarrow> cypher_request" where
  "plain_query q = \<lparr>cypher_query = q, cypher_parameters = [], cypher_transaction_options = None\<rparr>"

lemma return_n_parsed:
  "parse_query ''RETURN n'' = Inr [Return_clause [\<lparr>item_expr = Variable ''n'', item_alias = []\<rparr>]]"
  by code_simp

lemma return_n_executed:
  "execute K ords hw tx so [Return_clause [\<lparr>item_expr = Variable ''n'', item_alias = []\<rparr>]] s =
     (Done, ''[{'' @ json_quoted ''n'' @ '': null}]'', so, s)"
  by (simp add: execute_def execute_return_def return_batch_def row_json_def item_json_def max_rows_def needed_vars_def
      item_variable_def batch_size_def new_exec_def)

text \<open>Two commits fail and the third succeeds.\<close>

lemma retried_query:
  "\<exists>w'. handle_request (traced mock_kvs) plain_platform (Cypher (plain_query ''RETURN n'')) (mock_world 2)
     = (Answer (Success (Cypher_success (''[{'' @ json_quoted ''n'' @ '': null}]''))), w')"
  by (simp add: handle_request_def handle_cypher_def wants_ltx_def plain_query_def cypher_loop.simps max_retries_def
     cypher_attempt_def try_query_def fetch_statement_def execute_query_def query_commit_def guard_begin_def guard_commit_def
     guard_destroy_def traced_def logging_defs mock_world_def return_n_parsed return_n_executed cache_get_def cache_put_def
     cache_evict_def new_cache_def push_front_def mock_kvs_def mock_transaction_commit_def storage_of_def is_retryable_def
     new_guard_def plain_platform_def default_cache_size_def list_erase_def)

text \<open>The passes of a query, and error 101, are a query's alone.\<close>

lemma read_element_keeps_slept:
  assumes "read_element K msg look w = (v, w')" "\<forall>so tx s m. fst (look so tx s) \<noteq> Some (Error 101 m)"
  shows "slept w' = slept w \<and> (\<forall>m. v \<noteq> Answer (Error 101 m)) \<and> v \<noteq> Retry"
  using assms by (auto simp: read_element_def split: prod.splits if_splits option.splits) (metis fst_conv)

lemma node_get_codes: "handle_node_get K i w = (v, w') \<Longrightarrow> slept w' = slept w \<and> (\<forall>m. v \<noteq> Answer (Error 101 m)) \<and> v \<noteq> Retry"
  unfolding handle_node_get_def
  by (erule read_element_keeps_slept) (auto simp: look_node_def split: prod.splits option.splits)

lemma edge_get_codes: "handle_edge_get K i w = (v, w') \<Longrightarrow> slept w' = slept w \<and> (\<forall>m. v \<noteq> Answer (Error 101 m)) \<and> v \<noteq> Retry"
  unfolding handle_edge_get_def
  by (erule read_element_keeps_slept) (auto simp: look_edge_def split: prod.splits decoded.splits)

section \<open>The cache is not seen\<close>

text \<open>What the service keeps of its cache: every entry is the parse of its key.\<close>

definition cache_ok :: "statement query_cache \<Rightarrow> bool" where
  "cache_ok q \<longleftrightarrow> cache_inv q \<and> (\<forall>(k, st) \<in> set (cache_entries q). parse_query k = Inr st)"

definition with_cache :: "statement query_cache \<Rightarrow> 's world \<Rightarrow> 's world" where
  "with_cache q w = w\<lparr>the_service := (the_service w)\<lparr>statements := q\<rparr>\<rparr>"

definition fetched_text :: "string \<Rightarrow> fetched" where
  "fetched_text raw = (case parse_query raw of Inl msg \<Rightarrow> Raised msg | Inr st \<Rightarrow> Fetched st)"

lemma new_cache_ok: "0 < n \<Longrightarrow> cache_ok (new_cache n)"
  by (simp add: cache_ok_def new_cache_inv)

lemma fetch_from_cache:
  assumes "cache_ok q"
  shows "\<exists>q'. fetch_statement txt raw q = (fetched_text raw, q') \<and> cache_ok q'"
proof -
  have inv: "cache_inv q" and ok: "\<And>k st. (k, st) \<in> set (cache_entries q) \<Longrightarrow> parse_query k = Inr st"
    using assms by (auto simp: cache_ok_def)
  from cache_get_refines[OF inv, of raw] obtain q1 where g: "cache_get raw q = Inr (map_of (cache_entries q) raw, q1)"
    "cache_inv q1" "cache_entries q1 = touch raw (cache_entries q)" by blast
  have q1: "cache_ok q1"
    using g(2) ok by (auto simp: cache_ok_def g(3) touch_def split: option.splits dest: map_of_SomeD)
  show ?thesis
  proof (cases "map_of (cache_entries q) raw")
    case (Some st)
    then have "parse_query raw = Inr st" using ok by (auto dest: map_of_SomeD)
    then show ?thesis using g(1) Some q1 by (simp add: fetch_statement_def fetched_text_def)
  next
    case None
    show ?thesis
    proof (cases "parse_query raw")
      case (Inl msg)
      then show ?thesis using g(1) None q1 by (simp add: fetch_statement_def fetched_text_def)
    next
      case (Inr st)
      from cache_put_refines[OF g(2), of raw st] obtain q2 where p: "cache_put raw st q1 = Inr q2" "cache_inv q2"
        "cache_entries q2 = store (max_size q1) raw st (cache_entries q1)" by blast
      have "cache_ok q2"
        using p(2) q1 Inr by (auto simp: cache_ok_def p(3) store_def split: if_splits dest: in_set_butlastD)
      then show ?thesis using g(1) None Inr p(1) by (simp add: fetch_statement_def fetched_text_def)
    qed
  qed
qed

text \<open>A step that gives the same verdict and the same world but for the cache, whatever cache it starts with.\<close>

definition cache_blind :: "('s world \<Rightarrow> 'r \<times> 's world) \<Rightarrow> 's world \<Rightarrow> bool" where
  "cache_blind f w \<longleftrightarrow> (\<exists>v u. \<forall>q. cache_ok q \<longrightarrow> (\<exists>q'. cache_ok q' \<and> f (with_cache q w) = (v, with_cache q' u)))"

lemma cache_blindI:
  "(\<And>q. cache_ok q \<Longrightarrow> \<exists>q'. cache_ok q' \<and> f (with_cache q w) = (v, with_cache q' u)) \<Longrightarrow> cache_blind f w"
  unfolding cache_blind_def by blast

lemma with_cache_simps [simp]:
  "store_state (with_cache q w) = store_state w" "the_resource (with_cache q w) = the_resource w"
  "slept (with_cache q w) = slept w" "service_db (the_service (with_cache q w)) = service_db (the_service w)"
  "storage_of (with_cache q w) = storage_of w" "statements (the_service (with_cache q w)) = q"
  "(with_cache q w)\<lparr>store_state := s\<rparr> = with_cache q (w\<lparr>store_state := s\<rparr>)"
  "(with_cache q w)\<lparr>the_resource := r\<rparr> = with_cache q (w\<lparr>the_resource := r\<rparr>)"
  "(with_cache q w)\<lparr>slept := l\<rparr> = with_cache q (w\<lparr>slept := l\<rparr>)"
  "(with_cache q w)\<lparr>the_service := (the_service (with_cache q w))\<lparr>statements := q'\<rparr>\<rparr> = with_cache q' w"
  "with_cache q (with_cache q' w) = with_cache q w"
  by (simp_all add: with_cache_def storage_of_def)

text \<open>Steps that do not look at the cache.\<close>

definition cache_free :: "('s world \<Rightarrow> 'r \<times> 's world) \<Rightarrow> 's world \<Rightarrow> bool" where
  "cache_free f w \<longleftrightarrow> (\<forall>q. f (with_cache q w) = (fst (f w), with_cache q (snd (f w))))"

lemma cache_freeD: "cache_free f w \<Longrightarrow> f (with_cache q w) = (fst (f w), with_cache q (snd (f w)))"
  by (simp add: cache_free_def)

lemma query_error_free: "cache_free (query_error K g n msg) w"
  by (simp add: cache_free_def query_error_def case_prod_beta)

lemma query_commit_free: "cache_free (query_commit K g b json) w"
  by (simp add: cache_free_def query_commit_def case_prod_beta Let_def)

lemma execute_query_free: "cache_free (execute_query K pf cy g b st) w"
  by (simp add: cache_free_def execute_query_def case_prod_beta Let_def query_error_free[THEN cache_freeD]
      query_commit_free[THEN cache_freeD] split: option.split status.split)

lemma read_element_free: "cache_free (read_element K msg look) w"
  by (simp add: cache_free_def read_element_def case_prod_beta Let_def split: option.split)

lemma cache_free_blind: "cache_free f w \<Longrightarrow> cache_blind f w"
  by (rule cache_blindI) (auto dest: cache_freeD)

lemma try_query_blind: "cache_blind (try_query K pf cy g b) w"
proof (rule cache_blindI)
  fix q :: "statement query_cache"
  assume "cache_ok q"
  let ?f = "\<lambda>u. case fetched_text (cypher_query cy) of Broken \<Rightarrow> (Crash, u)
     | Raised msg \<Rightarrow> query_error K g 3 (''Query error: '' @ msg) u | Fetched st \<Rightarrow> execute_query K pf cy g b st u"
  from fetch_from_cache[OF \<open>cache_ok q\<close>] obtain q' where
    q': "fetch_statement (what_text pf) (cypher_query cy) q = (fetched_text (cypher_query cy), q')" "cache_ok q'" by blast
  have free: "cache_free ?f w"
    by (cases "fetched_text (cypher_query cy)") (simp_all add: execute_query_free query_error_free, simp add: cache_free_def)
  have "try_query K pf cy g b (with_cache q w) = ?f (with_cache q' w)"
    using q'(1) by (simp add: try_query_def Let_def)
  also have "?f (with_cache q' w) = (fst (?f w), with_cache q' (snd (?f w)))" by (rule cache_freeD[OF free])
  finally have "try_query K pf cy g b (with_cache q w) = (fst (?f w), with_cache q' (snd (?f w)))" .
  then show "\<exists>q'. cache_ok q' \<and> try_query K pf cy g b (with_cache q w) = (fst (?f w), with_cache q' (snd (?f w)))"
    using q'(2) by blast
qed

lemma cypher_attempt_blind: "cache_blind (cypher_attempt K pf cy opt b) w"
proof -
  obtain begun g s1 where b: "guard_begin K (service_db (the_service w)) opt new_guard (store_state w) = (begun, g, s1)"
    by (cases "guard_begin K (service_db (the_service w)) opt new_guard (store_state w)")
  show ?thesis
  proof (cases begun)
    case True
    then show ?thesis using try_query_blind[of K pf cy g b "w\<lparr>store_state := s1\<rparr>"] b
      by (simp add: cache_blind_def cypher_attempt_def)
  next
    case False
    then show ?thesis using b by (intro cache_blindI) (auto simp: cypher_attempt_def)
  qed
qed

lemma cypher_loop_blind: "cache_blind (cypher_loop K pf cy opt a b) w"
proof (induction "max_retries - a" arbitrary: a b w)
  case 0
  then show ?case by (intro cache_blindI) (auto simp: cypher_loop.simps)
next
  case (Suc d a b w)
  then have a: "a < max_retries" "d = max_retries - (a + 1)" by simp_all
  from cypher_attempt_blind[of K pf cy opt b w] obtain v u where
    p: "\<And>q. cache_ok q \<Longrightarrow> \<exists>q'. cache_ok q' \<and> cypher_attempt K pf cy opt b (with_cache q w) = (v, with_cache q' u)"
    unfolding cache_blind_def by blast
  from Suc.hyps(1)[OF a(2), of "b * 2" u] obtain v2 u2 where
    l: "\<And>q. cache_ok q \<Longrightarrow> \<exists>q'. cache_ok q' \<and> cypher_loop K pf cy opt (a + 1) (b * 2) (with_cache q u) = (v2, with_cache q' u2)"
    unfolding cache_blind_def by blast
  show ?case
  proof (rule cache_blindI)
    fix q :: "statement query_cache"
    assume "cache_ok q"
    from p[OF this] obtain q1 where 1: "cache_ok q1" "cypher_attempt K pf cy opt b (with_cache q w) = (v, with_cache q1 u)" by blast
    from l[OF 1(1)] obtain q2 where 2: "cache_ok q2" "cypher_loop K pf cy opt (a + 1) (b * 2) (with_cache q1 u) = (v2, with_cache q2 u2)" by blast
    show "\<exists>q'. cache_ok q' \<and> cypher_loop K pf cy opt a b (with_cache q w) =
        (if v = Retry then v2 else v, with_cache q' (if v = Retry then u2 else u))"
      using 1 2 a(1) by (subst cypher_loop.simps) auto
  qed
qed

lemma handle_request_blind: "cache_blind (handle_request K pf req) w"
proof (cases req)
  case (Cypher cy)
  show ?thesis
  proof (cases "wants_ltx cy \<and> storage_of w = None")
    case True
    then show ?thesis by (intro cache_blindI) (auto simp: Cypher handle_request_def handle_cypher_def)
  next
    case False
    define opt where "opt = (if wants_ltx cy then make_ltx_options (the (storage_of w)) else \<lparr>write_preserves = []\<rparr>)"
    from cypher_loop_blind[of K pf cy opt 0 initial_backoff_ms w] obtain v u where
      l: "\<And>q. cache_ok q \<Longrightarrow> \<exists>q'. cache_ok q' \<and> cypher_loop K pf cy opt 0 initial_backoff_ms (with_cache q w) = (v, with_cache q' u)"
      unfolding cache_blind_def by blast
    show ?thesis
    proof (rule cache_blindI)
      fix q :: "statement query_cache"
      assume "cache_ok q"
      from l[OF this] obtain q1 where "cache_ok q1" "cypher_loop K pf cy opt 0 initial_backoff_ms (with_cache q w) = (v, with_cache q1 u)" by blast
      then show "\<exists>q'. cache_ok q' \<and> handle_request K pf req (with_cache q w) =
          (if v = Retry then Answer (Error 101 ''Transaction failed after max retries'') else v, with_cache q' u)"
        using False by (auto simp: Cypher handle_request_def handle_cypher_def opt_def)
    qed
  qed
next
  case (Node_get i)
  then show ?thesis
    using cache_free_blind[OF read_element_free[of K _ "look_node K i" w]] by (simp add: cache_blind_def handle_request_def handle_node_get_def)
next
  case (Edge_get i)
  then show ?thesis
    using cache_free_blind[OF read_element_free[of K _ "look_edge K i" w]] by (simp add: cache_blind_def handle_request_def handle_edge_get_def)
next
  case No_command
  then show ?thesis by (intro cache_blindI) (auto simp: handle_request_def)
qed

text \<open>Requests one after the other; undefined behaviour ends the process.\<close>

fun serve :: "'s kvs \<Rightarrow> platform \<Rightarrow> proto_request list \<Rightarrow> 's world \<Rightarrow> verdict list \<times> 's world" where
  "serve K pf [] w = ([], w)"
| "serve K pf (req # reqs) w =
     (let (v, w1) = handle_request K pf req w in
      if v = Crash then ([v], w1)
      else let (vs, w2) = serve K pf reqs w1 in (v # vs, w2))"

lemma serve_blind: "cache_blind (serve K pf reqs) w"
proof (induction reqs arbitrary: w)
  case Nil
  then show ?case by (intro cache_blindI) auto
next
  case (Cons req reqs w)
  from handle_request_blind[of K pf req w] obtain v u where
    h: "\<And>q. cache_ok q \<Longrightarrow> \<exists>q'. cache_ok q' \<and> handle_request K pf req (with_cache q w) = (v, with_cache q' u)"
    unfolding cache_blind_def by blast
  from Cons.IH[of u] obtain vs u2 where
    r: "\<And>q. cache_ok q \<Longrightarrow> \<exists>q'. cache_ok q' \<and> serve K pf reqs (with_cache q u) = (vs, with_cache q' u2)"
    unfolding cache_blind_def by blast
  show ?case
  proof (rule cache_blindI)
    fix q :: "statement query_cache"
    assume "cache_ok q"
    from h[OF this] obtain q1 where 1: "cache_ok q1" "handle_request K pf req (with_cache q w) = (v, with_cache q1 u)" by blast
    from r[OF 1(1)] obtain q2 where "cache_ok q2" "serve K pf reqs (with_cache q1 u) = (vs, with_cache q2 u2)" by blast
    then show "\<exists>q'. cache_ok q' \<and> serve K pf (req # reqs) (with_cache q w) =
        (if v = Crash then [v] else v # vs, with_cache q' (if v = Crash then u else u2))"
      using 1 by auto
  qed
qed

section \<open>Properties\<close>

text \<open>C17: the transactions of a request.  Whatever the store answers and whatever the query does, the
  log of a request that is answered is a sequence of guard lives: at most five passes that are
  repeated, each with a transaction that could not begin or whose commit may be retried, and the
  pass that decides the reply.  Every transaction that began is disposed of exactly once, after a
  commit or an abort; one whose handle could not be borrowed is disposed of without either; a query is answered with success
  exactly by a commit that returned OK, so at most one commit of a query takes effect; and the
  error code tells how the last transaction ended.\<close>

theorem request_transactions:
  assumes "kvs_transactions K" "handle_request (traced K) pf req w = (v, w')"
  shows "\<exists>retries ep. snd (store_state w') = snd (store_state w) @ concat retries @ ep
    \<and> list_all repeated_pass retries \<and> length retries \<le> max_retries \<and> v \<noteq> Retry
    \<and> (\<forall>r. v = Answer r \<longrightarrow> deciding_pass r ep \<and> (length retries = max_retries \<longleftrightarrow> (\<exists>msg. r = Error 101 msg)))"
proof (cases req)
  case (Cypher cy)
  then show ?thesis using kvs_transactions.cypher_passes[OF assms(1)] assms(2) by (simp add: handle_request_def)
next
  case (Node_get i)
  then obtain ep where "snd (store_state w') = snd (store_state w) @ ep" "\<forall>r. v = Answer r \<longrightarrow> deciding_pass r ep" "v \<noteq> Retry"
    "\<forall>msg. v \<noteq> Answer (Error 101 msg)"
    using kvs_transactions.node_get_pass[OF assms(1)] node_get_codes assms(2) by (fastforce simp: handle_request_def)
  then show ?thesis by (intro exI[of _ "[]"] exI[of _ ep]) (auto simp: max_retries_def)
next
  case (Edge_get i)
  then obtain ep where "snd (store_state w') = snd (store_state w) @ ep" "\<forall>r. v = Answer r \<longrightarrow> deciding_pass r ep" "v \<noteq> Retry"
    "\<forall>msg. v \<noteq> Answer (Error 101 msg)"
    using kvs_transactions.edge_get_pass[OF assms(1)] edge_get_codes assms(2) by (fastforce simp: handle_request_def)
  then show ?thesis by (intro exI[of _ "[]"] exI[of _ ep]) (auto simp: max_retries_def)
next
  case No_command
  then show ?thesis using assms(2) by (intro exI[of _ "[]"]) (auto simp: handle_request_def deciding_pass_def max_retries_def)
qed

lemma request_transactions_witness:
  "\<exists>w' retries ep. handle_request (traced mock_kvs) plain_platform (Cypher (plain_query ''RETURN n'')) (mock_world 2)
      = (Answer (Success (Cypher_success (''[{'' @ json_quoted ''n'' @ '': null}]''))), w')
    \<and> snd (store_state w') = concat retries @ ep \<and> list_all repeated_pass retries \<and> length retries < 5
    \<and> ended_by_commit Ok ep"
proof -
  obtain w' where w': "handle_request (traced mock_kvs) plain_platform (Cypher (plain_query ''RETURN n'')) (mock_world 2)
     = (Answer (Success (Cypher_success (''[{'' @ json_quoted ''n'' @ '': null}]''))), w')" using retried_query by blast
  from request_transactions[OF mock_tx.kvs_transactions_axioms this] obtain retries ep where
    "snd (store_state w') = snd (store_state (mock_world 2)) @ concat retries @ ep" "list_all repeated_pass retries"
    "length retries \<le> max_retries" "ended_by_commit Ok ep" "length retries \<noteq> max_retries"
    by (auto simp: deciding_pass_def)
  then have "snd (store_state w') = concat retries @ ep \<and> list_all repeated_pass retries \<and> length retries < 5 \<and> ended_by_commit Ok ep"
    by (simp add: mock_world_def max_retries_def)
  then show ?thesis using w' by blast
qed

text \<open>C19: the waiting times of a query, on any store: the passes that fail wait 10, 20, 40, 80 and
  160 milliseconds, there are at most five of them, and error 101 is the answer exactly when all
  five have failed; a request for one element never waits.\<close>

theorem retry_backoff:
  assumes "handle_request K pf req w = (v, w')"
  shows "\<exists>n \<le> 5. slept w' = slept w @ take n [10, 20, 40, 80, 160]
    \<and> (n = 5 \<longleftrightarrow> v = Answer (Error 101 ''Transaction failed after max retries''))
    \<and> sum_list (slept w') \<le> sum_list (slept w) + 310"
proof (cases "\<exists>cy. req = Cypher cy \<and> \<not> (wants_ltx cy \<and> storage_of w = None)")
  case True
  then obtain cy where cy: "req = Cypher cy" "\<not> (wants_ltx cy \<and> storage_of w = None)" by blast
  define opt where "opt = (if wants_ltx cy then make_ltx_options (the (storage_of w)) else \<lparr>write_preserves = []\<rparr>)"
  obtain v1 w1 where l: "cypher_loop K pf cy opt 0 initial_backoff_ms w = (v1, w1)"
    by (cases "cypher_loop K pf cy opt 0 initial_backoff_ms w")
  from cypher_loop_waits[OF l] obtain n where n: "n \<le> max_retries" "v1 = Retry \<longleftrightarrow> n = max_retries"
    "slept w1 = slept w @ map (\<lambda>i. initial_backoff_ms * 2 ^ i) [0..<n]" "\<forall>m. v1 \<noteq> Answer (Error 101 m)" by auto
  have "w' = w1" "v = (if v1 = Retry then Answer (Error 101 ''Transaction failed after max retries'') else v1)"
    using assms cy l by (auto simp: handle_request_def handle_cypher_def opt_def)
  then show ?thesis using n waiting_times[OF n(1)] by (intro exI[of _ n]) (auto simp: max_retries_def)
next
  case False
  then have "slept w' = slept w \<and> (\<forall>m. v \<noteq> Answer (Error 101 m))"
    using assms node_get_codes edge_get_codes
    by (cases req) (fastforce simp: handle_request_def handle_cypher_def)+
  then show ?thesis by (intro exI[of _ 0]) simp
qed

lemma retry_backoff_witness:
  "\<exists>w' n. handle_request (traced mock_kvs) plain_platform (Cypher (plain_query ''RETURN n'')) (mock_world 2)
      = (Answer (Success (Cypher_success (''[{'' @ json_quoted ''n'' @ '': null}]''))), w')
    \<and> n < 5 \<and> slept w' = take n [10, 20, 40, 80, 160]"
proof -
  obtain w' where w': "handle_request (traced mock_kvs) plain_platform (Cypher (plain_query ''RETURN n'')) (mock_world 2)
     = (Answer (Success (Cypher_success (''[{'' @ json_quoted ''n'' @ '': null}]''))), w')" using retried_query by blast
  from retry_backoff[OF this] obtain n where "n \<le> 5" "n \<noteq> 5" "slept w' = slept (mock_world 2) @ take n [10, 20, 40, 80, 160]" by auto
  then show ?thesis using w' by (intro exI[of _ w'] exI[of _ n]) (simp add: mock_world_def)
qed

text \<open>C18: the query cache is not seen.  Two services that differ only in their caches, of whatever
  capacities and with whatever entries as long as every entry is the parse of its key, give the
  same replies to every sequence of requests and end in the same state but for the cache, which
  still holds only parses of its keys.\<close>

theorem cache_transparent:
  assumes "cache_ok q1" "cache_ok q2"
  shows "\<exists>vs w' q1' q2'. serve K pf reqs (with_cache q1 w) = (vs, with_cache q1' w')
    \<and> serve K pf reqs (with_cache q2 w) = (vs, with_cache q2' w') \<and> cache_ok q1' \<and> cache_ok q2'"
  using serve_blind[of K pf reqs w] assms unfolding cache_blind_def by metis

lemma cache_transparent_witness:
  "\<exists>vs w' q1' q2'. serve (traced mock_kvs) plain_platform [Cypher (plain_query ''RETURN n''), Cypher (plain_query ''RETURN n'')]
      (with_cache (new_cache 1) (mock_world 2)) = (vs, with_cache q1' w')
    \<and> serve (traced mock_kvs) plain_platform [Cypher (plain_query ''RETURN n''), Cypher (plain_query ''RETURN n'')]
      (with_cache (new_cache 1024) (mock_world 2)) = (vs, with_cache q2' w')"
proof -
  have "cache_ok (new_cache 1)" "cache_ok (new_cache 1024)" by (rule new_cache_ok, simp)+
  from cache_transparent[OF this, of "traced mock_kvs" plain_platform
      "[Cypher (plain_query ''RETURN n''), Cypher (plain_query ''RETURN n'')]" "mock_world 2"]
  show ?thesis by blast
qed

text \<open>C22: when an ordinary (not long) transaction can begin and its handle can be borrowed, a query that
  does not parse is answered with error 3 and the parser's message, in one
  pass: between the begin and the end of its transaction, which is aborted and disposed of, nothing
  is done to the store, and neither the storage object nor the waiting times change.\<close>

theorem parse_error_reply:
  assumes "parse_query (cypher_query cy) = Inl msg" "cache_ok (statements (the_service w))" "\<not> wants_ltx cy"
    and "transaction_begin K (service_db (the_service w)) \<lparr>write_preserves = []\<rparr> (store_state w) = (Ok, c, s1)" "c \<noteq> 0"
    and "transaction_borrow_handle K c s1 = (Ok, tx, s2)"
  shows "\<exists>w'. handle_request K pf (Cypher cy) w = (Answer (Error 3 (''Query error: '' @ msg)), w')
    \<and> store_state w' = snd (transaction_dispose K c (snd (transaction_abort K c s2)))
    \<and> the_resource w' = the_resource w \<and> slept w' = slept w \<and> cache_ok (statements (the_service w'))"
proof -
  let ?g = "\<lparr>guard_ctl = c, guard_tx = tx, guard_active = True\<rparr>"
  have g: "guard_begin K (service_db (the_service w)) \<lparr>write_preserves = []\<rparr> new_guard (store_state w) = (True, ?g, s2)"
    using assms(4,6) by (simp add: guard_begin_def new_guard_def)
  from fetch_from_cache[OF assms(2), of "what_text pf" "cypher_query cy"] assms(1) obtain q where
    q: "fetch_statement (what_text pf) (cypher_query cy) (statements (the_service w)) = (Raised msg, q)" "cache_ok q"
    by (auto simp: fetched_text_def)
  have "cypher_attempt K pf cy \<lparr>write_preserves = []\<rparr> initial_backoff_ms w =
      (Answer (Error 3 (''Query error: '' @ msg)), w\<lparr>store_state := snd (transaction_dispose K c (snd (transaction_abort K c s2))),
         the_service := (the_service w)\<lparr>statements := q\<rparr>\<rparr>)"
    using assms(5) by (simp add: cypher_attempt_def g try_query_def q(1) query_error_def guard_abort_def guard_destroy_def)
  then show ?thesis
    using assms(3) q(2) by (simp add: handle_request_def handle_cypher_def cypher_loop.simps[of _ _ _ _ 0] max_retries_def)
qed

lemma parse_error_reply_witness:
  "\<exists>w'. handle_request (traced mock_kvs) plain_platform (Cypher (plain_query ''MATCH'')) (mock_world 0) =
      (Answer (Error 3 (''Query error: '' @ projl (parse_query ''MATCH''))), w')
    \<and> snd (store_state w') = [Begun 48879, Aborted 48879, Disposed 48879]"
proof -
  have "\<not> isl (parse_query ''MATCH'') \<longleftrightarrow> False" by code_simp
  then have p: "parse_query (cypher_query (plain_query ''MATCH'')) = Inl (projl (parse_query ''MATCH''))"
    by (simp add: plain_query_def)
  have q: "cache_ok (statements (the_service (mock_world 0)))"
    using new_cache_ok[of default_cache_size] by (simp add: mock_world_def default_cache_size_def)
  have l: "\<not> wants_ltx (plain_query ''MATCH'')" by (simp add: wants_ltx_def plain_query_def)
  have b: "transaction_begin (traced mock_kvs) (service_db (the_service (mock_world 0))) \<lparr>write_preserves = []\<rparr> (store_state (mock_world 0))
      = (Ok, 48879, (empty_mock, [Begun 48879]))"
    "transaction_borrow_handle (traced mock_kvs) 48879 (empty_mock, [Begun 48879]) = (Ok, 57005, (empty_mock, [Begun 48879]))"
    by (simp_all add: traced_def logging_defs mock_kvs_def mock_world_def empty_mock_def)
  have a: "snd (snd (transaction_dispose (traced mock_kvs) 48879 (snd (transaction_abort (traced mock_kvs) 48879 (empty_mock, [Begun 48879])))))
      = [Begun 48879, Aborted 48879, Disposed 48879]"
    by (simp add: traced_def logging_defs mock_kvs_def)
  from parse_error_reply[OF p q l b(1) _ b(2), of plain_platform] a show ?thesis by auto
qed

text \<open>C21: the resource opens the storages in one transaction.  It starts exactly when that
  transaction has been committed with OK, with the six storages opened; on every failure a
  transaction that began has been committed without success or aborted, and disposed of once, and
  the resource does not count as initialised.\<close>

theorem resource_start_transaction:
  assumes "resource_start (traced K) env r t = (st, r', t')" "st \<noteq> Undefined"
  shows "\<exists>ep. snd t' = snd t @ ep \<and> st \<noteq> Thrown
    \<and> (if st = Done then ended_by_commit Ok ep \<and> initialized r'
         \<and> (\<exists>so so' s s'. graph_storage r = Some so \<and> init (traced K) (resource_db r') so s = (True, so', s') \<and> graph_storage r' = Some so')
       else (ep = [] \<or> ended_by_abort ep \<or> (\<exists>rc. rc \<noteq> Ok \<and> ended_by_commit rc ep)) \<and> initialized r' = initialized r)"
proof (cases "env_kvs_resource env")
  case None
  then show ?thesis using assms(1) by (auto simp: resource_start_def)
next
  case db: (Some db)
  let ?r = "r\<lparr>resource_db := db\<rparr>"
  obtain rc c t1 where b: "transaction_begin (traced K) db \<lparr>write_preserves = []\<rparr> t = (rc, c, t1)"
    by (cases "transaction_begin (traced K) db \<lparr>write_preserves = []\<rparr> t") auto
  obtain rb tx s2 l2 where h: "transaction_borrow_handle (traced K) c t1 = (rb, tx, s2, l2)"
    by (cases "transaction_borrow_handle (traced K) c t1") auto
  have l: "snd t1 = snd t @ (if rc = Ok then [Begun c] else [])" "l2 = snd t1"
    using b h by (auto simp: traced_def logging_defs split: prod.splits)
  have give_up: "snd (snd (transaction_dispose (traced K) c (snd (transaction_abort (traced K) c u)))) = snd u @ [Aborted c, Disposed c]" for u
    by (simp add: traced_def logging_defs case_prod_beta)
  show ?thesis
  proof (cases "db = 0 \<or> rc \<noteq> Ok \<or> rb \<noteq> Ok")
    case True
    then show ?thesis using assms(1) db b h l give_up[of "(s2, l2)"]
      by (auto simp: resource_start_def Let_def ended_by_abort_def split: if_splits)
  next
    case False
    show ?thesis
    proof (cases "graph_storage r")
      case None
      then show ?thesis using assms False db b h by (simp add: resource_start_def Let_def)
    next
      case (Some so)
      obtain ok so1 s3 l3 where n: "init (traced K) db so (s2, l2) = (ok, so1, s3, l3)"
        by (cases "init (traced K) db so (s2, l2)") auto
      have t3: "l3 = l2" using traced.init_keeps[OF n, of l2] by simp
      obtain rcc t4 where m: "transaction_commit (traced K) c (s3, l3) = (rcc, t4)" by (cases "transaction_commit (traced K) c (s3, l3)")
      obtain rd t5 where d: "transaction_dispose (traced K) c t4 = (rd, t5)" by (cases "transaction_dispose (traced K) c t4")
      have t5: "snd t5 = l3 @ [Committed c rcc, Disposed c]"
        using m d by (auto simp: traced_def logging_defs split: prod.splits)
      show ?thesis
        using assms(1) False db b h l Some n t3 m d t5 give_up[of "(s3, l3)"]
        by (auto simp: resource_start_def Let_def episode_defs split: if_splits) blast
    qed
  qed
qed

definition plain_environment :: environment where
  "plain_environment = \<lparr>env_mode = Other_mode 0, env_graph_resource = True, env_kvs_resource = Some 1\<rparr>"

lemma mock_start:
  "\<exists>r' s'. resource_start (traced mock_kvs) plain_environment (snd (resource_setup plain_environment new_resource)) (empty_mock, []) =
      (Done, r', s', [Begun 48879, Committed 48879 Ok, Disposed 48879]) \<and> graph_storage r' = Some opened"
  by (simp add: resource_start_def resource_setup_def plain_environment_def new_resource_def Let_def traced_def logging_defs mock_kvs_def
      init_def init_sequence_def init_storage_def empty_mock_def storage_names mock_storage_create_def mock_sequence_create_def
      mock_sequence_get_def mock_transaction_commit_def opened_def new_storage_def)

lemma resource_start_transaction_witness:
  "\<exists>r' t'. resource_start (traced mock_kvs) plain_environment (snd (resource_setup plain_environment new_resource)) (empty_mock, []) =
      (Done, r', t') \<and> ended_by_commit Ok (snd t') \<and> initialized r'"
proof -
  obtain r' s' where m: "resource_start (traced mock_kvs) plain_environment (snd (resource_setup plain_environment new_resource)) (empty_mock, []) =
      (Done, r', s', [Begun 48879, Committed 48879 Ok, Disposed 48879])" using mock_start by blast
  from resource_start_transaction[OF m] show ?thesis using m by (auto simp: ended_by_commit_def)
qed

text \<open>C20: a statement of MATCH, WHERE, RETURN and UNWIND clauses changes nothing: on every store
  whose reads keep the contents, all contents and the storage object, its ids included, are
  afterwards what they were, whatever the outcome.\<close>

theorem read_only_statements:
  assumes "kvs_basic K content valid" "valid s" "reads_only st"
    and "execute K ords hw tx so st s = (r, t, so', s')"
  shows "content s' = content s \<and> valid s' \<and> so' = so"
  using kvs_basic.reads_change_nothing[OF assms(1,3,4,2)] by blast

definition match_people :: string where
  "match_people = ''MATCH (n:Person) RETURN n''"

lemma match_people_reads: "reads_only (projr (parse_query match_people))" "\<not> isl (parse_query match_people)"
  by code_simp+

lemma read_only_statements_witness:
  "\<exists>r t so' s'. execute mock_kvs \<lparr>string_order = id, pending_order = id\<rparr> 8 1 (store_obj bound_one) (projr (parse_query match_people)) (kv bound_one)
      = (r, t, so', s') \<and> mock_db_state s' = mock_db_state (kv bound_one) \<and> so' = store_obj bound_one"
proof -
  obtain r t so' s' where x: "execute mock_kvs \<lparr>string_order = id, pending_order = id\<rparr> 8 1 (store_obj bound_one)
      (projr (parse_query match_people)) (kv bound_one) = (r, t, so', s')" by (metis prod.exhaust)
  from read_only_statements[OF mock.kvs_basic_axioms bound_one_ok(1) match_people_reads(1) x] x show ?thesis by blast
qed

end
