(* ===== verification/Request_Props.thy ===== *)
theory Request_Props
  imports Service_Props Clause_Props Printer
begin

text \<open>
  From the text of a request to the text of its reply: queries written in the language, handled by
  the service on a store whose transactions begin and commit.  The parser, the cache, the
  guard, the executor and the storage are composed as the service composes them.
\<close>

section \<open>A store whose transactions go through\<close>

text \<open>
  \<open>calm\<close> says of a state that no commit is going to be refused; beginning and ending a transaction
  leave the contents as they are.
\<close>

locale kvs_committing = kvs_basic +
  fixes calm :: "'s \<Rightarrow> bool"
  assumes begin_ok: "valid s \<Longrightarrow> calm s \<Longrightarrow> \<exists>c tx s1 s2. c \<noteq> 0 \<and> tx \<noteq> 0 \<and> transaction_begin K db opt s = (Ok, c, s1)
        \<and> transaction_borrow_handle K c s1 = (Ok, tx, s2) \<and> content s2 = content s \<and> valid s2 \<and> calm s2"
    and commit_ok: "valid s \<Longrightarrow> calm s \<Longrightarrow> \<exists>s1 rc s2. transaction_commit K c s = (Ok, s1)
        \<and> transaction_dispose K c s1 = (rc, s2) \<and> content s2 = content s \<and> valid s2 \<and> calm s2"
    and calm_get: "content_get K tx h k s = (st, v, s') \<Longrightarrow> calm s \<Longrightarrow> calm s'"
    and calm_scan: "content_scan K tx h b kb e ke s = (st, it, s') \<Longrightarrow> calm s \<Longrightarrow> calm s'"
    and calm_put: "content_put K tx h k v op s = (st, s') \<Longrightarrow> calm s \<Longrightarrow> calm s'"
    and calm_sequence: "sequence_put K tx i ver val s = (st, s') \<Longrightarrow> calm s \<Longrightarrow> calm s'"

sublocale kvs_committing \<subseteq> calming: store_writes K calm
  by unfold_locales (fact calm_get calm_scan calm_put calm_sequence)+

text \<open>
  A store that refuses the next \<open>refusals\<close> commits, each with a status that the service may retry.
  A refused transaction that has changed nothing leaves the contents it found.
\<close>

locale kvs_settling = kvs_basic +
  fixes refusals :: "'s \<Rightarrow> nat"
  assumes begins: "valid s \<Longrightarrow> \<exists>c tx s1 s2. c \<noteq> 0 \<and> tx \<noteq> 0 \<and> transaction_begin K db opt s = (Ok, c, s1)
        \<and> transaction_borrow_handle K c s1 = (Ok, tx, s2) \<and> content s2 = content s \<and> valid s2 \<and> refusals s2 = refusals s"
    and commits: "valid s \<Longrightarrow> refusals s = 0 \<Longrightarrow> \<exists>s1 rc s2. transaction_commit K c s = (Ok, s1)
        \<and> transaction_dispose K c s1 = (rc, s2) \<and> content s2 = content s \<and> valid s2 \<and> refusals s2 = 0"
    and refuses: "transaction_begin K db opt s0 = (Ok, c, s1) \<Longrightarrow> content s = content s0 \<Longrightarrow> valid s \<Longrightarrow> refusals s = Suc n \<Longrightarrow>
        \<exists>rc s2 rd s3. transaction_commit K c s = (rc, s2) \<and> is_retryable rc
        \<and> transaction_dispose K c s2 = (rd, s3) \<and> content s3 = content s0 \<and> valid s3 \<and> refusals s3 = n"
    and refusals_get: "content_get K tx h k s = (st, v, s') \<Longrightarrow> refusals s' = refusals s"
    and refusals_scan: "content_scan K tx h b kb e ke s = (st, it, s') \<Longrightarrow> refusals s' = refusals s"
    and refusals_put: "content_put K tx h k v op s = (st, s') \<Longrightarrow> refusals s' = refusals s"
    and refusals_sequence: "sequence_put K tx i ver val s = (st, s') \<Longrightarrow> refusals s' = refusals s"

sublocale kvs_settling \<subseteq> settled: kvs_committing K content valid "\<lambda>s. refusals s = 0"
proof
  show "\<exists>c tx s1 s2. c \<noteq> 0 \<and> tx \<noteq> 0 \<and> transaction_begin K db opt s = (Ok, c, s1)
      \<and> transaction_borrow_handle K c s1 = (Ok, tx, s2) \<and> content s2 = content s \<and> valid s2 \<and> refusals s2 = 0"
    if "valid s" "refusals s = 0" for s db opt using begins[OF that(1), of db opt] that(2) by auto
  show "\<exists>s1 rc s2. transaction_commit K c s = (Ok, s1)
      \<and> transaction_dispose K c s1 = (rc, s2) \<and> content s2 = content s \<and> valid s2 \<and> refusals s2 = 0"
    if "valid s" "refusals s = 0" for s c using commits[OF that] .
qed (simp_all add: refusals_get refusals_scan refusals_put refusals_sequence)

sublocale kvs_settling \<subseteq> counting: store_writes K "\<lambda>s. refusals s = n" for n
  by unfold_locales (simp_all add: refusals_get refusals_scan refusals_put refusals_sequence)

interpretation mock_settling: kvs_settling mock_kvs mock_db_state mock_valid mock_commit_failure_count
  by unfold_locales (auto simp: mock_kvs_def mock_transaction_commit_def mock_content_get_def mock_content_put_def mock_valid_def
      mock_content_scan_def mock_sequence_put_def Let_def is_retryable_def split: option.splits)

section \<open>One query\<close>

text \<open>What holds of a service that is ready for requests.\<close>

definition serving :: "('s \<Rightarrow> bool) \<Rightarrow> storage \<Rightarrow> 's world \<Rightarrow> bool" where
  "serving ready so w \<longleftrightarrow> storage_of w = Some so \<and> cache_ok (statements (the_service w)) \<and> ready (store_state w)"

context kvs_committing
begin

lemma query_answered:
  assumes "serving (\<lambda>s. valid s \<and> calm s) so w" "parse_query (cypher_query cy) = Inr st"
    and run: "\<And>tx s. tx \<noteq> 0 \<Longrightarrow> valid s \<Longrightarrow> content s = content (store_state w) \<Longrightarrow>
      \<exists>json so' s'. execute K (orders pf) (hardware_threads pf) tx so st s = (Done, json, so', s') \<and> Q json so' (content s')"
  shows "\<exists>json so' w'. handle_request K pf (Cypher cy) w = (Answer (Success (Cypher_success json)), w')
    \<and> serving (\<lambda>s. valid s \<and> calm s) so' w' \<and> Q json so' (content (store_state w')) \<and> slept w' = slept w"
proof -
  define opt where "opt = (if wants_ltx cy then make_ltx_options (the (storage_of w)) else \<lparr>write_preserves = []\<rparr>)"
  have w: "storage_of w = Some so" "cache_ok (statements (the_service w))" "valid (store_state w)" "calm (store_state w)"
    using assms(1) by (simp_all add: serving_def)
  obtain c tx s1 s2 where b: "c \<noteq> 0" "tx \<noteq> 0" "transaction_begin K (service_db (the_service w)) opt (store_state w) = (Ok, c, s1)"
    "transaction_borrow_handle K c s1 = (Ok, tx, s2)" "content s2 = content (store_state w)" "valid s2" "calm s2"
    using begin_ok[OF w(3,4)] by blast
  obtain q where q: "fetch_statement (what_text pf) (cypher_query cy) (statements (the_service w)) = (Fetched st, q)" "cache_ok q"
    using fetch_from_cache[OF w(2), of "what_text pf" "cypher_query cy"] assms(2) by (auto simp: fetched_text_def)
  obtain json so' s3 where e: "execute K (orders pf) (hardware_threads pf) tx so st s2 = (Done, json, so', s3)" "Q json so' (content s3)"
    using run[OF b(2,6,5)] by blast
  have s3: "valid s3" "calm s3" using running.execute_keeps[OF e(1) b(6)] calming.execute_keeps[OF e(1) b(7)] by blast+
  obtain s4 rc s5 where c: "transaction_commit K c s3 = (Ok, s4)" "transaction_dispose K c s4 = (rc, s5)"
    "content s5 = content s3" "valid s5" "calm s5"
    using commit_ok[OF s3] by blast
  let ?g = "\<lparr>guard_ctl = c, guard_tx = tx, guard_active = True\<rparr>"
  let ?w = "w\<lparr>store_state := s5, the_service := (the_service w)\<lparr>statements := q\<rparr>, the_resource := (the_resource w)\<lparr>graph_storage := Some so'\<rparr>\<rparr>"
  have g: "guard_begin K (service_db (the_service w)) opt new_guard (store_state w) = (True, ?g, s2)"
    using b(3,4) by (simp add: guard_begin_def new_guard_def)
  have so: "storage_of (w\<lparr>store_state := s2, the_service := (the_service w)\<lparr>statements := q\<rparr>\<rparr>) = Some so"
    "storage_of ?w = Some so'" using w(1) by (auto simp: storage_of_def split: if_splits)
  have "cypher_attempt K pf cy opt initial_backoff_ms w = (Answer (Success (Cypher_success json)), ?w)"
    using b(1) c(1,2) by (simp add: cypher_attempt_def g try_query_def q(1) execute_query_def so(1) e(1) query_commit_def guard_commit_def guard_destroy_def)
  then have "handle_request K pf (Cypher cy) w = (Answer (Success (Cypher_success json)), ?w)"
    using w(1) by (simp add: handle_request_def handle_cypher_def opt_def[symmetric] cypher_loop.simps[of _ _ _ _ 0] max_retries_def)
  then show ?thesis using so(2) q(2) c(3-5) e(2) by (auto simp: serving_def)
qed

lemma node_answered:
  assumes "serving (\<lambda>s. valid s \<and> calm s) so w" "graph_inv (content (store_state w)) so"
    and "nodes_of (content (store_state w)) so i = Some t"
  shows "\<exists>w'. handle_request K pf (Node_get i) w = (Answer (Success (Node_success i t)), w')
    \<and> serving (\<lambda>s. valid s \<and> calm s) so w' \<and> content (store_state w') = content (store_state w)"
proof -
  have w: "storage_of w = Some so" "cache_ok (statements (the_service w))" "valid (store_state w)" "calm (store_state w)"
    using assms(1) by (simp_all add: serving_def)
  obtain c tx s1 s2 where b: "c \<noteq> 0" "tx \<noteq> 0"
    "transaction_begin K (service_db (the_service w)) \<lparr>write_preserves = []\<rparr> (store_state w) = (Ok, c, s1)"
    "transaction_borrow_handle K c s1 = (Ok, tx, s2)" "content s2 = content (store_state w)" "valid s2" "calm s2"
    using begin_ok[OF w(3,4)] by blast
  obtain s3 where g: "get_node K tx so i s2 = (Some t, s3)" "content s3 = content s2" "valid s3"
    using get_node_law[of s2 so tx i] b(2,5,6) assms(2,3) by auto
  have "calm s3" using calming.get_node_keeps[OF g(1) b(7)] .
  then obtain s4 rc s5 where c: "transaction_commit K c s3 = (Ok, s4)" "transaction_dispose K c s4 = (rc, s5)"
    "content s5 = content s3" "valid s5" "calm s5"
    using commit_ok[OF g(3)] by blast
  have "handle_request K pf (Node_get i) w = (Answer (Success (Node_success i t)), w\<lparr>store_state := s5\<rparr>)"
    using b(1,3,4) c(1,2) w(1) g(1)
    by (simp add: handle_request_def handle_node_get_def read_element_def guard_begin_def new_guard_def look_node_def
        guard_commit_def guard_destroy_def)
  then show ?thesis using w c(3-5) g(2) b(5) by (auto simp: serving_def storage_of_def split: if_splits)
qed

end

text \<open>A query that changes nothing, on a store that refuses some commits.\<close>

definition steady_run :: "'s kvs \<Rightarrow> ('s \<Rightarrow> handle \<Rightarrow> (bytes \<times> bytes) list) \<Rightarrow> ('s \<Rightarrow> bool) \<Rightarrow> platform \<Rightarrow> storage \<Rightarrow> statement
    \<Rightarrow> (handle \<Rightarrow> (bytes \<times> bytes) list) \<Rightarrow> (string \<Rightarrow> bool) \<Rightarrow> bool" where
  "steady_run K content valid pf so st c Q \<longleftrightarrow> (\<forall>tx s. tx \<noteq> 0 \<longrightarrow> valid s \<longrightarrow> content s = c \<longrightarrow>
     (\<exists>json s'. execute K (orders pf) (hardware_threads pf) tx so st s = (Done, json, so, s') \<and> content s' = c \<and> Q json))"

context kvs_settling
begin

lemma steady_attempt:
  assumes "serving valid so w" "parse_query (cypher_query cy) = Inr st" "steady_run K content valid pf so st (content (store_state w)) Q"
  shows "\<exists>json w1. cypher_attempt K pf cy opt b w =
      (if refusals (store_state w) = 0 then Answer (Success (Cypher_success json)) else Retry, w1) \<and> Q json
    \<and> serving valid so w1 \<and> content (store_state w1) = content (store_state w)
    \<and> refusals (store_state w1) = refusals (store_state w) - 1
    \<and> slept w1 = slept w @ (if refusals (store_state w) = 0 then [] else [b])"
proof -
  have w: "storage_of w = Some so" "cache_ok (statements (the_service w))" "valid (store_state w)"
    using assms(1) by (simp_all add: serving_def)
  obtain c tx s1 s2 where b: "c \<noteq> 0" "tx \<noteq> 0" "transaction_begin K (service_db (the_service w)) opt (store_state w) = (Ok, c, s1)"
    "transaction_borrow_handle K c s1 = (Ok, tx, s2)" "content s2 = content (store_state w)" "valid s2" "refusals s2 = refusals (store_state w)"
    using begins[OF w(3)] by blast
  obtain q where q: "fetch_statement (what_text pf) (cypher_query cy) (statements (the_service w)) = (Fetched st, q)" "cache_ok q"
    using fetch_from_cache[OF w(2), of "what_text pf" "cypher_query cy"] assms(2) by (auto simp: fetched_text_def)
  obtain json s3 where e: "execute K (orders pf) (hardware_threads pf) tx so st s2 = (Done, json, so, s3)"
    "content s3 = content (store_state w)" "Q json"
    using assms(3) b(2,5,6) unfolding steady_run_def by blast
  have s3: "valid s3" "refusals s3 = refusals (store_state w)"
    using running.execute_keeps[OF e(1) b(6)] counting.execute_keeps[OF e(1) b(7)] by blast+
  let ?g = "\<lparr>guard_ctl = c, guard_tx = tx, guard_active = True\<rparr>"
  have g: "guard_begin K (service_db (the_service w)) opt new_guard (store_state w) = (True, ?g, s2)"
    using b(3,4) by (simp add: guard_begin_def new_guard_def)
  let ?w = "\<lambda>s. w\<lparr>store_state := s, the_service := (the_service w)\<lparr>statements := q\<rparr>, the_resource := (the_resource w)\<lparr>graph_storage := Some so\<rparr>\<rparr>"
  have so: "storage_of (w\<lparr>store_state := s2, the_service := (the_service w)\<lparr>statements := q\<rparr>\<rparr>) = Some so"
    "storage_of (?w s) = Some so" "storage_of ((?w s)\<lparr>slept := l\<rparr>) = Some so" for s l
    using w(1) by (auto simp: storage_of_def split: if_splits)
  note run = cypher_attempt_def g try_query_def q(1) execute_query_def so(1) e(1) query_commit_def guard_commit_def guard_destroy_def
  show ?thesis
  proof (cases "refusals (store_state w)")
    case 0
    then obtain s4 rc s5 where c: "transaction_commit K c s3 = (Ok, s4)" "transaction_dispose K c s4 = (rc, s5)"
      "content s5 = content s3" "valid s5" "refusals s5 = 0"
      using commits[OF s3(1), of c] s3(2) 0 by auto
    have "cypher_attempt K pf cy opt b w = (Answer (Success (Cypher_success json)), ?w s5)"
      using b(1) c(1,2) by (simp add: run)
    then show ?thesis using 0 e(2,3) c(3-5) q(2) so(2) by (auto simp: serving_def)
  next
    case (Suc n)
    then obtain rc s4 rd s5 where c: "transaction_commit K c s3 = (rc, s4)" "is_retryable rc" "transaction_dispose K c s4 = (rd, s5)"
      "content s5 = content (store_state w)" "valid s5" "refusals s5 = n"
      using refuses[OF b(3) e(2) s3(1)] s3(2) by auto
    have "rc \<noteq> Ok" using c(2) by (auto simp: is_retryable_def)
    then have "cypher_attempt K pf cy opt b w = (Retry, (?w s5)\<lparr>slept := slept w @ [b]\<rparr>)"
      using b(1) c(1-3) by (simp add: run)
    then show ?thesis using Suc e(3) c(4-6) q(2) so(3) by (auto simp: serving_def)
  qed
qed

lemma steady_loop:
  assumes "serving valid so w" "parse_query (cypher_query cy) = Inr st" "steady_run K content valid pf so st (content (store_state w)) Q"
    and "a + refusals (store_state w) < max_retries"
  shows "\<exists>json w'. cypher_loop K pf cy opt a b w = (Answer (Success (Cypher_success json)), w') \<and> Q json
    \<and> serving valid so w' \<and> content (store_state w') = content (store_state w)
    \<and> slept w' = slept w @ map (\<lambda>i. b * 2 ^ i) [0..<refusals (store_state w)]"
  using assms
proof (induction "refusals (store_state w)" arbitrary: a b w)
  case 0
  from steady_attempt[OF 0(2-4), of opt b] 0(1,5) show ?case by (subst cypher_loop.simps) auto
next
  case (Suc n)
  obtain w1 where 1: "cypher_attempt K pf cy opt b w = (Retry, w1)" "serving valid so w1" "content (store_state w1) = content (store_state w)"
    "refusals (store_state w1) = n" "slept w1 = slept w @ [b]"
    using steady_attempt[OF Suc.prems(1-3), of opt b] Suc.hyps(2) by (auto split: if_splits)
  have "cypher_loop K pf cy opt a b w = cypher_loop K pf cy opt (a + 1) (b * 2) w1"
    using 1(1) Suc.prems(4) by (subst cypher_loop.simps) simp
  moreover have "map (\<lambda>i. b * 2 ^ i) [0..<Suc n] = b # map (\<lambda>i. b * 2 * 2 ^ i) [0..<n]"
    unfolding map_upt_Suc by (simp add: mult.assoc)
  ultimately show ?case
    using Suc.hyps(1)[of w1 "a + 1" "b * 2"] 1(2-5) Suc.prems Suc.hyps(2)[symmetric] by auto
qed

lemma steady_query:
  assumes "serving valid so w" "parse_query (cypher_query cy) = Inr st" "steady_run K content valid pf so st (content (store_state w)) Q"
    and "refusals (store_state w) < max_retries"
  shows "\<exists>json w'. handle_request K pf (Cypher cy) w = (Answer (Success (Cypher_success json)), w') \<and> Q json
    \<and> serving valid so w' \<and> content (store_state w') = content (store_state w)
    \<and> slept w' = slept w @ map (\<lambda>i. initial_backoff_ms * 2 ^ i) [0..<refusals (store_state w)]"
proof -
  define opt where "opt = (if wants_ltx cy then make_ltx_options (the (storage_of w)) else \<lparr>write_preserves = []\<rparr>)"
  have "storage_of w = Some so" using assms(1) by (simp add: serving_def)
  moreover obtain json w' where "cypher_loop K pf cy opt 0 initial_backoff_ms w = (Answer (Success (Cypher_success json)), w')" "Q json"
    "serving valid so w'" "content (store_state w') = content (store_state w)"
    "slept w' = slept w @ map (\<lambda>i. initial_backoff_ms * 2 ^ i) [0..<refusals (store_state w)]"
    using steady_loop[OF assms(1-3), of 0 opt initial_backoff_ms] assms(4) by auto
  ultimately show ?thesis by (simp add: handle_request_def handle_cypher_def opt_def[symmetric])
qed

end

text \<open>CREATE of one node, and MATCH of a label with RETURN, as the executor runs them.\<close>

context kvs_basic
begin

lemma create_node_run:
  assumes "valid s" "graph_inv (content s) so" "tx \<noteq> 0" "next_id so + 1 \<noteq> 0"
  shows "\<exists>so' s'. execute K ords hw tx so [Create_clause [[\<lparr>elem_node = n, elem_rel = None\<rparr>]]] s = (Done, [], so', s')
    \<and> graph_inv (content s') so'
    \<and> nodes_of (content s') so' = (nodes_of (content s) so)(next_id so \<mapsto> evaluate_properties (\<lambda>_. None) (node_props n))
    \<and> edges_of (content s') so' = edges_of (content s) so"
proof -
  let ?x = "new_exec so s"
  have x: "kv ?x = s" "store_obj ?x = so" "ctx ?x = (\<lambda>_. None)" "unwind_ctx ?x = (\<lambda>_. None)" "result_json ?x = []" by (simp_all add: new_exec_def)
  obtain y where y: "bound_or_new K tx n ?x = (Some (next_id so), y)" "graph_inv (content (kv y)) (store_obj y)"
    "nodes_of (content (kv y)) (store_obj y) = (nodes_of (content s) so)(next_id so \<mapsto> evaluate_properties (\<lambda>_. None) (node_props n))"
    "edges_of (content (kv y)) (store_obj y) = edges_of (content s) so"
    using new_node_law[of ?x tx n, unfolded x] assms by (auto simp: unbound_def x)
  have "result_json y = []"
    using y(1) x by (auto simp: bound_or_new_def Let_def split: prod.splits option.splits list.splits if_splits)
  then show ?thesis using y by (simp add: execute_def execute_create_def)
qed

lemma label_query_run:
  assumes "valid s" "graph_inv (content s) so" "tx \<noteq> 0" "label \<noteq> []" "v \<noteq> []" "label_alone (content s (label_index_handle so)) label"
    and "labelled (content s) so label i" "\<forall>it\<in>set items. item_variable it \<noteq> []"
  shows "\<exists>ids s'. execute K ords hw tx so [Match_clause [[\<lparr>elem_node = \<lparr>node_variable = v, node_label = label, node_props = []\<rparr>, elem_rel = None\<rparr>]],
        Return_clause items] s = (Done, table_text (nodes_of (content s) so) (edges_of (content s) so) [v \<mapsto> ids] items, so, s')
    \<and> content s' = content s \<and> set ids = {i. labelled (content s) so label i} \<and> sorted_wrt (<) ids"
proof -
  let ?x = "new_exec so s" and ?n = "\<lparr>node_variable = v, node_label = label, node_props = []\<rparr>"
  have x: "kv ?x = s" "store_obj ?x = so" "ctx ?x = Map.empty" "ctx_labels ?x = Map.empty" by (simp_all add: new_exec_def)
  obtain ids s1 where m: "execute_match K tx [[\<lparr>elem_node = ?n, elem_rel = None\<rparr>]] ?x =
      (Done, ?x\<lparr>kv := s1, ctx := [v \<mapsto> ids], ctx_labels := [v \<mapsto> label]\<rparr>)"
    "content s1 = content s" "valid s1" "set ids = {i. labelled (content s) so label i}" "sorted_wrt (<) ids"
    using match_label_law[of ?x tx ?n i None, unfolded x] assms(1-7) by (auto simp: x)
  let ?y = "?x\<lparr>kv := s1, ctx := [v \<mapsto> ids], ctx_labels := [v \<mapsto> label]\<rparr>"
  obtain s2 where "execute_return K tx items ?y = (Done, ?y\<lparr>kv := s2, result_json :=
      table_text (nodes_of (content s) so) (edges_of (content s) so) [v \<mapsto> ids] items\<rparr>)" "content s2 = content s"
    using execute_return_law[of ?y tx items] m(2,3) assms(2,3,8) x by auto
  then show ?thesis using m(1,4,5) x(2) by (auto simp: execute_def)
qed

end

section \<open>Properties\<close>

text \<open>C4: a node that a query creates is read back.  The text of \<open>CREATE (n:L {...})\<close>, whatever the names and
  properties, and a node request for the next id, sent to a serving process whose store lets
  transactions through, are answered with success, the second with the node's properties as the
  query gave them.\<close>

theorem created_node_is_read:
  assumes "kvs_committing K content valid calm" "serving (\<lambda>s. valid s \<and> calm s) so w"
    and "graph_inv (content (store_state w)) so" "next_id so + 1 \<noteq> 0" "node_ok n"
    and "cypher_query cy = query_text [Create_clause [[\<lparr>elem_node = n, elem_rel = None\<rparr>]]]"
  shows "\<exists>w'. serve K pf [Cypher cy, Node_get (next_id so)] w = ([Answer (Success (Cypher_success [])),
      Answer (Success (Node_success (next_id so) (evaluate_properties (\<lambda>_. None) (node_props n))))], w')"
proof -
  let ?st = "[Create_clause [[\<lparr>elem_node = n, elem_rel = None\<rparr>]]]" and ?t = "evaluate_properties (\<lambda>_. None) (node_props n)"
  have basic: "kvs_basic K content valid" using assms(1) by (simp add: kvs_committing_def)
  have parsed: "parse_query (cypher_query cy) = Inr ?st"
    unfolding assms(6) by (rule statement_roundtrip) (simp add: statement_ok_def assms(5))
  define Q where "Q = (\<lambda>(json :: string) so' c. json = [] \<and> graph_inv c so' \<and> nodes_of c so' (next_id so) = Some ?t)"
  have "\<exists>json so' s'. execute K (orders pf) (hardware_threads pf) tx so ?st s = (Done, json, so', s') \<and> Q json so' (content s')"
    if "tx \<noteq> 0" "valid s" "content s = content (store_state w)" for tx s
    using kvs_basic.create_node_run[OF basic] that assms(3,4) unfolding Q_def by (metis fun_upd_same)
  from kvs_committing.query_answered[OF assms(1,2) parsed this] obtain json so' w1 where
    1: "handle_request K pf (Cypher cy) w = (Answer (Success (Cypher_success json)), w1)"
    "serving (\<lambda>s. valid s \<and> calm s) so' w1" "Q json so' (content (store_state w1))" by blast
  obtain w2 where "handle_request K pf (Node_get (next_id so)) w1 = (Answer (Success (Node_success (next_id so) ?t)), w2)"
    using kvs_committing.node_answered[OF assms(1) 1(2)] 1(3) unfolding Q_def by blast
  then show ?thesis using 1(1,3) by (simp add: Q_def)
qed

text \<open>The two request of a client on a new mock store.\<close>

definition amy_node :: pattern_node where
  "amy_node = \<lparr>node_variable = ''n'', node_label = ''Person'', node_props = [(''name'', Literal ''Amy'' True)]\<rparr>"

definition fresh_world :: "mock_state world" where
  "fresh_world = \<lparr>the_service = \<lparr>graph_resource = True, service_db = 1, statements = new_cache default_cache_size\<rparr>,
     the_resource = \<lparr>graph_storage = Some opened, resource_db = 1, initialized = True\<rparr>, store_state = empty_mock, slept = []\<rparr>"

lemma fresh_world_ok:
  "serving (\<lambda>s. mock_valid s \<and> mock_commit_failure_count s = 0) opened fresh_world"
  "graph_inv (mock_db_state (store_state fresh_world)) opened" "next_id opened = 1"
  using empty_mock_valid opened_mock new_cache_ok[of default_cache_size]
  by (simp_all add: serving_def storage_of_def fresh_world_def default_cache_size_def empty_mock_def opened_def new_storage_def)

lemma created_node_is_read_witness:
  "\<exists>w'. serve mock_kvs plain_platform [Cypher (plain_query (query_text [Create_clause [[\<lparr>elem_node = amy_node, elem_rel = None\<rparr>]]])), Node_get 1] fresh_world =
     ([Answer (Success (Cypher_success [])),
       Answer (Success (Node_success 1 (''{'' @ json_quoted ''name'' @ '': '' @ json_quoted ''Amy'' @ ''}'')))], w')"
proof -
  have n: "node_ok amy_node" by code_simp
  have t: "evaluate_properties (\<lambda>_. None) (node_props amy_node) = ''{'' @ json_quoted ''name'' @ '': '' @ json_quoted ''Amy'' @ ''}''"
    by (simp add: evaluate_properties_def amy_node_def property_text_def)
  show ?thesis
    using created_node_is_read[OF mock_settling.settled.kvs_committing_axioms fresh_world_ok(1,2) _ n,
        of "plain_query (query_text [Create_clause [[\<lparr>elem_node = amy_node, elem_rel = None\<rparr>]]])" plain_platform]
    by (simp add: fresh_world_ok(3) plain_query_def t)
qed

text \<open>C3: the text of \<open>MATCH (v:L) RETURN ...\<close>, with variables and properties as items, some node of the label
  and no other label of the index that continues it, is answered in the end: when the store
  refuses fewer than five commits, the reply is the table over the nodes that have the label, in the order of their ids,
  the texts read off the graph of the store; the service has waited 10, 20, 40 ... ms, once per
  refusal, and the contents and the storage object stay.\<close>

theorem label_query_answered:
  assumes "kvs_settling K content valid refusals" "serving valid so w" "refusals (store_state w) < 5"
    and "graph_inv (content (store_state w)) so" "label_alone (content (store_state w) (label_index_handle so)) label"
    and "labelled (content (store_state w)) so label i" "ident_ok v" "ident_ok label"
    and "items \<noteq> []" "\<forall>it\<in>set items. item_ok it \<and> item_variable it \<noteq> []"
    and "cypher_query cy = query_text [Match_clause [[\<lparr>elem_node = \<lparr>node_variable = v, node_label = label, node_props = []\<rparr>, elem_rel = None\<rparr>]], Return_clause items]"
  shows "\<exists>ids w'. handle_request K pf (Cypher cy) w = (Answer (Success (Cypher_success
        (table_text (nodes_of (content (store_state w)) so) (edges_of (content (store_state w)) so) [v \<mapsto> ids] items))), w')
    \<and> set ids = {i. labelled (content (store_state w)) so label i} \<and> sorted_wrt (<) ids
    \<and> content (store_state w') = content (store_state w) \<and> storage_of w' = Some so
    \<and> slept w' = slept w @ map (\<lambda>i. 10 * 2 ^ i) [0..<refusals (store_state w)]"
proof -
  let ?st = "[Match_clause [[\<lparr>elem_node = \<lparr>node_variable = v, node_label = label, node_props = []\<rparr>, elem_rel = None\<rparr>]], Return_clause items]"
  let ?c = "content (store_state w)"
  have basic: "kvs_basic K content valid" using assms(1) by (simp add: kvs_settling_def)
  have ne: "v \<noteq> []" "label \<noteq> []" using assms(7,8) by (auto simp: ident_ok_def word_ok_def)
  have parsed: "parse_query (cypher_query cy) = Inr ?st"
    unfolding assms(11) by (rule statement_roundtrip) (use assms(7-10) in \<open>simp add: statement_ok_def node_ok_def name_ok_def printable_props_def\<close>)
  define Q where "Q = (\<lambda>json. \<exists>ids. json = table_text (nodes_of ?c so) (edges_of ?c so) [v \<mapsto> ids] items
    \<and> set ids = {i. labelled ?c so label i} \<and> sorted_wrt (<) ids)"
  have "\<exists>json s'. execute K (orders pf) (hardware_threads pf) tx so ?st s = (Done, json, so, s') \<and> content s' = ?c \<and> Q json"
    if s: "tx \<noteq> 0" "valid s" "content s = ?c" for tx s
  proof -
    have "\<forall>it\<in>set items. item_variable it \<noteq> []" using assms(10) by blast
    then obtain ids s' where e: "execute K (orders pf) (hardware_threads pf) tx so ?st s =
        (Done, table_text (nodes_of ?c so) (edges_of ?c so) [v \<mapsto> ids] items, so, s')"
      "content s' = ?c" "set ids = {i. labelled ?c so label i}" "sorted_wrt (<) ids"
      using kvs_basic.label_query_run[OF basic s(2) _ s(1) ne(2,1), of so i items "orders pf" "hardware_threads pf", unfolded s(3), OF assms(4-6)]
      by blast
    then have "Q (table_text (nodes_of ?c so) (edges_of ?c so) [v \<mapsto> ids] items)" unfolding Q_def by blast
    then show ?thesis using e(1,2) by blast
  qed
  then have steady: "steady_run K content valid pf so ?st ?c Q" unfolding steady_run_def by blast
  from kvs_settling.steady_query[OF assms(1,2) parsed steady] assms(3) obtain json w' where
    1: "handle_request K pf (Cypher cy) w = (Answer (Success (Cypher_success json)), w')" "Q json" "serving valid so w'"
    "content (store_state w') = ?c" "slept w' = slept w @ map (\<lambda>i. 10 * 2 ^ i) [0..<refusals (store_state w)]"
    by (auto simp: max_retries_def initial_backoff_ms_def)
  then show ?thesis unfolding Q_def serving_def by blast
qed

text \<open>A mock store with one person that refuses two commits.\<close>

definition people_world :: "mock_state world" where
  "people_world = fresh_world\<lparr>store_state := one_person\<lparr>mock_commit_failure_count := 2\<rparr>, the_resource := \<lparr>graph_storage = Some (opened\<lparr>next_id := 2\<rparr>), resource_db = 1, initialized = True\<rparr>\<rparr>"

lemma people_world_ok:
  "serving mock_valid (opened\<lparr>next_id := 2\<rparr>) people_world" "mock_db_state (store_state people_world) = mock_db_state one_person"
  "mock_commit_failure_count (store_state people_world) = 2" "slept people_world = []"
  using people_ok(1) fresh_world_ok(1)
  by (simp_all add: serving_def storage_of_def people_world_def fresh_world_def new_exec_def mock_valid_def)

definition name_of_n :: "return_item list" where
  "name_of_n = [\<lparr>item_expr = Property_access ''n'' ''name'', item_alias = []\<rparr>]"

lemma label_query_answered_witness:
  "\<exists>w'. handle_request mock_kvs plain_platform (Cypher (plain_query (query_text
        [Match_clause [[\<lparr>elem_node = \<lparr>node_variable = ''n'', node_label = ''Person'', node_props = []\<rparr>, elem_rel = None\<rparr>]], Return_clause name_of_n])))
     people_world = (Answer (Success (Cypher_success (''[{'' @ json_quoted ''n.name'' @ '': '' @ json_quoted ''Bob'' @ ''}]''))), w')
    \<and> slept w' = [10, 20]"
proof -
  let ?so = "opened\<lparr>next_id := 2\<rparr>"
  let ?cy = "plain_query (query_text [Match_clause [[\<lparr>elem_node = \<lparr>node_variable = ''n'', node_label = ''Person'', node_props = []\<rparr>, elem_rel = None\<rparr>]],
      Return_clause name_of_n])"
  have k: "kv people = one_person" "store_obj people = ?so" by (simp_all add: new_exec_def)
  note ok = people_ok[unfolded k]
  have names: "ident_ok ''n''" "ident_ok ''Person''" "name_of_n \<noteq> []" "\<forall>it\<in>set name_of_n. item_ok it \<and> item_variable it \<noteq> []"
    by code_simp+
  obtain ids w' where a: "handle_request mock_kvs plain_platform (Cypher ?cy) people_world = (Answer (Success (Cypher_success
        (table_text (nodes_of (mock_db_state one_person) ?so) (edges_of (mock_db_state one_person) ?so) [''n'' \<mapsto> ids] name_of_n))), w')"
    "set ids = {1}" "sorted_wrt (<) ids" "slept w' = [10, 20]"
    using label_query_answered[OF mock_settling.kvs_settling_axioms people_world_ok(1), unfolded people_world_ok(2-4),
        OF _ ok(2,3) _ names, of 1 ?cy plain_platform] ok(4) by (auto simp: plain_query_def eval_nat_numeral)
  have ids: "ids = [1]" using a(2,3) by (cases ids rule: list.exhaust[case_names Nil Cons]; cases "tl ids") auto
  have g: "get_json_value bob_text ''name'' = ''Bob''" by code_simp
  have b: "bob_text \<noteq> []" by (simp add: bob_text_def)
  have n: "nodes_of (mock_db_state one_person) ?so 1 = Some bob_text" using fused_ignores_inline(2) by (simp add: k)
  have m: "max_rows [''n'' \<mapsto> [1]] name_of_n = 1" by (simp add: max_rows_def name_of_n_def item_variable_def)
  have "table_text (nodes_of (mock_db_state one_person) ?so) (edges_of (mock_db_state one_person) ?so) [''n'' \<mapsto> ids] name_of_n =
      ''[{'' @ json_quoted ''n.name'' @ '': '' @ json_quoted ''Bob'' @ ''}]''"
    unfolding table_text_def ids m
    by (simp add: row_text_def name_of_n_def cell_def item_variable_def alias_text_def cell_value_def n property_json_def
        g b number_like_def is_digit_def)
  then show ?thesis using a(1,4) by auto
qed

end
