(* ===== verification/Spec2Isabelle.thy ===== *)
theory Spec2Isabelle
  imports Graph_Prelude Ast Lexer Parser Printer Query_Cache Ast_Literals Key_Codec Cpp_Double Json_Props Kvs Prop_Index
    Storage Graph_Store Storage_Props Executor Query_Run Exec_Props Clause_Props Id_Threads Iter_Life Service Store_Frame Service_Props Request_Props
begin

text \<open>
  A model of the graph service of Tsurugi, \<open>src/graph-service\<close>: a property graph with a subset of
  Cypher on top of a transactional key-value store, in C++.

  \<^bold>\<open>The program.\<close>  A request arrives at \<open>service::operator()\<close>.  A query is looked up in the cache of
  parsed statements, or lexed and parsed; an executor runs its clauses inside a transaction,
  which is committed or, on a conflict, tried again.  The executor works on the storage object
  of the resource, which keeps nodes, edges and their indexes in six maps of the store, under
  byte keys of its own.  Two further requests read a node or an edge.

  \<^bold>\<open>What models what\<close> (paths below \<open>include\<close> and \<open>src/tateyama/framework/graph\<close>).

  \<^item> \<open>Graph_Prelude\<close>: byte strings, scanning loops as functions on suffixes, \<open>std::map\<close> as a sorted
    association list; the rule collections \<open>map_laws\<close> and \<open>scan_laws\<close>.
  \<^item> \<open>Ast\<close>: \<open>core/ast.h\<close>.  The only sharing that can be observed, the value of a WHERE clause that is
    the right operand of its condition, is a constructor of \<open>where_ref\<close>.
  \<^item> \<open>Lexer\<close>, \<open>Parser\<close>: \<open>core/parser.cpp\<close>; a parsing function takes the tokens that are left and
    returns a result and the rest, or the exception.  \<open>Printer\<close> states the grammar as a printer.
  \<^item> \<open>Query_Cache\<close>: class \<open>query_cache\<close>, with its hash maps, its list and the stored iterators.
    \<open>Ast_Literals\<close>: the rest of \<open>core/query_cache.h\<close> (normalisation, literals, deep copies).
  \<^item> \<open>Key_Codec\<close>, \<open>Cpp_Double\<close>, \<open>Json_Props\<close>: the encodings of \<open>storage.cpp\<close>, doubles as bits with
    \<open>std::stod\<close>, and the scanners of property texts of \<open>storage.cpp\<close> and \<open>core/executor.cpp\<close>.
  \<^item> \<open>Kvs\<close>: the interface of the store (Sharksfin) as a record of its operations, what the program
    relies on as the locales \<open>kvs_basic\<close>, \<open>kvs_strict\<close>, \<open>kvs_sequences\<close> and \<open>kvs_opening\<close>, and two
    stores that are instances: the mock of \<open>sharksfin_mock.h\<close>, and one with the documented \<open>CREATE\<close>.
  \<^item> \<open>Prop_Index\<close>, \<open>Storage\<close>: class \<open>storage\<close>; members are the record \<open>storage\<close>, an operation takes
    the store's interface, the transaction, the object and the state of the store.
    \<open>Iter_Life\<close>: \<open>label_iterator\<close> objects with their moves and their destructor.
    \<open>Id_Threads\<close>: \<open>allocate_id\<close> as memory accesses of several threads, a step relation.
  \<^item> \<open>Executor\<close>, \<open>Query_Run\<close>: class \<open>executor\<close>; its symbol tables, the storage object, the store and
    the result text are the record \<open>exec\<close>.  \<open>return false\<close>, an exception and undefined behaviour
    are the values \<open>Failed\<close>, \<open>Thrown\<close> and \<open>Undefined\<close> of \<open>status\<close>.
  \<^item> \<open>Service\<close>: \<open>resource.cpp\<close> and \<open>service.cpp\<close>: \<open>tx_guard\<close>, the retry loop, the three handlers.

  \<^bold>\<open>What is shown.\<close>

  \<^item> Front end: the tokens cut the input exactly; every printed statement of the grammar parses back
    to itself; every accepted statement has the shape the executor relies on.
  \<^item> Cache: the linked structures implement an LRU list (\<open>lru_cache\<close>); literals that are
    extracted and bound again change nothing.
  \<^item> Encodings: the byte order of keys is the numeric order; round trips of ids, edges and texts.
  \<^item> Storage: \<open>Graph_Store\<close> gives the invariant \<open>graph_inv\<close> and the abstract graph (\<open>nodes_of\<close>,
    \<open>edges_of\<close>, \<open>labelled\<close>); \<open>Storage_Props\<close> and \<open>Prop_Index\<close> prove that operations implement it
    and that scans and lookups deliver exactly what it holds.  Deleting a node empties its text
    and keeps its key and its labels, deleting an edge keeps its index keys; the statements say
    so.  After a restart the ids start at 1 again, and creations fail until they are past the
    stored ones.
  \<^item> Clauses: \<open>Exec_Props\<close> and \<open>Clause_Props\<close> state what each clause does to that graph or reads off
    it, on the patterns their texts name: WHERE is a filter, MATCH follows the edges, CREATE adds
    the path, DELETE empties the nodes and deletes the edges at them, SET rewrites the texts,
    UNWIND creates a node per element, RETURN writes the table of its cells, the fused MATCH and
    WHERE is the two clauses.  Lemmas beside them show where the clauses surprise.
  \<^item> Frames: \<open>Store_Frame\<close> proves once, for any predicate of the store's state, that what the calls of
    the interface keep is kept by the clauses; reading statements change nothing, and the log of
    transaction calls is not touched by the executor.
  \<^item> Service: every transaction is ended and disposed of once, retries wait 10 to 160 ms and are at
    most five, the cache cannot be observed in the replies.
  \<^item> Whole requests (\<open>Request_Props\<close>): from the text of a query to the text of its reply, through lexer,
    parser, cache, guard, executor and storage, on a store that lets transactions through
    (\<open>kvs_committing\<close>) or refuses some commits first (\<open>kvs_settling\<close>).
  \<^item> Objects and threads: iterator handles are disposed of exactly once; calls of \<open>allocate_id\<close> that do
    not overlap give distinct ids, overlapping ones need not.

  \<^bold>\<open>Bounds.\<close>  No function uses fuel.  Loops end by the length of what is left: of the tokens in the
  parser, of the input in the scanners, of the ids in the batched scan, of the cursor in the label
  scan, and \<open>max_retries\<close> minus the attempt in the retry loop.  Ids and words have 64 bits and wrap;
  theorems that need it assume that the ids do not run out.  Lengths (\<open>size_t\<close>) are naturals; only
  the 32-bit length of an edge value is kept at its width.

  \<^bold>\<open>Parameters.\<close>  The store; the iteration orders of hash maps (\<open>hash_orders\<close>); the number of hardware
  threads; the texts of library exceptions.  Strings and doubles of the standard library are
  modelled.

  \<^bold>\<open>Not modelled.\<close>  Logging; the generated protobuf code (requests and replies are datatypes); the
  framework's registration of components; the disposal by \<open>iterator_guard\<close> inside a scan, which
  reads its iterator as a list; \<open>bad_alloc\<close>; \<open>parser::parse_delete\<close>, which nothing calls; the
  accessors that name a component to the framework.  Requests are handled one after the other, except for
  \<open>Id_Threads\<close>; the cache's mutex makes its operations atomic.  The benchmarks and the tests are
  programs around the same interface and hold no logic of the product.
\<close>

end
